theory Spec2Isabelle
  imports Complex_Main "HOL-Library.Word" "HOL-Library.Monad_Syntax"
begin

section \<open>CoinRun (MUGEN variant): a shallow embedding of \<^verbatim>\<open>coinrun.cpp\<close>\<close>

text \<open>
  Conventions of the embedding.
  \<^item> C++ \<^verbatim>\<open>float\<close>/\<^verbatim>\<open>double\<close> values are modelled as \<^typ>\<open>real\<close> (rounding is not modelled);
    the conversion \<^verbatim>\<open>int(f)\<close> is truncation towards zero (\<open>c_int\<close>).
  \<^item> C++ \<^verbatim>\<open>int\<close> counters are \<^typ>\<open>int\<close>; the unsigned arithmetic of \<^verbatim>\<open>RandGen\<close> is done on
    \<^typ>\<open>32 word\<close>.
  \<^item> Tile codes are the \<^verbatim>\<open>char\<close> values the code stores in the \<^verbatim>\<open>walls\<close> array.
  \<^item> A failed \<^verbatim>\<open>assert\<close> and an access outside an array are the value \<open>None\<close>.
  \<^item> Fields of the C++ classes keep their names, prefixed by \<open>maze_\<close>, \<open>agent_\<close>,
    \<open>mon_\<close>, \<open>st_\<close> where a bare name would clash with a variable or another class.
  \<^item> Rendering, CSV logging and audio labelling are not part of the model.
\<close>

subsection \<open>Constants and tile predicates\<close>

abbreviation (input) NUM_ACTIONS :: int where "NUM_ACTIONS \<equiv> 7"

definition DISCRETE_ACTIONS :: "int list" where
  "DISCRETE_ACTIONS = [0, 0,  1, 0,  -1, 0,  0, 1,  1, 1,  -1, 1,  0, -1]"

abbreviation (input) SPACE :: char where "SPACE \<equiv> CHR ''.''"
abbreviation (input) LADDER :: char where "LADDER \<equiv> CHR ''=''"
abbreviation (input) LAVA_SURFACE :: char where "LAVA_SURFACE \<equiv> CHR ''^''"
abbreviation (input) LAVA_MIDDLE :: char where "LAVA_MIDDLE \<equiv> CHR ''|''"
abbreviation (input) WALL_SURFACE :: char where "WALL_SURFACE \<equiv> CHR ''S''"
abbreviation (input) WALL_MIDDLE :: char where "WALL_MIDDLE \<equiv> CHR ''A''"
abbreviation (input) COIN_OBJ1 :: char where "COIN_OBJ1 \<equiv> CHR ''1''"
abbreviation (input) COIN_OBJ2 :: char where "COIN_OBJ2 \<equiv> CHR ''2''"
abbreviation (input) SPIKE_OBJ :: char where "SPIKE_OBJ \<equiv> CHR ''P''"
abbreviation (input) FLYING_MONSTER :: char where "FLYING_MONSTER \<equiv> CHR ''F''"
abbreviation (input) WALKING_MONSTER :: char where "WALKING_MONSTER \<equiv> CHR ''M''"
abbreviation (input) GROUND_MONSTER :: char where "GROUND_MONSTER \<equiv> CHR ''G''"

abbreviation (input) LADDER_MIXRATE_Y :: real where "LADDER_MIXRATE_Y \<equiv> 4 / 10"
abbreviation (input) LADDER_MIXRATE_X :: real where "LADDER_MIXRATE_X \<equiv> 1 / 10"
abbreviation (input) LADDER_V :: real where "LADDER_V \<equiv> 4 / 10"
abbreviation (input) MONSTER_SPEED :: real where "MONSTER_SPEED \<equiv> 5 / 100"
abbreviation (input) MONSTER_MIXRATE :: real where "MONSTER_MIXRATE \<equiv> 5 / 100"
abbreviation (input) GRAVITY :: real where "GRAVITY \<equiv> 8 / 100"
abbreviation (input) MAX_JUMP :: real where "MAX_JUMP \<equiv> 9 / 10"
abbreviation (input) MAX_SPEED :: real where "MAX_SPEED \<equiv> 2 / 10"
abbreviation (input) MIX_RATE :: real where "MIX_RATE \<equiv> 1 / 10"

abbreviation (input) DEATH_ANIM_LENGTH :: int where "DEATH_ANIM_LENGTH \<equiv> 30"
abbreviation (input) FINISHED_LEVEL_ANIM_LENGTH :: int where "FINISHED_LEVEL_ANIM_LENGTH \<equiv> 20"
abbreviation (input) MONSTER_DEATH_ANIM_LENGTH :: int where "MONSTER_DEATH_ANIM_LENGTH \<equiv> 2"
abbreviation (input) MONSTER_TRAIL :: nat where "MONSTER_TRAIL \<equiv> 14"

text \<open>The tunables that \<^verbatim>\<open>initialize_args\<close> writes into global variables.\<close>

record Config =
  AIR_CONTROL :: real
  BUMP_HEAD_PENALTY :: real
  DIE_PENALTY :: real
  KILL_MONSTER_REWARD :: real
  JUMP_PENALTY :: real
  SQUAT_PENALTY :: real
  JITTER_SQUAT_PENALTY :: real
  USE_LEVEL_SET :: bool
  NUM_LEVELS :: int
  LEVEL_SEEDS :: "int list"
  LEVEL_TIMEOUT :: int

text \<open>The values the globals have before \<^verbatim>\<open>initialize_args\<close> is called.\<close>

definition default_config :: Config where
  "default_config = \<lparr> AIR_CONTROL = 15 / 100, BUMP_HEAD_PENALTY = 0, DIE_PENALTY = 0,
     KILL_MONSTER_REWARD = 5, JUMP_PENALTY = 0, SQUAT_PENALTY = 0, JITTER_SQUAT_PENALTY = 0,
     USE_LEVEL_SET = False, NUM_LEVELS = 0, LEVEL_SEEDS = [], LEVEL_TIMEOUT = 1000 \<rparr>"

definition is_crat :: "char \<Rightarrow> bool" where
  "is_crat c \<longleftrightarrow> c = CHR ''#'' \<or> c = CHR ''$'' \<or> c = CHR ''&'' \<or> c = CHR ''%''"

definition is_wall :: "char \<Rightarrow> bool \<Rightarrow> bool" where
  "is_wall c crate_counts \<longleftrightarrow>
     (c = CHR ''S'' \<or> c = CHR ''A'' \<or> c = CHR ''a'' \<or> c = CHR ''b'' \<or> c = CHR ''a'')
     \<or> (crate_counts \<and> is_crat c)"

definition is_lethal :: "char \<Rightarrow> bool" where
  "is_lethal c \<longleftrightarrow> c = LAVA_SURFACE \<or> c = LAVA_MIDDLE \<or> c = SPIKE_OBJ"

definition is_coin :: "char \<Rightarrow> bool" where
  "is_coin c \<longleftrightarrow> c = COIN_OBJ1"

definition is_gem :: "char \<Rightarrow> bool" where
  "is_gem c \<longleftrightarrow> c = COIN_OBJ2"

definition c_int :: "real \<Rightarrow> int" where
  "c_int r = (if 0 \<le> r then \<lfloor>r\<rfloor> else \<lceil>r\<rceil>)"

definition sign :: "real \<Rightarrow> real" where
  "sign v = (if v > 0 then 1 else if v = 0 then 0 else -1)"

definition clip_abs :: "real \<Rightarrow> real \<Rightarrow> real" where
  "clip_abs v b = (if v > b then b else if v < - b then - b else v)"

subsection \<open>Monster and Maze\<close>

record Monster =
  mon_x :: real
  mon_y :: real
  prev_x :: "real list"
  prev_y :: "real list"
  mon_vx :: real
  mon_vy :: real
  is_flying :: bool
  is_walking :: bool
  is_dead :: bool
  monster_dying_frame_cnt :: int
  mon_theme_n :: int
  pause :: int

text \<open>
  \<open>maze_strict\<close> is not a field of the C++ class. The code computes the array index
  \<^verbatim>\<open>w*y + x\<close> without looking at \<open>x\<close> and \<open>y\<close>; an access is undefined only when that index
  leaves the array. With \<open>maze_strict\<close> set, the model also refuses every access whose
  coordinates leave \<open>[0,w) \<times> [0,h)\<close>, which is what the statements about grid bounds
  are measured against.
\<close>

record Maze =
  spawnpos :: "int \<times> int"
  maze_w :: int
  maze_h :: int
  walls :: "char list"
  coins :: int
  is_terminated :: bool
  is_new_level :: bool
  maze_gravity :: real
  maze_max_jump :: real
  maze_air_control :: real
  max_dy :: real
  max_dx :: real
  default_zoom :: real
  maze_max_speed :: real
  maze_mix_rate :: real
  monsters :: "Monster list"
  maze_strict :: bool

definition in_array :: "Maze \<Rightarrow> int \<Rightarrow> int \<Rightarrow> bool" where
  "in_array m x y \<longleftrightarrow> 0 \<le> maze_w m * y + x \<and> maze_w m * y + x < int (length (walls m))"

definition in_grid :: "Maze \<Rightarrow> int \<Rightarrow> int \<Rightarrow> bool" where
  "in_grid m x y \<longleftrightarrow> 0 \<le> x \<and> x < maze_w m \<and> 0 \<le> y \<and> y < maze_h m"

definition may_access :: "Maze \<Rightarrow> int \<Rightarrow> int \<Rightarrow> bool" where
  "may_access m x y \<longleftrightarrow> in_array m x y \<and> (if maze_strict m then in_grid m x y else True)"

definition get_elem :: "Maze \<Rightarrow> int \<Rightarrow> int \<Rightarrow> char option" where
  "get_elem m x y =
     (if may_access m x y then Some (walls m ! nat (maze_w m * y + x)) else None)"

definition set_elem :: "Maze \<Rightarrow> int \<Rightarrow> int \<Rightarrow> char \<Rightarrow> Maze option" where
  "set_elem m x y val =
     (if may_access m x y then Some (m\<lparr>walls := (walls m)[nat (maze_w m * y + x) := val]\<rparr>)
      else None)"

text \<open>
  \<^verbatim>\<open>has_vertical_space\<close>: the operands of \<^verbatim>\<open>||\<close> are read left to right and the
  evaluation stops at the first that holds.
\<close>

definition has_vertical_space :: "Maze \<Rightarrow> real \<Rightarrow> real \<Rightarrow> bool \<Rightarrow> bool option" where
  "has_vertical_space m x y crate_counts =
     do { c1 \<leftarrow> get_elem m (c_int (x + 1 / 10)) (c_int y);
          if is_wall c1 False then Some False
          else do {
            c2 \<leftarrow> get_elem m (c_int (x + 9 / 10)) (c_int y);
            if is_wall c2 False then Some False
            else if crate_counts \<and> is_crat c1 then Some False
            else if crate_counts \<and> is_crat c2 then Some False
            else Some True } }"

subsection \<open>Agent\<close>

record Agent =
  agent_theme_n :: int
  agent_x :: real
  agent_y :: real
  agent_vx :: real
  agent_vy :: real
  spring :: real
  agent_game_over :: bool
  reward :: real
  reward_sum :: real
  is_facing_right :: bool
  ladder_mode :: bool
  action_dx :: int
  action_dy :: int
  time_alive :: int
  is_killed :: bool
  is_preparing_to_jump :: bool
  killed_monster :: bool
  bumped_head :: bool
  killed_animation_frame_cnt :: int
  finished_level_frame_cnt :: int
  power_up_mode :: bool
  collected_coin :: bool
  collected_gem :: bool
  collect_data :: bool
  support :: bool

text \<open>
  \<^verbatim>\<open>Agent::eat_coin\<close>. The agent holds a shared pointer to the maze, so the method
  works on the pair of both. The three \<^verbatim>\<open>if\<close> statements follow one another; a tile
  code satisfies at most one of them.
\<close>

definition eat_coin :: "Agent \<times> Maze \<Rightarrow> int \<Rightarrow> int \<Rightarrow> (Agent \<times> Maze) option" where
  "eat_coin am x y =
     (case am of (a, m) \<Rightarrow>
      do { obj \<leftarrow> get_elem m x y;
           (a, m) \<leftarrow> Some (if is_lethal obj
                      then (a\<lparr>is_killed := True, killed_animation_frame_cnt := DEATH_ANIM_LENGTH\<rparr>,
                            m\<lparr>is_terminated := True\<rparr>)
                      else (a, m));
           (a, m) \<leftarrow> (if is_coin obj then
                        do { m \<leftarrow> set_elem m x y SPACE;
                             let m = m\<lparr>coins := coins m - 1\<rparr>;
                             let a = a\<lparr>collected_coin := True\<rparr>;
                             let a = (if power_up_mode a then a\<lparr>power_up_mode := False\<rparr> else a);
                             if coins m = 0
                             then Some (a\<lparr>reward := reward a + 10, reward_sum := reward_sum a + 10,
                                          finished_level_frame_cnt := FINISHED_LEVEL_ANIM_LENGTH\<rparr>,
                                        m\<lparr>is_terminated := True\<rparr>)
                             else Some (a\<lparr>reward := reward a + 1, reward_sum := reward_sum a + 1\<rparr>, m) }
                      else Some (a, m));
           (if is_gem obj then
              do { m \<leftarrow> set_elem m x y SPACE;
                   Some (a\<lparr>reward := reward a + 1, reward_sum := reward_sum a + 1,
                           power_up_mode := True, collected_gem := True\<rparr>, m) }
            else Some (a, m)) })"


subsection \<open>RandGen\<close>

text \<open>
  \<^verbatim>\<open>std::mt19937\<close> is a library engine. Its state is modelled by the sequence of 32-bit
  values it will return from now on: a call returns the head and leaves the tail.
  \<^verbatim>\<open>assert(is_seeded)\<close> failing is \<open>None\<close>.
\<close>

record RandGen =
  is_seeded :: bool
  stdgen :: "nat \<Rightarrow> 32 word"

definition stdgen_call :: "RandGen \<Rightarrow> (32 word \<times> RandGen) option" where
  "stdgen_call g =
     (if is_seeded g then Some (stdgen g 0, g\<lparr>stdgen := (\<lambda>i. stdgen g (Suc i))\<rparr>) else None)"

text \<open>
  \<^verbatim>\<open>randint(low, high)\<close>: \<^verbatim>\<open>uint32_t range = high - low; return low + (x % range);\<close>.
  A zero range is a division by zero.
\<close>

definition randint :: "RandGen \<Rightarrow> int \<Rightarrow> int \<Rightarrow> (int \<times> RandGen) option" where
  "randint g low high =
     do { (x, g) \<leftarrow> stdgen_call g;
          let range = (word_of_int (high - low) :: 32 word);
          if range = 0 then None
          else Some (sint (word_of_int low + x mod range), g) }"

definition rand01 :: "RandGen \<Rightarrow> (real \<times> RandGen) option" where
  "rand01 g = do { (x, g) \<leftarrow> stdgen_call g; Some (real (unat x) / 2 ^ 32, g) }"


definition seed :: "(int \<Rightarrow> nat \<Rightarrow> 32 word) \<Rightarrow> RandGen \<Rightarrow> int \<Rightarrow> RandGen" where
  "seed mt g s = g\<lparr>stdgen := mt s, is_seeded := True\<rparr>"

subsection \<open>Enemy themes\<close>

record EnemyTheme =
  can_be_killed :: bool
  monster_max_speed :: real
  is_jumping_monster :: bool
  max_pause_time :: int
  max_jump_height :: real

definition ground_monsters :: "string list" where
  "ground_monsters = [''sawHalf'', ''barnacle'']"

definition flying_monsters :: "string list" where
  "flying_monsters = [''bee'']"

definition walking_monsters :: "string list" where
  "walking_monsters =
     [''slimeBlock'', ''slimeBlue'', ''mouse'', ''snail'', ''ladybug'', ''wormPink'', ''frog'']"

text \<open>One round of the loop of \<^verbatim>\<open>load_enemy_themes\<close>, without the images.\<close>

definition load_enemy_theme :: "string \<Rightarrow> EnemyTheme" where
  "load_enemy_theme theme =
     (let e1 = \<lparr> can_be_killed = False, monster_max_speed = MONSTER_SPEED,
                  is_jumping_monster = False, max_pause_time = 0, max_jump_height = 0 \<rparr>;
          e1 = (if theme = ''snail'' then e1\<lparr>monster_max_speed := MONSTER_SPEED * (4 / 10)\<rparr>
                else if theme = ''ladybug''
                  then e1\<lparr>monster_max_speed := MONSTER_SPEED * (18 / 10), is_jumping_monster := True,
                          max_pause_time := 15, max_jump_height := 8 / 100\<rparr>
                else if theme = ''wormPink'' then e1\<lparr>monster_max_speed := MONSTER_SPEED * (6 / 10)\<rparr>
                else if theme = ''slimeBlock'' then e1\<lparr>monster_max_speed := MONSTER_SPEED * 1\<rparr>
                else if theme = ''slimeBlue'' then e1\<lparr>monster_max_speed := MONSTER_SPEED * 1\<rparr>
                else if theme = ''mouse'' then e1\<lparr>monster_max_speed := MONSTER_SPEED * 2\<rparr>
                else if theme = ''barnacle'' then e1
                else if theme = ''frog''
                  then e1\<lparr>is_jumping_monster := True, monster_max_speed := MONSTER_SPEED * 2,
                          max_pause_time := 60, max_jump_height := 2 / 10\<rparr>
                else e1)
      in e1\<lparr>can_be_killed := (theme = ''slimeBlock'' \<or> theme = ''snail'' \<or> theme = ''wormPink'')\<rparr>)"

text \<open>
  The tables as \<^verbatim>\<open>images_load\<close> fills them: ground, walking, then flying monsters.
\<close>

definition enemy_themel :: "EnemyTheme list" where
  "enemy_themel = map load_enemy_theme (ground_monsters @ walking_monsters @ flying_monsters)"

definition ground_theme_idxs :: "int list" where
  "ground_theme_idxs = [0, 1]"

definition walking_theme_idxs :: "int list" where
  "walking_theme_idxs = [2, 3, 4, 5, 6, 7, 8]"

definition flying_theme_idxs :: "int list" where
  "flying_theme_idxs = [9]"


text \<open>Reading a \<^verbatim>\<open>std::vector\<close> or an array at an index: outside its range is \<open>None\<close>.\<close>

definition at_index :: "'a list \<Rightarrow> int \<Rightarrow> 'a option" where
  "at_index xs i = (if 0 \<le> i \<and> i < int (length xs) then Some (xs ! nat i) else None)"

subsection \<open>RandomMazeGenerator\<close>

text \<open>
  \<^verbatim>\<open>Maze(w, h)\<close> allocates \<^verbatim>\<open>new int[w*h]\<close> and initialises nothing else than the two
  sizes, the terminated flag, the coin counter and \<^verbatim>\<open>is_new_level\<close>. \<open>junk\<close> gives
  whatever the cells of the fresh array hold and \<open>old\<close> the remaining, uninitialised
  members (\<^verbatim>\<open>monsters\<close> is an empty vector).
\<close>

definition new_Maze :: "Maze \<Rightarrow> (nat \<Rightarrow> char) \<Rightarrow> int \<Rightarrow> int \<Rightarrow> Maze" where
  "new_Maze old junk wd ht =
     old\<lparr>maze_w := wd, maze_h := ht, walls := map junk [0..<nat (wd * ht)],
         is_terminated := False, coins := 0, is_new_level := True, monsters := []\<rparr>"

definition init_physics :: "Config \<Rightarrow> Maze \<Rightarrow> Maze" where
  "init_physics cfg m =
     m\<lparr>default_zoom := 55 / 10, maze_gravity := GRAVITY, maze_air_control := AIR_CONTROL cfg,
       maze_max_jump := MAX_JUMP, maze_max_speed := MAX_SPEED, maze_mix_rate := MIX_RATE,
       max_dy := MAX_JUMP * MAX_JUMP / (2 * GRAVITY),
       max_dx := MAX_SPEED * 2 * MAX_JUMP / GRAVITY\<rparr>"

fun set_elems :: "Maze \<Rightarrow> (int \<times> int) list \<Rightarrow> char \<Rightarrow> Maze option" where
  "set_elems m [] elem = Some m"
| "set_elems m ((x, y) # ps) elem = do { m \<leftarrow> set_elem m x y elem; set_elems m ps elem }"

text \<open>\<^verbatim>\<open>fill_elem\<close>: \<open>j\<close> runs over the columns, and for each \<open>j\<close>, \<open>k\<close> over the rows.\<close>

definition fill_elem :: "Maze \<Rightarrow> int \<Rightarrow> int \<Rightarrow> int \<Rightarrow> int \<Rightarrow> char \<Rightarrow> Maze option" where
  "fill_elem m x y dx dy elem =
     set_elems m (concat (map (\<lambda>j. map (\<lambda>k. (x + j, y + k)) [0..dy - 1]) [0..dx - 1])) elem"

type_synonym Rec = "int \<times> int"

record RandomMazeGenerator =
  rec_stack :: "Rec list"
  gen_maze :: Maze
  rand_gen :: RandGen

definition initial_floor_and_walls ::
  "Config \<Rightarrow> RandomMazeGenerator \<Rightarrow> RandomMazeGenerator option" where
  "initial_floor_and_walls cfg gs =
     do { let m = gen_maze gs;
          m \<leftarrow> fill_elem m 0 0 (maze_w m) (maze_h m) SPACE;
          m \<leftarrow> fill_elem m 0 0 (maze_w m) 1 WALL_SURFACE;
          m \<leftarrow> fill_elem m 0 0 1 (maze_h m) WALL_MIDDLE;
          m \<leftarrow> fill_elem m (maze_w m - 1) 0 1 (maze_h m) WALL_MIDDLE;
          m \<leftarrow> fill_elem m 0 (maze_h m - 1) (maze_w m) 1 WALL_MIDDLE;
          Some (gs\<lparr>gen_maze := init_physics cfg m\<rparr>) }"

definition randn :: "RandomMazeGenerator \<Rightarrow> int \<Rightarrow> (int \<times> RandomMazeGenerator) option" where
  "randn gs n = do { (v, g) \<leftarrow> randint (rand_gen gs) 0 n; Some (v, gs\<lparr>rand_gen := g\<rparr>) }"

definition gen_rand01 :: "RandomMazeGenerator \<Rightarrow> (real \<times> RandomMazeGenerator) option" where
  "gen_rand01 gs = do { (v, g) \<leftarrow> rand01 (rand_gen gs); Some (v, gs\<lparr>rand_gen := g\<rparr>) }"

definition choose_crate :: char where
  "choose_crate = CHR ''#''"

text \<open>\<^verbatim>\<open>int(sqrt(k))\<close> for \<open>k \<ge> 0\<close>: the largest \<open>r\<close> with \<open>r * r \<le> k\<close>.\<close>

fun sqrt_down :: "nat \<Rightarrow> nat \<Rightarrow> nat" where
  "sqrt_down k 0 = 0"
| "sqrt_down k (Suc r) = (if Suc r * Suc r \<le> k then Suc r else sqrt_down k r)"

definition int_sqrt :: "int \<Rightarrow> int" where
  "int_sqrt k = int (sqrt_down (nat k) (nat k))"

text \<open>The remainder of C++ (\<^verbatim>\<open>%\<close> on \<^verbatim>\<open>int\<close>), which takes the sign of the dividend.\<close>

definition c_rem :: "int \<Rightarrow> int \<Rightarrow> int" where
  "c_rem a b = sgn a * (\<bar>a\<bar> mod \<bar>b\<bar>)"

text \<open>
  The ballistic arc of \<^verbatim>\<open>jump_and_build_platform_somewhere\<close>; the first argument counts
  the steps still to do. The result carries \<open>False\<close> where the code leaves by
  \<^verbatim>\<open>return false\<close>; the cells carved before stay carved.
\<close>

fun arc_loop ::
  "nat \<Rightarrow> real \<Rightarrow> real \<Rightarrow> real \<Rightarrow> real \<Rightarrow> int \<Rightarrow> int \<Rightarrow> Maze \<Rightarrow> (bool \<times> int \<times> int \<times> Maze) option" where
  "arc_loop 0 vx vy x y ix iy m = Some (True, ix, iy, m)"
| "arc_loop (Suc s) vx vy x y ix iy m =
     (let vy = vy - GRAVITY; x = x + vx; y = y + vy in
      if ix \<noteq> c_int x \<or> iy \<noteq> c_int y then
        (let ix = c_int x; iy = c_int y in
         if ix < 1 \<or> ix \<ge> maze_w m - 1 \<or> iy < 1 \<or> iy \<ge> maze_h m - 2 then Some (False, ix, iy, m)
         else do { c \<leftarrow> get_elem m ix iy;
                   if c \<noteq> SPACE \<and> c \<noteq> CHR '' '' then Some (False, ix, iy, m)
                   else do { m \<leftarrow> set_elem m ix iy (CHR '' '');
                             arc_loop s vx vy x y ix iy m } })
      else arc_loop s vx vy x y ix iy m)"

text \<open>
  The ladder shaft: the three cells are read in every round (\<^verbatim>\<open>ouch |= ...\<close> does not
  short-circuit); nothing is written before the loop has ended.
\<close>

fun ladder_loop ::
  "nat \<Rightarrow> Maze \<Rightarrow> int \<Rightarrow> int \<Rightarrow> Rec list \<Rightarrow> (bool \<times> int \<times> Rec list) option" where
  "ladder_loop 0 m ix iy future_ladder = Some (True, iy, future_ladder)"
| "ladder_loop (Suc s) m ix iy future_ladder =
     (let future_ladder = future_ladder @ [(ix, iy)]; iy = iy + 1 in
      do { c \<leftarrow> get_elem m ix iy;
           cl \<leftarrow> get_elem m (ix - 1) iy;
           cr \<leftarrow> get_elem m (ix + 1) iy;
           if iy \<ge> maze_h m - 3 \<or> c \<noteq> SPACE \<or> cl = LADDER \<or> cr = LADDER
           then Some (False, iy, future_ladder)
           else ladder_loop s m ix iy future_ladder })"

text \<open>
  The platform loop; the first argument counts the rounds still to do, so that
  \<open>platform = len - k\<close>. The state is the maze, the anchor stack, the crate list and
  the monster candidates; \<^verbatim>\<open>break\<close> ends the recursion.
\<close>

fun platform_loop ::
  "nat \<Rightarrow> int \<Rightarrow> real \<Rightarrow> int \<Rightarrow> int \<Rightarrow> int \<Rightarrow> Maze \<times> Rec list \<times> Rec list \<times> Rec list
   \<Rightarrow> (Maze \<times> Rec list \<times> Rec list \<times> Rec list) option" where
  "platform_loop 0 len vx crates_shift iy ix st = Some st"
| "platform_loop (Suc k) len vx crates_shift iy ix (m, rs, crates, monster_candidates) =
     (let platform = len - (int k + 1);
          ix = ix + (if vx > 0 then 1 else -1) in
      do { c \<leftarrow> get_elem m ix iy;
           if c = CHR '' '' \<or> c = SPACE then
             do { m \<leftarrow> set_elem m ix iy
                         (if platform < len - 1 then WALL_SURFACE
                          else (if vx > 0 then CHR ''b'' else CHR ''a''));
                  let rs = rs @ [(ix, iy + 1)];
                  if c_rem (c_int (real_of_int ix * (2 / 10) + real_of_int iy + real_of_int crates_shift)) 4 = 0
                  then platform_loop k len vx crates_shift iy ix
                         (m, rs, crates @ [(ix, iy + 1)], monster_candidates)
                  else if platform > 0 \<and> platform < len - 1
                  then platform_loop k len vx crates_shift iy ix
                         (m, rs, crates, monster_candidates @ [(ix, iy + 1)])
                  else platform_loop k len vx crates_shift iy ix (m, rs, crates, monster_candidates) }
           else if c = CHR ''a'' \<or> c = CHR ''b'' then
             do { m \<leftarrow> set_elem m ix iy WALL_SURFACE; Some (m, rs, crates, monster_candidates) }
           else Some (m, rs, crates, monster_candidates) })"

text \<open>
  One pass of the \<^verbatim>\<open>for\<close> loop over the crates: a crate either grows (and stays, one
  row higher) or is erased. \<^verbatim>\<open>randn(4)\<close> is the left operand of \<^verbatim>\<open>&&\<close> and always drawn.
\<close>

fun crates_pass ::
  "Rec list \<Rightarrow> RandomMazeGenerator \<Rightarrow> (Rec list \<times> RandomMazeGenerator) option" where
  "crates_pass [] gs = Some ([], gs)"
| "crates_pass ((x, y) # cs) gs =
     do { let m = gen_maze gs;
          wc \<leftarrow> get_elem m x y;
          wl \<leftarrow> get_elem m (x - 1) y;
          wr \<leftarrow> get_elem m (x + 1) y;
          wu \<leftarrow> get_elem m x (y + 1);
          let want = 2 + (if is_crat wl then 1 else 0) + (if is_crat wr then 1 else 0)
                       - (if wr = LADDER then 1 else 0) - (if wl = LADDER then 1 else 0)
                       - (if is_wall wu False then (1::int) else 0);
          (v, gs) \<leftarrow> randn gs 4;
          if v < want \<and> y < maze_h m - 2 then
            do { m \<leftarrow> (if wc = CHR '' '' \<or> wc = SPACE then set_elem m x y choose_crate else Some m);
                 let gs = gs\<lparr>gen_maze := m, rec_stack := rec_stack gs @ [(x, y + 1)]\<rparr>;
                 (cs, gs) \<leftarrow> crates_pass cs gs;
                 Some ((x, y + 1) # cs, gs) }
          else crates_pass cs gs }"

text \<open>
  The \<^verbatim>\<open>while (1)\<close> loop around the passes ends when no crate is left. Each pass
  erases a crate or moves it one row up, and a crate at row \<open>h - 2\<close> or above is
  erased; the weight below therefore decreases with every pass.
\<close>

definition crate_weight :: "int \<Rightarrow> Rec list \<Rightarrow> nat" where
  "crate_weight ht cs = (\<Sum>c\<leftarrow>cs. 1 + nat (ht - 1 - snd c))"

lemma randn_gen_maze: "randn gs n = Some (v, gs') \<Longrightarrow> gen_maze gs' = gen_maze gs"
  by (auto simp: randn_def split: Option.bind_splits)

lemma set_elem_maze_h: "set_elem m x y c = Some m' \<Longrightarrow> maze_h m' = maze_h m"
  by (auto simp: set_elem_def split: if_splits)

lemma crates_pass_weight:
  "crates_pass cs gs = Some (cs', gs') \<Longrightarrow>
     maze_h (gen_maze gs') = maze_h (gen_maze gs) \<and>
     crate_weight (maze_h (gen_maze gs)) cs' \<le> crate_weight (maze_h (gen_maze gs)) cs \<and>
     (cs \<noteq> [] \<longrightarrow> crate_weight (maze_h (gen_maze gs)) cs' < crate_weight (maze_h (gen_maze gs)) cs)"
proof (induction cs arbitrary: gs cs' gs')
  case Nil
  then show ?case by (simp add: crate_weight_def)
next
  case (Cons c cs)
  obtain x y where c: "c = (x, y)" by (cases c)
  from Cons.prems obtain v gs1 where r: "randn gs 4 = Some (v, gs1)"
    by (auto simp: c Let_def split: Option.bind_splits)
  have m1: "gen_maze gs1 = gen_maze gs" using r by (rule randn_gen_maze)
  let ?h = "maze_h (gen_maze gs)"
  show ?case
  proof (cases "v < 2 + (if is_crat (the (get_elem (gen_maze gs) (x - 1) y)) then 1 else 0)
                    + (if is_crat (the (get_elem (gen_maze gs) (x + 1) y)) then 1 else 0)
                    - (if the (get_elem (gen_maze gs) (x + 1) y) = LADDER then 1 else 0)
                    - (if the (get_elem (gen_maze gs) (x - 1) y) = LADDER then 1 else 0)
                    - (if is_wall (the (get_elem (gen_maze gs) x (y + 1))) False then (1::int) else 0)
                  \<and> y < ?h - 2")
    case True
    with Cons.prems r obtain m2 cs2 where
      m2: "maze_h m2 = ?h" and
      rec: "crates_pass cs (gs1\<lparr>gen_maze := m2, rec_stack := rec_stack gs1 @ [(x, y + 1)]\<rparr>) = Some (cs2, gs')"
      and cs': "cs' = (x, y + 1) # cs2"
      by (auto simp: c Let_def m1 split: Option.bind_splits if_splits dest: set_elem_maze_h)
    from Cons.IH[OF rec] m2 have
      "maze_h (gen_maze gs') = ?h" "crate_weight ?h cs2 \<le> crate_weight ?h cs"
      by simp_all
    moreover have "nat (?h - 1 - (y + 1)) < nat (?h - 1 - y)"
      using True by linarith
    moreover have "crate_weight ?h cs' = 1 + nat (?h - 1 - (y + 1)) + crate_weight ?h cs2"
      by (simp add: cs' crate_weight_def)
    moreover have "crate_weight ?h (c # cs) = 1 + nat (?h - 1 - y) + crate_weight ?h cs"
      by (simp add: c crate_weight_def)
    ultimately show ?thesis
      by linarith
  next
    case False
    with Cons.prems r have rec: "crates_pass cs gs1 = Some (cs', gs')"
      by (auto simp: c Let_def m1 split: Option.bind_splits if_splits)
    have "crate_weight ?h (c # cs) = 1 + nat (?h - 1 - y) + crate_weight ?h cs"
      by (simp add: c crate_weight_def)
    with Cons.IH[OF rec] m1 show ?thesis
      by simp
  qed
qed

function crates_loop :: "Rec list \<Rightarrow> RandomMazeGenerator \<Rightarrow> RandomMazeGenerator option" where
  "crates_loop crates gs =
     (if crates = [] then Some gs
      else do { (crates', gs') \<leftarrow> crates_pass crates gs; crates_loop crates' gs' })"
  by pat_completeness auto
termination
  apply (relation "measure (\<lambda>(cs, gs). crate_weight (maze_h (gen_maze gs)) cs)")
   apply simp
  apply (auto dest!: crates_pass_weight)
  done

declare crates_loop.simps [simp del]


definition erase_at :: "'a list \<Rightarrow> nat \<Rightarrow> 'a list" where
  "erase_at xs n = take n xs @ drop (Suc n) xs"

text \<open>The branch \<^verbatim>\<open>randn(2)==1\<close>: a jump along a ballistic arc.\<close>

definition jump_branch ::
  "RandomMazeGenerator \<Rightarrow> Rec \<Rightarrow> real \<Rightarrow> real \<Rightarrow> int
   \<Rightarrow> (bool \<times> int \<times> int \<times> RandomMazeGenerator) option" where
  "jump_branch gs r vx vy jump_top =
     do { (v, gs) \<leftarrow> randn gs (jump_top div 2);
          let steps = jump_top + v;
          let x = real_of_int (fst r);
          let y = real_of_int (snd r + 1);
          (ok, ix, iy, m) \<leftarrow> arc_loop (nat steps) vx vy x y (-1) (-1) (gen_maze gs);
          Some (ok, ix, iy, gs\<lparr>gen_maze := m\<rparr>) }"

text \<open>The other branch: a ladder that starts at the anchor, which leaves the stack.\<close>

definition ladder_branch ::
  "RandomMazeGenerator \<Rightarrow> Rec \<Rightarrow> nat
   \<Rightarrow> (bool \<times> int \<times> int \<times> RandomMazeGenerator) option" where
  "ladder_branch gs r n =
     (let ix = fst r; iy = snd r; m = gen_maze gs in
      if iy \<ge> maze_h m - 3 then Some (False, ix, iy, gs)
      else do {
        c \<leftarrow> get_elem m ix iy;
        on_crate \<leftarrow> (if is_crat c then Some True
                     else do { c' \<leftarrow> get_elem m ix (iy - 1); Some (is_crat c') });
        if on_crate then Some (False, ix, iy, gs)
        else do {
          let gs = gs\<lparr>rec_stack := erase_at (rec_stack gs) n\<rparr>;
          (v, gs) \<leftarrow> randn gs 10;
          let ladder_len = 5 + v;
          (ok, iy, future_ladder) \<leftarrow> ladder_loop (nat ladder_len) m ix iy [];
          if \<not> ok then Some (False, ix, iy, gs)
          else do {
            m \<leftarrow> set_elems m future_ladder LADDER;
            m \<leftarrow> set_elem m ix iy LADDER;
            Some (True, ix, iy, gs\<lparr>gen_maze := m\<rparr>) } } })"

text \<open>
  The rest of the attempt, from \<^verbatim>\<open>char c = maze->get_elem(ix, iy)\<close> on: the platform,
  the monster marker and the crates.
\<close>

definition build_platform ::
  "RandomMazeGenerator \<Rightarrow> real \<Rightarrow> int \<Rightarrow> int \<Rightarrow> (bool \<times> RandomMazeGenerator) option" where
  "build_platform gs vx ix iy =
     do { c \<leftarrow> get_elem (gen_maze gs) ix iy;
          if iy \<ge> maze_h (gen_maze gs) - 3 then Some (False, gs)
          else do {
            m \<leftarrow> (if c = SPACE \<or> c = CHR '' ''
                  then set_elem (gen_maze gs) ix iy (if vx > 0 then CHR ''a'' else CHR ''b'')
                  else Some (gen_maze gs));
            (v, gs) \<leftarrow> randn gs 10;
            let len = 2 + v;
            (crates_shift, gs) \<leftarrow> randn gs 20;
            (m, rs, crates, monster_candidates) \<leftarrow>
               platform_loop (nat len) len vx crates_shift iy ix (m, rec_stack gs, [], []);
            let gs = gs\<lparr>gen_maze := m, rec_stack := rs\<rparr>;
            gs \<leftarrow> (if length monster_candidates > 1 then
                    do { (i, gs) \<leftarrow> randn gs (int (length monster_candidates));
                         r \<leftarrow> at_index monster_candidates i;
                         (v, gs) \<leftarrow> randn gs 10;
                         let should_be_ground_monster = (v \<ge> 8);
                         m \<leftarrow> set_elem (gen_maze gs) (fst r) (snd r)
                               (if should_be_ground_monster then GROUND_MONSTER else WALKING_MONSTER);
                         Some (gs\<lparr>gen_maze := m\<rparr>) }
                  else Some gs);
            gs \<leftarrow> crates_loop crates gs;
            Some (True, gs) } }"

text \<open>
  \<^verbatim>\<open>jump_and_build_platform_somewhere\<close>. \<^verbatim>\<open>assert(n < (int)rec_stack.size())\<close> failing
  is \<open>None\<close>, as is the square root of a negative number. The local \<^verbatim>\<open>top\<close> (here
  \<open>jump_top\<close>) is positive, so \<^verbatim>\<open>top/2\<close> is \<open>jump_top div 2\<close>.
\<close>

definition jump_and_build_platform_somewhere ::
  "RandomMazeGenerator \<Rightarrow> (bool \<times> RandomMazeGenerator) option" where
  "jump_and_build_platform_somewhere gs =
     (if rec_stack gs = [] then Some (False, gs)
      else do {
        let sz = int (length (rec_stack gs));
        (k, gs) \<leftarrow> randn gs (sz * sz);
        n \<leftarrow> (if 0 \<le> k \<and> int_sqrt k < sz then Some (int_sqrt k) else None);
        r \<leftarrow> at_index (rec_stack gs) n;
        (u, gs) \<leftarrow> gen_rand01 gs;
        let vx = (u * 2 - 1) * (5 / 10) * MAX_SPEED;
        (u, gs) \<leftarrow> gen_rand01 gs;
        let vy = (8 / 10 + (2 / 10) * u) * MAX_JUMP;
        let jump_top = 1 + c_int (vy / GRAVITY);
        (b, gs) \<leftarrow> randn gs 2;
        (ok, ix, iy, gs) \<leftarrow> (if b = 1 then jump_branch gs r vx vy jump_top
                             else ladder_branch gs r (nat n));
        if \<not> ok then Some (False, gs) else build_platform gs vx ix iy })"

text \<open>
  The condition \<^verbatim>\<open>good_place\<close> of \<^verbatim>\<open>place_coins\<close>; \<^verbatim>\<open>&&\<close> stops at the first operand
  that fails, so the neighbours of a cell that is not open are never read.
\<close>

definition open_cell :: "char \<Rightarrow> bool" where
  "open_cell c \<longleftrightarrow> c = SPACE \<or> c = WALKING_MONSTER"

definition good_place :: "Maze \<Rightarrow> int \<Rightarrow> int \<Rightarrow> bool option" where
  "good_place m x y =
     do { c \<leftarrow> get_elem m x y;
          if \<not> open_cell c then Some False
          else if \<not> y > 2 then Some False
          else do {
            cl \<leftarrow> get_elem m (x - 1) y;
            if \<not> open_cell cl then Some False
            else do {
              cr \<leftarrow> get_elem m (x + 1) y;
              if \<not> open_cell cr then Some False
              else do {
                cu \<leftarrow> get_elem m x (y + 1);
                if \<not> open_cell cu then Some False
                else do {
                  bl \<leftarrow> get_elem m (x - 1) (y - 1);
                  if \<not> is_wall bl True then Some False
                  else do {
                    bm \<leftarrow> get_elem m x (y - 1);
                    if \<not> is_wall bm True then Some False
                    else do {
                      br \<leftarrow> get_elem m (x + 1) (y - 1);
                      Some (is_wall br True) } } } } } } }"

text \<open>
  The loop of \<^verbatim>\<open>place_coins\<close> over the anchors in the order they are popped (the list is
  the stack reversed); the second argument is the local counter \<^verbatim>\<open>coins\<close>.
\<close>

fun place_coins_loop ::
  "Rec list \<Rightarrow> int \<Rightarrow> RandomMazeGenerator \<Rightarrow> (int \<times> RandomMazeGenerator) option" where
  "place_coins_loop [] n gs = Some (n, gs)"
| "place_coins_loop ((x, y) # rs) n gs =
     do { good \<leftarrow> good_place (gen_maze gs) x y;
          if good then
            do { (v, gs) \<leftarrow> randn gs 10;
                 m \<leftarrow> set_elem (gen_maze gs) x y (if v \<ge> 9 then COIN_OBJ2 else COIN_OBJ1);
                 place_coins_loop rs (n + 1) (gs\<lparr>gen_maze := m\<rparr>) }
          else place_coins_loop rs n gs }"

definition place_coins :: "RandomMazeGenerator \<Rightarrow> RandomMazeGenerator option" where
  "place_coins gs =
     do { (n, gs) \<leftarrow> place_coins_loop (rev (rec_stack gs)) 0 gs;
          Some (gs\<lparr>rec_stack := [], gen_maze := (gen_maze gs)\<lparr>coins := n\<rparr>\<rparr>) }"

definition new_Monster :: "int \<Rightarrow> int \<Rightarrow> char \<Rightarrow> int \<Rightarrow> Monster" where
  "new_Monster x y c theme =
     \<lparr> mon_x = real_of_int x, mon_y = real_of_int y,
       prev_x = replicate MONSTER_TRAIL (real_of_int x),
       prev_y = replicate MONSTER_TRAIL (real_of_int y),
       mon_vx = 1 / 100, mon_vy = 0, is_flying = (c = FLYING_MONSTER),
       is_walking = (c = WALKING_MONSTER), is_dead = False, monster_dying_frame_cnt = 0,
       mon_theme_n = theme, pause = 0 \<rparr>"

text \<open>
  The body of the loops of \<^verbatim>\<open>remove_traces_add_monsters\<close> at the cell \<open>(x, y)\<close>.
  \<^verbatim>\<open>c\<close> and \<^verbatim>\<open>b\<close> are references to the cell and to the cell below it: the local
  \<open>c\<close> follows every write to the cell. \<^verbatim>\<open>cl\<close> and \<^verbatim>\<open>cr\<close> are copies.
\<close>

definition trace_cell :: "RandomMazeGenerator \<Rightarrow> int \<Rightarrow> int \<Rightarrow> RandomMazeGenerator option" where
  "trace_cell gs x y =
     do { c \<leftarrow> get_elem (gen_maze gs) x y;
          b \<leftarrow> get_elem (gen_maze gs) x (y - 1);
          cl \<leftarrow> get_elem (gen_maze gs) (x - 1) y;
          cr \<leftarrow> get_elem (gen_maze gs) (x + 1) y;
          (c, gs) \<leftarrow> (if c = CHR '' '' then
                        do { (v, gs) \<leftarrow> randn gs 20;
                             let c = (if v = 0 \<and> \<not> is_wall b False \<and> y > 2
                                      then FLYING_MONSTER else SPACE);
                             m \<leftarrow> set_elem (gen_maze gs) x y c;
                             Some (c, gs\<lparr>gen_maze := m\<rparr>) }
                      else Some (c, gs));
          (c, gs) \<leftarrow> (if (c = CHR ''a'' \<or> c = CHR ''b'') \<and> is_wall b False then
                        do { m \<leftarrow> set_elem (gen_maze gs) x y (CHR ''S'');
                             Some (CHR ''S'', gs\<lparr>gen_maze := m\<rparr>) }
                      else Some (c, gs));
          (b, gs) \<leftarrow> (if is_wall c False \<and> is_wall b False then
                        do { m \<leftarrow> set_elem (gen_maze gs) x (y - 1) (CHR ''A'');
                             Some (CHR ''A'', gs\<lparr>gen_maze := m\<rparr>) }
                      else Some (b, gs));
          if c = FLYING_MONSTER \<or> c = WALKING_MONSTER \<or> c = GROUND_MONSTER then
            do { let type_theme_idxs =
                       (if c = FLYING_MONSTER then flying_theme_idxs
                        else if c = WALKING_MONSTER then walking_theme_idxs
                        else ground_theme_idxs);
                 (chosen_idx, gs) \<leftarrow> randn gs (int (length type_theme_idxs));
                 theme \<leftarrow> at_index type_theme_idxs chosen_idx;
                 let mo = new_Monster x y c theme;
                 m \<leftarrow> set_elem (gen_maze gs) x y SPACE;
                 let m = (if (\<not> is_walking mo \<or> (\<not> is_wall cl False \<and> \<not> is_wall cr False))
                             \<and> \<not> (\<not> is_flying mo \<and> \<not> is_wall b False)
                          then m\<lparr>monsters := monsters m @ [mo]\<rparr> else m);
                 Some (gs\<lparr>gen_maze := m\<rparr>) }
          else Some gs }"

fun trace_cells :: "RandomMazeGenerator \<Rightarrow> (int \<times> int) list \<Rightarrow> RandomMazeGenerator option" where
  "trace_cells gs [] = Some gs"
| "trace_cells gs ((x, y) # ps) = do { gs \<leftarrow> trace_cell gs x y; trace_cells gs ps }"

definition remove_traces_add_monsters :: "RandomMazeGenerator \<Rightarrow> RandomMazeGenerator option" where
  "remove_traces_add_monsters gs =
     (let m = gen_maze gs in
      trace_cells (gs\<lparr>gen_maze := m\<lparr>monsters := []\<rparr>\<rparr>)
        (concat (map (\<lambda>y. map (\<lambda>x. (x, y)) [1..maze_w m - 2]) [1..maze_h m - 1])))"

text \<open>
  The loop \<^verbatim>\<open>for (int p=0; p<want_platforms*10; p++)\<close>. Its bound is evaluated before
  every round with the current \<^verbatim>\<open>want_platforms\<close>. The function is defined on the
  number of rounds the bound still allows; it returns \<open>p\<close> and \<^verbatim>\<open>want_platforms\<close> as the
  loop leaves them.
\<close>

function platforms_loop ::
  "int \<Rightarrow> int \<Rightarrow> RandomMazeGenerator \<Rightarrow> (int \<times> int \<times> RandomMazeGenerator) option" where
  "platforms_loop p want_platforms gs =
     (if p < want_platforms * 10 then
        do { (success, gs) \<leftarrow> jump_and_build_platform_somewhere gs;
             let want_platforms = (if success then want_platforms - 1 else want_platforms);
             if want_platforms = 0 then Some (p, want_platforms, gs)
             else platforms_loop (p + 1) want_platforms gs }
      else Some (p, want_platforms, gs))"
  by pat_completeness auto
termination
  by (relation "measure (\<lambda>(p, want_platforms, gs). nat (want_platforms * 10 - p))")
     (auto split: if_splits)

declare platforms_loop.simps [simp del]

definition generate_coins_on_platforms :: "RandomMazeGenerator \<Rightarrow> RandomMazeGenerator option" where
  "generate_coins_on_platforms gs =
     do { (v, gs) \<leftarrow> randn gs (maze_w (gen_maze gs) - 2);
          let gs = gs\<lparr>gen_maze := (gen_maze gs)\<lparr>spawnpos := (1 + v, 1)\<rparr>\<rparr>;
          let gs = gs\<lparr>rec_stack := rec_stack gs @ map (\<lambda>x. (x, 1)) [0..maze_w (gen_maze gs) - 1]\<rparr>;
          (p, want_platforms, gs) \<leftarrow> platforms_loop 0 11 gs;
          gs \<leftarrow> place_coins gs;
          remove_traces_add_monsters gs }"

text \<open>
  The part of \<^verbatim>\<open>state_reset\<close> that makes the level: a fresh generator seeded with
  \<open>level_seed\<close>, a fresh 64 \<times> 13 maze, the border, the platforms and coins.
  \<open>mt\<close> gives the output sequence of \<^verbatim>\<open>std::mt19937\<close> for a seed.
\<close>

definition generate ::
  "(int \<Rightarrow> nat \<Rightarrow> 32 word) \<Rightarrow> Config \<Rightarrow> Maze \<Rightarrow> (nat \<Rightarrow> char) \<Rightarrow> RandGen \<Rightarrow> int
   \<Rightarrow> RandomMazeGenerator option" where
  "generate mt cfg old junk g0 level_seed =
     do { let maze_gen = \<lparr> rec_stack = [], gen_maze = new_Maze old junk 64 13,
                            rand_gen = seed mt g0 level_seed \<rparr>;
          maze_gen \<leftarrow> initial_floor_and_walls cfg maze_gen;
          generate_coins_on_platforms maze_gen }"

subsection \<open>Agent physics\<close>

text \<open>
  The loop \<^verbatim>\<open>while (!maze->has_vertical_space(x, y, false)) y -= 1;\<close> of
  \<^verbatim>\<open>Agent::sub_step\<close>. Nothing in the loop bounds \<open>y\<close>: it ends when the footprint is
  free, or by leaving the array.
\<close>

partial_function (option) bump_down :: "Maze \<Rightarrow> real \<Rightarrow> real \<Rightarrow> real option" where
  "bump_down m x y =
     do { free \<leftarrow> has_vertical_space m x y False;
          if free then Some y else bump_down m x (y - 1) }"

text \<open>
  The vertical half of \<^verbatim>\<open>Agent::sub_step\<close>. The right operand of each \<^verbatim>\<open>&&\<close> is
  evaluated only when \<open>_vy\<close> has the sign asked for.
\<close>

definition sub_step_vertical :: "Config \<Rightarrow> Agent \<Rightarrow> Maze \<Rightarrow> real \<Rightarrow> Agent option" where
  "sub_step_vertical cfg a m vy' =
     (let x = agent_x a; y = agent_y a; ny = y + vy' in
      do { on_wall \<leftarrow> (if vy' < 0 then map_option Not (has_vertical_space m x ny False)
                      else Some False);
           if on_wall
           then Some (a\<lparr>agent_y := real_of_int (c_int ny + 1), support := True, agent_vy := 0\<rparr>)
           else do {
             on_crate \<leftarrow> (if vy' < 0 then map_option Not (has_vertical_space m x ny True)
                          else Some False);
             if on_crate then
               (if action_dy a \<ge> 0 \<and> c_int ny \<noteq> c_int y
                then Some (a\<lparr>agent_y := real_of_int (c_int ny + 1), agent_vy := 0, support := True\<rparr>)
                else Some (a\<lparr>support := False, agent_y := ny\<rparr>))
             else do {
               at_ceiling \<leftarrow> (if vy' > 0 then map_option Not (has_vertical_space m x (ny + 1) False)
                              else Some False);
               if at_ceiling then
                 do { y' \<leftarrow> bump_down m x (real_of_int (c_int ny));
                      Some (a\<lparr>agent_y := y', bumped_head := True, agent_vy := 0,
                              reward := reward a - BUMP_HEAD_PENALTY cfg,
                              reward_sum := reward_sum a - BUMP_HEAD_PENALTY cfg\<rparr>) }
               else Some (a\<lparr>agent_y := ny\<rparr>) } } })"

text \<open>
  The horizontal half: one cell is probed in the direction of motion, in the row of
  the position that the vertical half has left.
\<close>

definition sub_step_horizontal :: "Agent \<Rightarrow> Maze \<Rightarrow> real \<Rightarrow> Agent option" where
  "sub_step_horizontal a m vx' =
     (let nx = agent_x a + vx'; iy = c_int (agent_y a); inx = c_int nx in
      do { wall_left \<leftarrow> (if vx' < 0 then map_option (\<lambda>c. is_wall c False) (get_elem m inx iy)
                        else Some False);
           if wall_left then Some (a\<lparr>agent_vx := 0, agent_x := real_of_int (inx + 1)\<rparr>)
           else do {
             wall_right \<leftarrow> (if vx' > 0
                            then map_option (\<lambda>c. is_wall c False) (get_elem m (inx + 1) iy)
                            else Some False);
             if wall_right then Some (a\<lparr>agent_vx := 0, agent_x := real_of_int inx\<rparr>)
             else Some (a\<lparr>agent_x := nx\<rparr>) } })"

definition sub_step :: "Config \<Rightarrow> Agent \<times> Maze \<Rightarrow> real \<Rightarrow> real \<Rightarrow> (Agent \<times> Maze) option" where
  "sub_step cfg am vx' vy' =
     (case am of (a, m) \<Rightarrow>
      do { a1 \<leftarrow> sub_step_vertical cfg a m vy';
           let ix = c_int (agent_x a1);
           let iy = c_int (agent_y a1);
           a2 \<leftarrow> sub_step_horizontal a1 m vx';
           am \<leftarrow> eat_coin (a2, m) ix iy;
           am \<leftarrow> eat_coin am ix (iy + 1);
           am \<leftarrow> eat_coin am (ix + 1) iy;
           eat_coin am (ix + 1) (iy + 1) })"

text \<open>The velocity update of \<^verbatim>\<open>Agent::step_coinrun\<close>, up to the two clamps.\<close>

definition update_velocity :: "Config \<Rightarrow> Agent \<Rightarrow> Maze \<Rightarrow> int \<Rightarrow> Agent" where
  "update_velocity cfg a m near_x =
     (let a = (if ladder_mode a then
                 (let vx = (1 - LADDER_MIXRATE_X) * agent_vx a
                           + LADDER_MIXRATE_X * maze_max_speed m
                             * (real_of_int (action_dx a) + (2 / 10) * (real_of_int near_x - agent_x a));
                      vy = (1 - LADDER_MIXRATE_Y) * agent_vy a
                           + LADDER_MIXRATE_Y * maze_max_speed m * real_of_int (action_dy a)
                  in a\<lparr>agent_vx := clip_abs vx LADDER_V, agent_vy := clip_abs vy LADDER_V\<rparr>)
               else if spring a > 0 \<and> agent_vy a = 0 \<and> action_dy a = 0 then
                 a\<lparr>agent_vy := maze_max_jump m, reward := reward a - JUMP_PENALTY cfg,
                   reward_sum := reward_sum a - JUMP_PENALTY cfg, spring := 0, support := True\<rparr>
               else a\<lparr>agent_vy := agent_vy a - maze_gravity m\<rparr>)
      in a\<lparr>agent_vy := clip_abs (agent_vy a) (maze_max_jump m),
           agent_vx := clip_abs (agent_vx a) (maze_max_speed m)\<rparr>)"

text \<open>The bookkeeping of \<^verbatim>\<open>Agent::step_coinrun\<close> after the sub-steps.\<close>

definition after_physics :: "Config \<Rightarrow> Agent \<Rightarrow> Maze \<Rightarrow> Agent" where
  "after_physics cfg a m =
     (let max_jump = maze_max_jump m; max_speed = maze_max_speed m; mix_rate = maze_mix_rate m;
          a = (if support a then
                 (let a = (if action_dy a > 0
                           then a\<lparr>spring := spring a + sign (real_of_int (action_dy a)) * max_jump / 4\<rparr>
                           else a);
                      a = (if action_dy a < 0 then a\<lparr>spring := - (1 / 100)\<rparr> else a);
                      a = (if action_dy a = 0 \<and> spring a < 0 then a\<lparr>spring := 0\<rparr> else a);
                      a = a\<lparr>spring := clip_abs (spring a) max_jump\<rparr>;
                      a = a\<lparr>agent_vx := (1 - mix_rate) * agent_vx a\<rparr>;
                      a = (if spring a = 0
                           then a\<lparr>agent_vx := agent_vx a + mix_rate * max_speed * real_of_int (action_dx a)\<rparr>
                           else a)
                  in (if \<bar>agent_vx a\<bar> < mix_rate * max_speed then a\<lparr>agent_vx := 0\<rparr> else a))
               else
                 (let ac = maze_air_control m
                  in a\<lparr>spring := 0,
                       agent_vx := (1 - ac * mix_rate) * agent_vx a
                                   + ac * mix_rate * real_of_int (action_dx a)\<rparr>));
          a = (if agent_vx a < 0 then a\<lparr>is_facing_right := False\<rparr>
               else if agent_vx a > 0 then a\<lparr>is_facing_right := True\<rparr> else a)
      in if spring a \<noteq> 0 \<and> \<not> (is_killed a \<or> ladder_mode a \<or> agent_vy a \<noteq> 0)
         then a\<lparr>reward := reward a - SQUAT_PENALTY cfg, reward_sum := reward_sum a - SQUAT_PENALTY cfg,
                is_preparing_to_jump := True\<rparr>
         else (let a = (if is_preparing_to_jump a \<and> agent_vy a \<noteq> max_jump
                        then a\<lparr>reward := reward a - JITTER_SQUAT_PENALTY cfg,
                               reward_sum := reward_sum a - JITTER_SQUAT_PENALTY cfg\<rparr>
                        else a)
               in a\<lparr>is_preparing_to_jump := False\<rparr>))"

definition step_coinrun :: "Config \<Rightarrow> Agent \<times> Maze \<Rightarrow> (Agent \<times> Maze) option" where
  "step_coinrun cfg am =
     (case am of (a, m) \<Rightarrow>
      do { let a = a\<lparr>support := False\<rparr>;
           let a = (if finished_level_frame_cnt a > 0 then a\<lparr>action_dy := 0, action_dx := 0\<rparr> else a);
           let near_x = c_int (agent_x a + 1 / 2);
           test_is_ladder1 \<leftarrow> get_elem m near_x (c_int (agent_y a + 2 / 10));
           test_is_ladder2 \<leftarrow> get_elem m near_x (c_int (agent_y a - 2 / 10));
           let a = (if test_is_ladder1 = LADDER \<or> test_is_ladder2 = LADDER
                    then (if action_dy a \<noteq> 0 then a\<lparr>ladder_mode := True\<rparr> else a)
                    else a\<lparr>ladder_mode := False\<rparr>);
           let a = update_velocity cfg a m near_x;
           let pct = 1 / 2;
           (a, m) \<leftarrow> sub_step cfg (a, m) (agent_vx a * pct) (agent_vy a * pct);
           (a, m) \<leftarrow> (if agent_vx a = 0 \<and> agent_vy a = 0 then Some (a, m)
                      else sub_step cfg (a, m) (agent_vx a * pct) (agent_vy a * pct));
           Some (after_physics cfg a m, m) })"

definition agent_step :: "Config \<Rightarrow> Agent \<times> Maze \<Rightarrow> (Agent \<times> Maze) option" where
  "agent_step cfg am =
     (case am of (a, m) \<Rightarrow>
      do { let a = a\<lparr>time_alive := time_alive a + 1\<rparr>;
           let timeout = LEVEL_TIMEOUT cfg;
           (a, m) \<leftarrow> step_coinrun cfg (a, m);
           Some (a, if time_alive a > timeout then m\<lparr>is_terminated := True\<rparr> else m) })"


subsection \<open>Monsters\<close>

text \<open>
  \<^verbatim>\<open>Monster::step\<close>. The pause of a jumping monster is drawn from the global generator.
  The trail arrays are shifted by one place.
\<close>

definition Monster_step :: "Maze \<Rightarrow> RandGen \<Rightarrow> Monster \<Rightarrow> (Monster \<times> RandGen) option" where
  "Monster_step m g mo =
     (if \<not> is_flying mo \<and> \<not> is_walking mo then Some (mo, g)
      else do {
        let control = sign (mon_vx mo);
        let ix = c_int (mon_x mo);
        let iy = c_int (mon_y mo);
        look_left \<leftarrow> get_elem m (ix - 0) iy;
        look_right \<leftarrow> get_elem m (ix + 1) iy;
        let control = (if is_wall look_left False then 1 else control);
        let control = (if is_wall look_right False then -1 else control);
        control \<leftarrow> (if is_walking mo then
                      do { feel_left \<leftarrow> get_elem m (ix - 0) (iy - 1);
                           feel_right \<leftarrow> get_elem m (ix + 1) (iy - 1);
                           let control = (if \<not> is_wall feel_left False then 1 else control);
                           Some (if \<not> is_wall feel_right False then -1 else control) }
                    else Some control);
        theme \<leftarrow> at_index enemy_themel (mon_theme_n mo);
        let mo = mo\<lparr>mon_vx := clip_abs (MONSTER_MIXRATE * control + (1 - MONSTER_MIXRATE) * mon_vx mo)
                                (monster_max_speed theme)\<rparr>;
        (mo, g) \<leftarrow> (if is_jumping_monster theme then
                      do { let mo = (if mon_vy mo = 0 \<and> pause mo = 0
                                     then mo\<lparr>mon_vy := max_jump_height theme\<rparr>
                                     else if pause mo = 0
                                     then mo\<lparr>mon_vy := mon_vy mo - (8 / 10) * maze_gravity m\<rparr>
                                     else mo);
                           let ny = mon_y mo + mon_vy mo;
                           landed \<leftarrow> (if mon_vy mo < 0
                                      then map_option Not (has_vertical_space m (mon_x mo) ny False)
                                      else Some False);
                           if landed then
                             do { (v, g) \<leftarrow> randint g 0 (max_pause_time theme);
                                  Some (mo\<lparr>mon_y := real_of_int (c_int ny + 1), mon_vy := 0, pause := v\<rparr>, g) }
                           else Some (mo, g) }
                    else Some (mo, g));
        let mo = (if pause mo > 0 then mo\<lparr>pause := pause mo - 1\<rparr>
                  else mo\<lparr>mon_x := mon_x mo + mon_vx mo, mon_y := mon_y mo + mon_vy mo\<rparr>);
        Some (mo\<lparr>prev_x := tl (prev_x mo) @ [mon_x mo], prev_y := tl (prev_y mo) @ [mon_y mo]\<rparr>, g) })"

text \<open>
  The test that follows \<^verbatim>\<open>m->step\<close> in \<^verbatim>\<open>stepping_thread\<close>. The theme of the monster is
  looked up only when the three comparisons before it hold.
\<close>

definition monster_meets_agent ::
  "Config \<Rightarrow> Monster \<times> Agent \<times> Maze \<Rightarrow> (Monster \<times> Agent \<times> Maze) option" where
  "monster_meets_agent cfg mam =
     (case mam of (mo, a, m) \<Rightarrow>
      do { stomped \<leftarrow> (if \<bar>mon_x mo - agent_x a\<bar> < 6 / 10 \<and> agent_y a - mon_y mo < 1
                          \<and> agent_y a - mon_y mo > 0
                       then map_option can_be_killed (at_index enemy_themel (mon_theme_n mo))
                       else Some False);
           if stomped then
             Some (mo\<lparr>is_dead := True, monster_dying_frame_cnt := MONSTER_DEATH_ANIM_LENGTH - 1\<rparr>,
                   a\<lparr>reward := reward a + KILL_MONSTER_REWARD cfg,
                     reward_sum := reward_sum a + KILL_MONSTER_REWARD cfg, killed_monster := True\<rparr>,
                   m)
           else if \<bar>mon_x mo - agent_x a\<bar> + \<bar>mon_y mo - agent_y a\<bar> < 1 \<and> \<not> power_up_mode a then
             Some (mo,
                   a\<lparr>is_killed := True, killed_animation_frame_cnt := DEATH_ANIM_LENGTH,
                     reward := reward a - DIE_PENALTY cfg, reward_sum := reward_sum a - DIE_PENALTY cfg\<rparr>,
                   m\<lparr>is_terminated := True\<rparr>)
           else Some (mo, a, m) })"

text \<open>The body of the loop over \<^verbatim>\<open>maze->monsters\<close>, for one monster.\<close>

definition monster_round ::
  "Config \<Rightarrow> Monster \<Rightarrow> Agent \<times> Maze \<times> RandGen \<Rightarrow> (Monster \<times> Agent \<times> Maze \<times> RandGen) option" where
  "monster_round cfg mo amg =
     (case amg of (a, m, g) \<Rightarrow>
      if \<not> is_dead mo then
        do { (mo, g) \<leftarrow> Monster_step m g mo;
             (mo, a, m) \<leftarrow> monster_meets_agent cfg (mo, a, m);
             Some (mo, a, m, g) }
      else Some (mo, a, m, g))"


subsection \<open>State, reset and one step of a worker\<close>

text \<open>
  \<open>belongs_to\<close> is the weak pointer to the group, kept as the group's handle; it can
  be locked as long as the registry holds the group.
\<close>

record State =
  state_n :: int
  st_maze :: Maze
  world_theme_n :: int
  belongs_to :: int
  st_time :: int
  game_id :: int
  agent :: Agent
  step_in_progress :: bool
  agent_ready :: bool



subsection \<open>The vectorised interface\<close>

text \<open>
  The states are shared between their group and the work queue. They live in a store
  (address = position in the list); a group and the queue hold addresses.
  \<^verbatim>\<open>h2s\<close> is the registry of the groups.
\<close>

record VectorOfStates =
  nenvs :: int
  handle :: int
  states :: "nat list"

record Engine =
  store :: "State list"
  h2s :: "int \<Rightarrow> VectorOfStates option"
  workers_todo :: "nat list"
  handle_seq :: int
  global_rand_gen :: RandGen

text \<open>\<^verbatim>\<open>vstate_find\<close>: an unknown handle ends in \<^verbatim>\<open>assert(0)\<close>.\<close>

definition vstate_find :: "Engine \<Rightarrow> int \<Rightarrow> VectorOfStates option" where
  "vstate_find eng h = h2s eng h"

definition store_get :: "Engine \<Rightarrow> nat \<Rightarrow> State option" where
  "store_get eng p = (if p < length (store eng) then Some (store eng ! p) else None)"

definition store_put :: "Engine \<Rightarrow> nat \<Rightarrow> State \<Rightarrow> Engine" where
  "store_put eng p st = eng\<lparr>store := (store eng)[p := st]\<rparr>"

text \<open>
  The loop of \<^verbatim>\<open>vec_step_async_discrete\<close> from \<open>e\<close> on. \<^verbatim>\<open>actions\<close> is the caller's
  array of \<^verbatim>\<open>int32_t\<close>; the only check is the \<^verbatim>\<open>assert\<close> on the action, compared as
  unsigned numbers.
\<close>

function submit_loop :: "VectorOfStates \<Rightarrow> 32 word list \<Rightarrow> int \<Rightarrow> Engine \<Rightarrow> Engine option" where
  "submit_loop vstate actions e eng =
     (if e < nenvs vstate then
        do { p \<leftarrow> at_index (states vstate) e;
             st \<leftarrow> store_get eng p;
             act \<leftarrow> at_index actions e;
             if \<not> act < 7 then None
             else do {
               dx \<leftarrow> at_index DISCRETE_ACTIONS (2 * uint act + 0);
               dy \<leftarrow> at_index DISCRETE_ACTIONS (2 * uint act + 1);
               let st = st\<lparr>agent := (agent st)\<lparr>action_dx := dx, action_dy := dy\<rparr>\<rparr>;
               let st = st\<lparr>agent_ready := True\<rparr>;
               let eng = (store_put eng p st)\<lparr>workers_todo := workers_todo eng @ [p]\<rparr>;
               submit_loop vstate actions (e + 1) eng } }
      else Some eng)"
  by pat_completeness auto
termination
  by (relation "measure (\<lambda>(vstate, actions, e, eng). nat (nenvs vstate - e))") auto

declare submit_loop.simps [simp del]

definition vec_step_async_discrete :: "Engine \<Rightarrow> int \<Rightarrow> 32 word list \<Rightarrow> Engine option" where
  "vec_step_async_discrete eng h actions =
     do { vstate \<leftarrow> vstate_find eng h; submit_loop vstate actions 0 eng }"

text \<open>
  \<^verbatim>\<open>vec_wait\<close>. The first loop polls the flags \<^verbatim>\<open>agent_ready\<close>; as long as one of them is
  set the call stays in \<^verbatim>\<open>wait_for_step_completed.wait\<close> and does not return: that is
  \<open>Blocked\<close>. The second loop fills \<^verbatim>\<open>rew\<close>, \<^verbatim>\<open>done\<close> and \<^verbatim>\<open>new_level\<close> at the index \<open>e\<close>
  and clears the three fields of the state.
\<close>

datatype 'a blocking = Blocked | Returned 'a

function all_steps_completed :: "VectorOfStates \<Rightarrow> int \<Rightarrow> Engine \<Rightarrow> bool option" where
  "all_steps_completed vstate e eng =
     (if e < nenvs vstate then
        do { p \<leftarrow> at_index (states vstate) e;
             st \<leftarrow> store_get eng p;
             rest \<leftarrow> all_steps_completed vstate (e + 1) eng;
             Some (\<not> agent_ready st \<and> rest) }
      else Some True)"
  by pat_completeness auto
termination
  by (relation "measure (\<lambda>(vstate, e, eng). nat (nenvs vstate - e))") auto

declare all_steps_completed.simps [simp del]

function collect_loop ::
  "VectorOfStates \<Rightarrow> int \<Rightarrow> real list \<times> bool list \<times> bool list \<Rightarrow> Engine
   \<Rightarrow> ((real list \<times> bool list \<times> bool list) \<times> Engine) option" where
  "collect_loop vstate e out eng =
     (if e < nenvs vstate then
        (case out of (rew, done, new_level) \<Rightarrow>
         do { p \<leftarrow> at_index (states vstate) e;
              state_e \<leftarrow> store_get eng p;
              let a = agent state_e;
              let out = (rew @ [reward a], done @ [agent_game_over a],
                         new_level @ [is_new_level (st_maze state_e)]);
              let state_e = state_e\<lparr>agent := a\<lparr>reward := 0, agent_game_over := False\<rparr>,
                                    st_maze := (st_maze state_e)\<lparr>is_new_level := False\<rparr>\<rparr>;
              collect_loop vstate (e + 1) out (store_put eng p state_e) })
      else Some (out, eng))"
  by pat_completeness auto
termination
  by (relation "measure (\<lambda>(vstate, e, out, eng). nat (nenvs vstate - e))") auto

declare collect_loop.simps [simp del]

definition vec_wait ::
  "Engine \<Rightarrow> int \<Rightarrow> ((real list \<times> bool list \<times> bool list) \<times> Engine) blocking option" where
  "vec_wait eng h =
     do { vstate \<leftarrow> vstate_find eng h;
          completed \<leftarrow> all_steps_completed vstate 0 eng;
          if completed then map_option Returned (collect_loop vstate 0 ([], [], []) eng)
          else Some Blocked }"

text \<open>
  The state that \<^verbatim>\<open>vec_wait\<close> leaves behind: reward, done flag and new-level flag
  cleared.
\<close>

definition clear_outputs :: "State \<Rightarrow> State" where
  "clear_outputs st = st\<lparr>agent := (agent st)\<lparr>reward := 0, agent_game_over := False\<rparr>,
                         st_maze := (st_maze st)\<lparr>is_new_level := False\<rparr>\<rparr>"

definition vec_close :: "Engine \<Rightarrow> int \<Rightarrow> Engine option" where
  "vec_close eng h =
     (if h = 0 then Some eng
      else do { vstate \<leftarrow> vstate_find eng h; Some (eng\<lparr>h2s := (h2s eng)(h := None)\<rparr>) })"


subsection \<open>Predicates on mazes used in the statements\<close>

definition cell :: "Maze \<Rightarrow> int \<Rightarrow> int \<Rightarrow> char" where
  "cell m x y = walls m ! nat (maze_w m * y + x)"

definition border_cells :: "Maze \<Rightarrow> (int \<times> int) list" where
  "border_cells m =
     [(x, y). x \<leftarrow> [0..maze_w m - 1], y \<leftarrow> [0..maze_h m - 1],
              x = 0 \<or> x = maze_w m - 1 \<or> y = 0 \<or> y = maze_h m - 1]"

definition border_solid :: "Maze \<Rightarrow> bool" where
  "border_solid m \<longleftrightarrow> list_all (\<lambda>(x, y). is_wall (cell m x y) False) (border_cells m)"

definition count_tiles :: "char \<Rightarrow> Maze \<Rightarrow> nat" where
  "count_tiles c m = length (filter (\<lambda>t. t = c) (walls m))"

text \<open>A maze as \<^verbatim>\<open>state_reset\<close> allocates it: 64 \<times> 13 cells, accessed as the code does.\<close>

definition wf64 :: "Maze \<Rightarrow> bool" where
  "wf64 m \<longleftrightarrow> \<not> maze_strict m \<and> maze_w m = 64 \<and> maze_h m = 13 \<and> length (walls m) = 832"

text \<open>No coin and no gem lies in the maze.\<close>

definition coinless :: "Maze \<Rightarrow> bool" where
  "coinless m \<longleftrightarrow> COIN_OBJ1 \<notin> set (walls m) \<and> COIN_OBJ2 \<notin> set (walls m)"

text \<open>The invariant of the grid during generation.\<close>

definition minv :: "Maze \<Rightarrow> bool" where
  "minv m \<longleftrightarrow> wf64 m \<and> border_solid m"

section \<open>Concrete inputs\<close>

text \<open>
  An agent as the member initialisers of \<^verbatim>\<open>struct Agent\<close> and \<^verbatim>\<open>Agent::reset\<close> leave it,
  standing at cell \<open>(1, 1)\<close>.
\<close>

definition agent0 :: Agent where
  "agent0 = \<lparr> agent_theme_n = 0, agent_x = 1, agent_y = 1, agent_vx = 0, agent_vy = 0,
     spring = 0, agent_game_over = False, reward = 0, reward_sum = 0, is_facing_right = True,
     ladder_mode = False, action_dx = 0, action_dy = 0, time_alive = 0, is_killed = False,
     is_preparing_to_jump = False, killed_monster = False, bumped_head = False,
     killed_animation_frame_cnt = 0, finished_level_frame_cnt = 0, power_up_mode = False,
     collected_coin = False, collected_gem = False, collect_data = False, support = False \<rparr>"

text \<open>A maze of the given size and content, with the constants of \<^verbatim>\<open>init_physics\<close>.\<close>

definition maze_of :: "int \<Rightarrow> int \<Rightarrow> char list \<Rightarrow> int \<Rightarrow> Maze" where
  "maze_of wd ht cells n = \<lparr> spawnpos = (1, 1), maze_w = wd, maze_h = ht, walls = cells,
     coins = n, is_terminated = False, is_new_level = True, maze_gravity = GRAVITY,
     maze_max_jump = MAX_JUMP, maze_air_control = 15 / 100,
     max_dy = MAX_JUMP * MAX_JUMP / (2 * GRAVITY), max_dx = MAX_SPEED * 2 * MAX_JUMP / GRAVITY,
     default_zoom = 55 / 10, maze_max_speed = MAX_SPEED, maze_mix_rate = MIX_RATE,
     monsters = [], maze_strict = False \<rparr>"

text \<open>A walled 4 \<times> 4 room (rows listed from \<open>y = 0\<close>) whose last coin lies at \<open>(1, 1)\<close>.\<close>

definition last_coin_maze :: Maze where
  "last_coin_maze = maze_of 4 4 (''SSSA'' @ ''A1.A'' @ ''A..A'' @ ''AAAA'') 1"

definition state_of :: "int \<Rightarrow> int \<Rightarrow> Agent \<Rightarrow> Maze \<Rightarrow> bool \<Rightarrow> bool \<Rightarrow> State" where
  "state_of n h a m ready busy =
     \<lparr> state_n = n, st_maze = m, world_theme_n = 0, belongs_to = h, st_time = 0, game_id = 0,
       agent = a, step_in_progress = busy, agent_ready = ready \<rparr>"

definition rng0 :: RandGen where
  "rng0 = \<lparr> is_seeded = True, stdgen = (\<lambda>i. 0) \<rparr>"

text \<open>
  A group of one instance, registered under the handle 100, whose instance has been
  submitted and taken by a worker (ready and in progress) and is still in the queue.
\<close>

definition pending_engine :: Engine where
  "pending_engine =
     \<lparr> store = [state_of 0 100 agent0 last_coin_maze True True],
       h2s = [100 \<mapsto> \<lparr> nenvs = 1, handle = 100, states = [0] \<rparr>],
       workers_todo = [0], handle_seq = 101, global_rand_gen = rng0 \<rparr>"

text \<open>A group of two idle instances with the rewards 3 and 0; the first episode is over.\<close>

definition idle_engine :: Engine where
  "idle_engine =
     \<lparr> store = [state_of 0 100 (agent0\<lparr>reward := 3, agent_game_over := True\<rparr>) last_coin_maze False False,
               state_of 1 100 agent0 (last_coin_maze\<lparr>is_new_level := False\<rparr>) False False],
       h2s = [100 \<mapsto> \<lparr> nenvs = 2, handle = 100, states = [0, 1] \<rparr>],
       workers_todo = [], handle_seq = 101, global_rand_gen = rng0 \<rparr>"

text \<open>A walled room with a floor and a walking monster of the theme 5 (the snail).\<close>

definition walk_room :: Maze where
  "walk_room = maze_of 4 4 (''SSSS'' @ ''A..A'' @ ''A..A'' @ ''AAAA'') 0"

definition snail :: Monster where
  "snail = new_Monster 1 1 WALKING_MONSTER 5"

definition snail_stepped :: Monster where
  "snail_stepped = snail\<lparr>mon_x := 51 / 50, mon_vx := 1 / 50,
                         prev_x := replicate 13 1 @ [51 / 50]\<rparr>"

section \<open>Collecting the last coin\<close>

lemma get_elem_Some_iff:
  "get_elem m x y = Some c \<longleftrightarrow> may_access m x y \<and> walls m ! nat (maze_w m * y + x) = c"
  by (simp add: get_elem_def)

lemma set_elem_Some_iff:
  "set_elem m x y v = Some m' \<longleftrightarrow>
     may_access m x y \<and> m' = m\<lparr>walls := (walls m)[nat (maze_w m * y + x) := v]\<rparr>"
  by (auto simp: set_elem_def)

text \<open>
  C1 (as stated, refuted). On the room \<open>last_coin_maze\<close> the agent eats the only coin: the
  counter drops to zero and the reward of that call is 10, not 1 + 10.
\<close>

theorem eat_last_coin_reward_counterexample:
  "get_elem last_coin_maze 1 1 = Some COIN_OBJ1 \<and> coins last_coin_maze = 1
   \<and> map_option (coins \<circ> snd) (eat_coin (agent0, last_coin_maze) 1 1) = Some 0
   \<and> map_option (reward \<circ> fst) (eat_coin (agent0, last_coin_maze) 1 1) = Some (reward agent0 + 10)
   \<and> map_option (reward \<circ> fst) (eat_coin (agent0, last_coin_maze) 1 1) \<noteq> Some (reward agent0 + (1 + 10))"
  by (simp add: eat_coin_def get_elem_def set_elem_def may_access_def in_array_def
      last_coin_maze_def maze_of_def agent0_def is_lethal_def is_coin_def is_gem_def)

text \<open>
  C1 (amended). Whenever the tile eaten is a coin and it is the last one counted, the call
  adds exactly 10 to the reward (the +1 of the other branch is not added), sets the maze's
  terminated flag and sets the finished-level countdown to its fixed length.
\<close>

theorem eat_last_coin:
  assumes "get_elem m x y = Some COIN_OBJ1" and "coins m = 1"
  shows "\<exists>a' m'. eat_coin (a, m) x y = Some (a', m')
           \<and> reward a' = reward a + 10 \<and> reward_sum a' = reward_sum a + 10
           \<and> coins m' = 0 \<and> is_terminated m'
           \<and> finished_level_frame_cnt a' = FINISHED_LEVEL_ANIM_LENGTH"
proof -
  from assms(1) have acc: "may_access m x y"
    by (simp add: get_elem_Some_iff)
  then obtain m1 where m1: "set_elem m x y SPACE = Some m1" and c1: "coins m1 = coins m"
    by (simp add: set_elem_def)
  show ?thesis
    using assms m1 c1
    by (simp add: eat_coin_def is_lethal_def is_coin_def is_gem_def Let_def)
qed

theorem eat_last_coin_witness:
  "\<exists>a' m'. eat_coin (agent0, last_coin_maze) 1 1 = Some (a', m')
           \<and> reward a' = reward agent0 + 10 \<and> reward_sum a' = reward_sum agent0 + 10
           \<and> coins m' = 0 \<and> is_terminated m'
           \<and> finished_level_frame_cnt a' = FINISHED_LEVEL_ANIM_LENGTH"
proof -
  have "get_elem last_coin_maze 1 1 = Some COIN_OBJ1"
    by (simp add: get_elem_def may_access_def in_array_def last_coin_maze_def maze_of_def)
  moreover have "coins last_coin_maze = 1"
    by (simp add: last_coin_maze_def maze_of_def)
  ultimately show ?thesis
    by (rule eat_last_coin)
qed

section \<open>The vectorised interface: submit and wait\<close>

lemma at_index_nat:
  "n < length xs \<Longrightarrow> at_index xs (int n) = Some (xs ! n)"
  by (simp add: at_index_def)

lemma all_steps_completed_drop:
  assumes "nenvs vs = int (length (states vs))"
    and "\<forall>p\<in>set (states vs). p < length (store eng)"
  shows "e \<le> length (states vs) \<Longrightarrow>
         all_steps_completed vs (int e) eng
           = Some (\<forall>p\<in>set (drop e (states vs)). \<not> agent_ready (store eng ! p))"
proof (induction "length (states vs) - e" arbitrary: e)
  case 0
  then show ?case using assms(1) by (simp add: all_steps_completed.simps[of vs "int e"])
next
  case (Suc k)
  then have lt: "e < length (states vs)" by linarith
  then have p: "states vs ! e < length (store eng)" using assms(2) by simp
  have "all_steps_completed vs (int (Suc e)) eng
           = Some (\<forall>p\<in>set (drop (Suc e) (states vs)). \<not> agent_ready (store eng ! p))"
    using Suc lt by (intro Suc.hyps(1)) linarith+
  then have IH: "all_steps_completed vs (int e + 1) eng
           = Some (\<forall>p\<in>set (drop (Suc e) (states vs)). \<not> agent_ready (store eng ! p))"
    by (simp add: add.commute)
  have d: "drop e (states vs) = states vs ! e # drop (Suc e) (states vs)"
    using lt by (simp add: Cons_nth_drop_Suc)
  show ?case
    using lt p assms(1)
    by (subst all_steps_completed.simps) (simp add: at_index_nat store_get_def IH d)
qed

lemma collect_loop_drop:
  assumes "nenvs vs = int (length (states vs))"
  shows "e \<le> length (states vs) \<Longrightarrow> distinct (drop e (states vs)) \<Longrightarrow>
         \<forall>p\<in>set (drop e (states vs)). p < length (store eng) \<Longrightarrow>
         collect_loop vs (int e) (rew, dn, nl) eng
           = Some ((rew @ map (\<lambda>p. reward (agent (store eng ! p))) (drop e (states vs)),
                    dn @ map (\<lambda>p. agent_game_over (agent (store eng ! p))) (drop e (states vs)),
                    nl @ map (\<lambda>p. is_new_level (st_maze (store eng ! p))) (drop e (states vs))),
                   eng\<lparr>store := fold (\<lambda>p s. s[p := clear_outputs (s ! p)]) (drop e (states vs)) (store eng)\<rparr>)"
proof (induction "length (states vs) - e" arbitrary: e rew dn nl eng)
  case 0
  then show ?case using assms(1) by (simp add: collect_loop.simps[of vs "int e"])
next
  case (Suc k)
  then have lt: "e < length (states vs)" by linarith
  let ?p = "states vs ! e"
  have d: "drop e (states vs) = ?p # drop (Suc e) (states vs)"
    using lt by (simp add: Cons_nth_drop_Suc)
  have p: "?p < length (store eng)" using Suc.prems(3) d by simp
  have notin: "?p \<notin> set (drop (Suc e) (states vs))" and dist: "distinct (drop (Suc e) (states vs))"
    using Suc.prems(2) d by simp_all
  let ?eng = "store_put eng ?p (clear_outputs (store eng ! ?p))"
  have same: "\<And>q. q \<in> set (drop (Suc e) (states vs)) \<Longrightarrow> store ?eng ! q = store eng ! q"
    using notin by (metis nth_list_update_neq select_convs(1) store_put_def surjective update_convs(1))
  have bound: "\<forall>q\<in>set (drop (Suc e) (states vs)). q < length (store ?eng)"
    using Suc.prems(3) d by (simp add: store_put_def)
  have IH: "collect_loop vs (int e + 1) (rew', dn', nl') ?eng
           = Some ((rew' @ map (\<lambda>p. reward (agent (store ?eng ! p))) (drop (Suc e) (states vs)),
                    dn' @ map (\<lambda>p. agent_game_over (agent (store ?eng ! p))) (drop (Suc e) (states vs)),
                    nl' @ map (\<lambda>p. is_new_level (st_maze (store ?eng ! p))) (drop (Suc e) (states vs))),
                   ?eng\<lparr>store := fold (\<lambda>p s. s[p := clear_outputs (s ! p)]) (drop (Suc e) (states vs)) (store ?eng)\<rparr>)"
    for rew' dn' nl'
    using Suc.hyps(1)[of "Suc e" ?eng rew' dn' nl'] Suc.hyps(2) lt dist bound
    by (simp add: add.commute)
  have maps: "map (\<lambda>p. f (store ?eng ! p)) (drop (Suc e) (states vs))
            = map (\<lambda>p. f (store eng ! p)) (drop (Suc e) (states vs))" for f :: "State \<Rightarrow> 'b"
    using same by (intro map_cong) simp_all
  show ?case
    using lt p assms(1)
    apply (subst collect_loop.simps)
    apply (simp add: at_index_nat store_get_def Let_def)
    apply (simp only: clear_outputs_def[symmetric] store_put_def[symmetric])
    apply (subst IH)
    apply (simp add: d maps[of "\<lambda>s. reward (agent s)"] maps[of "\<lambda>s. agent_game_over (agent s)"]
           maps[of "\<lambda>s. is_new_level (st_maze s)"])
    apply (simp add: store_put_def)
    done
qed


lemma fold_clear_pointwise:
  "distinct ps \<Longrightarrow>
   fold (\<lambda>p s. s[p := f (s ! p)]) ps s
     = map (\<lambda>i. if i \<in> set ps then f (s ! i) else s ! i) [0..<length s]"
proof (induction ps arbitrary: s)
  case Nil
  then show ?case by (simp add: map_nth)
next
  case (Cons p ps)
  then have "p \<notin> set ps" "distinct ps" by simp_all
  moreover have "s[p := f (s ! p)] ! x = s ! x" if "x \<in> set ps" for x
    using that \<open>p \<notin> set ps\<close> by (metis nth_list_update_neq)
  ultimately show ?case
    by (auto simp: Cons.IH nth_list_update intro!: nth_equalityI)
qed

text \<open>
  C8. For a registered group whose instance list has \<open>nenvs\<close> distinct, allocated
  entries: \<^verbatim>\<open>vec_wait\<close> does not return while an instance is still marked ready; once
  none is, it returns the rewards, done flags and new-level flags in the order of the
  group's instance list (entry \<open>e\<close> belongs to instance \<open>e\<close>, whatever order the workers
  finished in) and leaves every instance of the group with reward 0 and both flags
  false, the other states untouched.
\<close>

theorem vec_wait_index_aligned:
  assumes "vstate_find eng h = Some vs"
    and "nenvs vs = int (length (states vs))"
    and "distinct (states vs)"
    and "\<forall>p\<in>set (states vs). p < length (store eng)"
  shows "vec_wait eng h = Some
     (if \<exists>p\<in>set (states vs). agent_ready (store eng ! p) then Blocked
      else Returned
        ((map (\<lambda>p. reward (agent (store eng ! p))) (states vs),
          map (\<lambda>p. agent_game_over (agent (store eng ! p))) (states vs),
          map (\<lambda>p. is_new_level (st_maze (store eng ! p))) (states vs)),
         eng\<lparr>store := map (\<lambda>i. if i \<in> set (states vs) then clear_outputs (store eng ! i)
                                 else store eng ! i) [0..<length (store eng)]\<rparr>))"
proof -
  have a: "all_steps_completed vs 0 eng
            = Some (\<forall>p\<in>set (states vs). \<not> agent_ready (store eng ! p))"
    using all_steps_completed_drop[OF assms(2,4), of 0] by simp
  have c: "collect_loop vs 0 ([], [], []) eng
            = Some ((map (\<lambda>p. reward (agent (store eng ! p))) (states vs),
                     map (\<lambda>p. agent_game_over (agent (store eng ! p))) (states vs),
                     map (\<lambda>p. is_new_level (st_maze (store eng ! p))) (states vs)),
                    eng\<lparr>store := fold (\<lambda>p s. s[p := clear_outputs (s ! p)]) (states vs) (store eng)\<rparr>)"
    using collect_loop_drop[OF assms(2), of 0 eng "[]" "[]" "[]"] assms(3,4) by simp
  show ?thesis
    using assms(1) by (simp add: vec_wait_def a c fold_clear_pointwise[OF assms(3)])
qed

theorem vec_wait_index_aligned_witness:
  "vec_wait idle_engine 100 = Some (Returned
     (([3, 0], [True, False], [True, False]),
      idle_engine\<lparr>store := [clear_outputs (store idle_engine ! 0), clear_outputs (store idle_engine ! 1)]\<rparr>))
   \<and> vec_wait pending_engine 100 = Some Blocked"
proof -
  have i: "vstate_find idle_engine 100 = Some \<lparr> nenvs = 2, handle = 100, states = [0, 1] \<rparr>"
    by (simp add: vstate_find_def idle_engine_def)
  have p: "vstate_find pending_engine 100 = Some \<lparr> nenvs = 1, handle = 100, states = [0] \<rparr>"
    by (simp add: vstate_find_def pending_engine_def)
  have up: "[0..<2] = [0, Suc 0]" by (simp add: upt_rec)
  show ?thesis
    using vec_wait_index_aligned[OF i] vec_wait_index_aligned[OF p]
    by (simp add: idle_engine_def pending_engine_def state_of_def agent0_def last_coin_maze_def
        maze_of_def up)
qed

lemma discrete_action_ok:
  assumes "(act :: 32 word) < 7"
  shows "\<exists>dx dy. at_index DISCRETE_ACTIONS (2 * uint act + 0) = Some dx
               \<and> at_index DISCRETE_ACTIONS (2 * uint act + 1) = Some dy"
proof -
  from assms have "uint act < 7" by (simp add: word_less_def)
  moreover have "0 \<le> uint act" by simp
  ultimately show ?thesis by (simp add: at_index_def DISCRETE_ACTIONS_def)
qed

lemma submit_loop_ok:
  assumes "nenvs vs = int (length (states vs))"
    and "length (states vs) \<le> length actions"
    and "\<forall>k<length (states vs). actions ! k < 7"
  shows "e \<le> length (states vs) \<Longrightarrow>
         \<forall>p\<in>set (states vs). p < length (store eng) \<Longrightarrow>
         \<exists>eng'. submit_loop vs actions (int e) eng = Some eng'
              \<and> workers_todo eng' = workers_todo eng @ drop e (states vs)
              \<and> length (store eng') = length (store eng)
              \<and> (\<forall>p\<in>set (drop e (states vs)). agent_ready (store eng' ! p))
              \<and> (\<forall>q<length (store eng). agent_ready (store eng ! q) \<longrightarrow> agent_ready (store eng' ! q))
              \<and> h2s eng' = h2s eng"
proof (induction "length (states vs) - e" arbitrary: e eng)
  case 0
  then show ?case using assms(1) by (simp add: submit_loop.simps[of vs actions "int e"])
next
  case (Suc k)
  then have lt: "e < length (states vs)" by linarith
  let ?p = "states vs ! e"
  have d: "drop e (states vs) = ?p # drop (Suc e) (states vs)"
    using lt by (simp add: Cons_nth_drop_Suc)
  have p: "?p < length (store eng)" using Suc.prems(2) lt by simp
  have act: "actions ! e < 7" and acte: "e < length actions" using assms(2,3) lt by simp_all
  from discrete_action_ok[OF act] obtain dx dy where
    dx: "at_index DISCRETE_ACTIONS (2 * uint (actions ! e) + 0) = Some dx" and
    dy: "at_index DISCRETE_ACTIONS (2 * uint (actions ! e) + 1) = Some dy" by blast
  define st where "st = (store eng ! ?p)\<lparr>agent := (agent (store eng ! ?p))\<lparr>action_dx := dx, action_dy := dy\<rparr>,
                              agent_ready := True\<rparr>"
  define eng1 where "eng1 = (store_put eng ?p st)\<lparr>workers_todo := workers_todo eng @ [?p]\<rparr>"
  have st_ready: "agent_ready st" by (simp add: st_def)
  have eng1: "workers_todo eng1 = workers_todo eng @ [?p]" "length (store eng1) = length (store eng)"
     "h2s eng1 = h2s eng" "store eng1 = (store eng)[?p := st]"
    by (simp_all add: eng1_def store_put_def)
  have bound: "\<forall>q\<in>set (states vs). q < length (store eng1)"
    using Suc.prems(2) by (simp add: eng1)
  have e1: "int (Suc e) = int e + 1" by simp
  have k: "k = length (states vs) - Suc e" "Suc e \<le> length (states vs)"
    using Suc.hyps(2) lt by linarith+
  from Suc.hyps(1)[OF k bound, unfolded e1]
  obtain eng' where IH: "submit_loop vs actions (int e + 1) eng1 = Some eng'"
     "workers_todo eng' = workers_todo eng1 @ drop (Suc e) (states vs)"
     "length (store eng') = length (store eng1)"
     "\<forall>q\<in>set (drop (Suc e) (states vs)). agent_ready (store eng' ! q)"
     "\<forall>q<length (store eng1). agent_ready (store eng1 ! q) \<longrightarrow> agent_ready (store eng' ! q)"
     "h2s eng' = h2s eng1"
    by blast
  have step: "submit_loop vs actions (int e) eng = submit_loop vs actions (int e + 1) eng1"
    using lt p act acte assms(1) dx dy
    by (subst submit_loop.simps)
       (simp add: at_index_nat store_get_def Let_def eng1_def st_def)
  have mono: "agent_ready (store eng1 ! q)" if "q < length (store eng)" "agent_ready (store eng ! q)" for q
    using that st_ready by (cases "q = ?p") (simp_all add: eng1)
  have "agent_ready (store eng1 ! ?p)" using p st_ready by (simp add: eng1)
  then have "agent_ready (store eng' ! ?p)" using IH(5) p eng1(2) by simp
  then show ?case
    using IH mono by (simp add: step d eng1)
qed

text \<open>
  \<^verbatim>\<open>vec_step_async_discrete\<close> never looks at the flags of the instances: for a
  registered group and actions within the action set it returns, marks every instance
  ready and appends every instance to the queue.
\<close>

lemma submit_returns:
  assumes "vstate_find eng h = Some vs"
    and "nenvs vs = int (length (states vs))"
    and "length (states vs) \<le> length actions"
    and "\<forall>p\<in>set (states vs). p < length (store eng)"
    and "\<forall>k<length (states vs). actions ! k < 7"
  shows "\<exists>eng'. vec_step_async_discrete eng h actions = Some eng'
            \<and> workers_todo eng' = workers_todo eng @ states vs
            \<and> (\<forall>p\<in>set (states vs). agent_ready (store eng' ! p))"
  using submit_loop_ok[OF assms(2,3,5), of 0 eng] assms(1,4)
  by (auto simp: vec_step_async_discrete_def)

section \<open>A monster meets the agent\<close>

text \<open>
  C5. A monster that is not dead is stepped and then compared with the agent. With the
  monster as its step leaves it: if the horizontal distance is below 0.6, the agent
  is above the monster by more than 0 and less than 1, and the monster's theme can be
  killed, the monster is marked dead, its death countdown is set and the agent gains
  the kill-monster reward; otherwise, if the Manhattan distance is below 1 and the
  agent has no power-up, the agent is killed, its death countdown starts and the maze
  is terminated, the monster staying as it is; otherwise nothing changes.
\<close>

theorem monster_collision:
  assumes "\<not> is_dead mo"
    and "Monster_step m g mo = Some (mo1, g1)"
    and "at_index enemy_themel (mon_theme_n mo1) = Some theme"
  shows "monster_round cfg mo (a, m, g) = Some
     (if \<bar>mon_x mo1 - agent_x a\<bar> < 6 / 10 \<and> 0 < agent_y a - mon_y mo1 \<and> agent_y a - mon_y mo1 < 1
         \<and> can_be_killed theme
      then (mo1\<lparr>is_dead := True, monster_dying_frame_cnt := MONSTER_DEATH_ANIM_LENGTH - 1\<rparr>,
            a\<lparr>reward := reward a + KILL_MONSTER_REWARD cfg,
              reward_sum := reward_sum a + KILL_MONSTER_REWARD cfg, killed_monster := True\<rparr>,
            m, g1)
      else if \<bar>mon_x mo1 - agent_x a\<bar> + \<bar>mon_y mo1 - agent_y a\<bar> < 1 \<and> \<not> power_up_mode a
      then (mo1,
            a\<lparr>is_killed := True, killed_animation_frame_cnt := DEATH_ANIM_LENGTH,
              reward := reward a - DIE_PENALTY cfg, reward_sum := reward_sum a - DIE_PENALTY cfg\<rparr>,
            m\<lparr>is_terminated := True\<rparr>, g1)
      else (mo1, a, m, g1))"
  using assms by (auto simp: monster_round_def monster_meets_agent_def)

lemma snail_step: "Monster_step walk_room rng0 snail = Some (snail_stepped, rng0)"
  by (simp add: Monster_step_def walk_room_def maze_of_def snail_def snail_stepped_def new_Monster_def
      get_elem_def may_access_def in_array_def c_int_def sign_def is_wall_def is_crat_def
      at_index_def enemy_themel_def ground_monsters_def walking_monsters_def flying_monsters_def
      load_enemy_theme_def clip_abs_def Let_def numeral_eq_Suc)

theorem monster_collision_witness:
  "monster_round default_config snail (agent0\<lparr>agent_y := 3 / 2\<rparr>, walk_room, rng0) = Some
     (snail_stepped\<lparr>is_dead := True, monster_dying_frame_cnt := 1\<rparr>,
      agent0\<lparr>agent_y := 3 / 2, reward := 5, reward_sum := 5, killed_monster := True\<rparr>,
      walk_room, rng0)
   \<and> monster_round default_config snail (agent0\<lparr>agent_y := 1 / 2\<rparr>, walk_room, rng0) = Some
     (snail_stepped,
      agent0\<lparr>agent_y := 1 / 2, is_killed := True, killed_animation_frame_cnt := 30\<rparr>,
      walk_room\<lparr>is_terminated := True\<rparr>, rng0)"
proof -
  have alive: "\<not> is_dead snail" by (simp add: snail_def new_Monster_def)
  have theme: "at_index enemy_themel (mon_theme_n snail_stepped) = Some (load_enemy_theme ''snail'')"
    by (simp add: at_index_def enemy_themel_def ground_monsters_def walking_monsters_def
        flying_monsters_def snail_stepped_def snail_def new_Monster_def)
  have kill: "can_be_killed (load_enemy_theme ''snail'')" by (simp add: load_enemy_theme_def)
  show ?thesis
    using monster_collision[OF alive snail_step theme, of default_config "agent0\<lparr>agent_y := 3 / 2\<rparr>"]
          monster_collision[OF alive snail_step theme, of default_config "agent0\<lparr>agent_y := 1 / 2\<rparr>"]
          kill
    by (simp add: snail_stepped_def snail_def new_Monster_def agent0_def default_config_def)
qed

section \<open>Level generation: access within the array and the solid border\<close>

subsection \<open>Reading and writing cells of a 64 \<times> 13 maze\<close>

lemma border_solid_iff:
  "border_solid m \<longleftrightarrow>
     (\<forall>x y. in_grid m x y \<and> (x = 0 \<or> x = maze_w m - 1 \<or> y = 0 \<or> y = maze_h m - 1)
            \<longrightarrow> is_wall (cell m x y) False)"
  by (auto simp: border_solid_def border_cells_def list_all_iff in_grid_def)

lemma get_elem_wf64:
  "wf64 m \<Longrightarrow> 0 \<le> 64 * y + x \<Longrightarrow> 64 * y + x < 832 \<Longrightarrow> get_elem m x y = Some (cell m x y)"
  by (simp add: get_elem_def may_access_def in_array_def wf64_def cell_def)

lemma get_elem_grid:
  "wf64 m \<Longrightarrow> in_grid m x y \<Longrightarrow> get_elem m x y = Some (cell m x y)"
  by (rule get_elem_wf64) (auto simp: in_grid_def wf64_def)

lemma interior_if_not_wall:
  assumes "minv m" "in_grid m x y" "\<not> is_wall (cell m x y) False"
  shows "1 \<le> x \<and> x \<le> 62 \<and> 1 \<le> y \<and> y \<le> 11"
proof -
  from assms have "\<not> (x = 0 \<or> x = maze_w m - 1 \<or> y = 0 \<or> y = maze_h m - 1)"
    by (auto simp: minv_def border_solid_iff)
  with assms(1,2) show ?thesis by (auto simp: minv_def wf64_def in_grid_def)
qed

lemma set_elem_wf64:
  assumes "wf64 m" "0 \<le> 64 * y + x" "64 * y + x < 832"
  shows "set_elem m x y v = Some (m\<lparr>walls := (walls m)[nat (64 * y + x) := v]\<rparr>)"
  using assms by (simp add: set_elem_def may_access_def in_array_def wf64_def)

lemma cell_update:
  assumes "wf64 m" "in_grid m x y" "in_grid m x' y'"
  shows "cell (m\<lparr>walls := (walls m)[nat (64 * y + x) := v]\<rparr>) x' y'
           = (if x' = x \<and> y' = y then v else cell m x' y')"
proof -
  from assms have r: "0 \<le> x" "x < 64" "0 \<le> y" "y < 13" "0 \<le> x'" "x' < 64" "0 \<le> y'" "y' < 13"
    and w: "maze_w m = 64" and l: "length (walls m) = 832"
    by (auto simp: in_grid_def wf64_def)
  have "x' = x \<and> y' = y" if "64 * y' + x' = 64 * y + x"
  proof -
    have yy: "y' = y" using r that by linarith
    have "x' = x" using that unfolding yy by linarith
    with yy show ?thesis by simp
  qed
  moreover have "nat (64 * y' + x') = nat (64 * y + x) \<longleftrightarrow> 64 * y' + x' = 64 * y + x"
    using r by auto
  ultimately have "nat (64 * y' + x') = nat (64 * y + x) \<longleftrightarrow> x' = x \<and> y' = y"
    by auto
  moreover have "nat (64 * y + x) < length (walls m)" using r l by auto
  ultimately show ?thesis by (auto simp: cell_def w nth_list_update)
qed

lemma set_elem_minv:
  assumes "minv m" "in_grid m x y" "\<not> is_wall (cell m x y) False \<or> is_wall v False"
  shows "\<exists>m'. set_elem m x y v = Some m' \<and> minv m' \<and> walls m' = (walls m)[nat (64 * y + x) := v]
            \<and> (\<forall>x' y'. in_grid m x' y' \<longrightarrow> cell m' x' y' = (if x' = x \<and> y' = y then v else cell m x' y'))
            \<and> m' = m\<lparr>walls := walls m'\<rparr>"
proof -
  from assms(1) have wf: "wf64 m" and b: "border_solid m" by (simp_all add: minv_def)
  from assms(2) wf have idx: "0 \<le> 64 * y + x" "64 * y + x < 832" by (auto simp: in_grid_def wf64_def)
  let ?m = "m\<lparr>walls := (walls m)[nat (64 * y + x) := v]\<rparr>"
  have s: "set_elem m x y v = Some ?m" using wf idx by (rule set_elem_wf64)
  have wf': "wf64 ?m" using wf by (simp add: wf64_def)
  have g: "in_grid ?m = in_grid m" by (simp add: in_grid_def fun_eq_iff)
  have c: "\<forall>x' y'. in_grid m x' y' \<longrightarrow> cell ?m x' y' = (if x' = x \<and> y' = y then v else cell m x' y')"
    using cell_update[OF wf assms(2)] by simp
  have "border_solid ?m"
    unfolding border_solid_iff g
  proof (intro allI impI)
    fix x' y' assume h: "in_grid m x' y' \<and> (x' = 0 \<or> x' = maze_w ?m - 1 \<or> y' = 0 \<or> y' = maze_h ?m - 1)"
    then have old: "is_wall (cell m x' y') False" using b by (simp add: border_solid_iff)
    show "is_wall (cell ?m x' y') False"
      using c h old assms(3) by auto
  qed
  with s wf' c show ?thesis by (simp add: minv_def)
qed

subsection \<open>The random numbers\<close>

lemma randint_range:
  assumes "is_seeded g" "0 < n" "n < 2 ^ 31"
  shows "\<exists>v. randint g 0 n = Some (v, g\<lparr>stdgen := (\<lambda>i. stdgen g (Suc i))\<rparr>) \<and> 0 \<le> v \<and> v < n"
proof -
  let ?r = "word_of_int n :: 32 word"
  let ?x = "stdgen g 0"
  have ur: "uint ?r = n" using assms(2,3) by (simp add: uint_word_of_int)
  then have r0: "?r \<noteq> 0" using assms(2) by auto
  have "uint (?x mod ?r) = uint ?x mod n" by (simp add: uint_mod ur)
  then have b: "0 \<le> uint (?x mod ?r)" "uint (?x mod ?r) < n"
    using assms(2) by simp_all
  have "(- (2 ^ (LENGTH(32) - Suc 0)) :: int) \<le> 0" by simp
  also have "0 \<le> uint (?x mod ?r)" by (rule b)
  finally have lo: "- (2 ^ (LENGTH(32) - Suc 0)) \<le> uint (?x mod ?r)" .
  have hi: "uint (?x mod ?r) < 2 ^ (LENGTH(32) - Suc 0)"
    using b(2) assms(3) by simp
  have "sint (?x mod ?r) = uint (?x mod ?r)"
    unfolding sint_uint using lo hi by (rule signed_take_bit_int_eq_self)
  with b r0 show ?thesis
    using assms(1) by (simp add: randint_def stdgen_call_def Let_def)
qed

lemma randn_range:
  assumes "is_seeded (rand_gen gs)" "0 < n" "n < 2 ^ 31"
  shows "\<exists>v g. randn gs n = Some (v, gs\<lparr>rand_gen := g\<rparr>) \<and> 0 \<le> v \<and> v < n \<and> is_seeded g"
proof -
  from randint_range[OF assms] obtain v where
    "randint (rand_gen gs) 0 n = Some (v, (rand_gen gs)\<lparr>stdgen := (\<lambda>i. stdgen (rand_gen gs) (Suc i))\<rparr>)"
    "0 \<le> v" "v < n" by blast
  then show ?thesis using assms(1) by (auto simp: randn_def)
qed

lemma gen_rand01_range:
  assumes "is_seeded (rand_gen gs)"
  shows "\<exists>u g. gen_rand01 gs = Some (u, gs\<lparr>rand_gen := g\<rparr>) \<and> 0 \<le> u \<and> u < 1 \<and> is_seeded g"
proof -
  let ?x = "stdgen (rand_gen gs) 0"
  let ?g = "(rand_gen gs)\<lparr>stdgen := (\<lambda>i. stdgen (rand_gen gs) (Suc i))\<rparr>"
  have e: "gen_rand01 gs = Some (real (unat ?x) / 2 ^ 32, gs\<lparr>rand_gen := ?g\<rparr>)"
    using assms by (simp add: gen_rand01_def rand01_def stdgen_call_def)
  have "unat ?x < 2 ^ 32" using unsigned_less[of ?x] by simp
  then have "real (unat ?x) < real (2 ^ 32)" by (simp only: of_nat_less_iff)
  then have "real (unat ?x) / 2 ^ 32 < 1" by simp
  moreover have "0 \<le> real (unat ?x) / 2 ^ 32"
    by (rule divide_nonneg_nonneg) (simp_all only: of_nat_0_le_iff zero_le_power zero_le_numeral)
  moreover have "is_seeded ?g" using assms by simp
  ultimately show ?thesis using e by blast
qed

lemma sqrt_down_sq: "sqrt_down k b * sqrt_down k b \<le> k"
  by (induction b) auto

lemma int_sqrt_less:
  assumes "0 \<le> k" "k < sz * sz" "0 < sz"
  shows "0 \<le> int_sqrt k \<and> int_sqrt k < sz"
proof -
  define r where "r = sqrt_down (nat k) (nat k)"
  have "int (r * r) \<le> int (nat k)"
    unfolding r_def using sqrt_down_sq[of "nat k" "nat k"] by (simp only: of_nat_le_iff)
  then have a: "int r * int r \<le> k" using assms(1) by simp
  have "sz * sz \<le> int r * int r" if "sz \<le> int r"
    using that assms(3) by (intro mult_mono) simp_all
  with a assms(2) have "int r < sz" by linarith
  then show ?thesis by (simp add: int_sqrt_def r_def)
qed

subsection \<open>The invariant of the generator\<close>

declare arc_loop.simps [simp del] ladder_loop.simps [simp del] platform_loop.simps [simp del]
  crates_pass.simps [simp del] place_coins_loop.simps [simp del]

definition ginv :: "Maze \<Rightarrow> bool" where
  "ginv m \<longleftrightarrow> minv m \<and> coinless m"

lemma ginv_wf64: "ginv m \<Longrightarrow> wf64 m"
  by (simp add: ginv_def minv_def)

lemma in_grid_walls_upd [simp]: "in_grid (m\<lparr>walls := ws\<rparr>) = in_grid m"
  by (simp add: in_grid_def fun_eq_iff)

lemma set_elem_border:
  assumes "minv m" "in_grid m x y"
    and "x = 0 \<or> x = 63 \<or> y = 0 \<or> y = 12 \<Longrightarrow> is_wall v False"
  shows "\<exists>m'. set_elem m x y v = Some m' \<and> minv m' \<and> m' = m\<lparr>walls := (walls m)[nat (64 * y + x) := v]\<rparr>
            \<and> (\<forall>x' y'. in_grid m x' y' \<longrightarrow> cell m' x' y' = (if x' = x \<and> y' = y then v else cell m x' y'))"
proof -
  from assms(1) have wf: "wf64 m" and b: "border_solid m" by (simp_all add: minv_def)
  from assms(2) wf have idx: "0 \<le> 64 * y + x" "64 * y + x < 832" by (auto simp: in_grid_def wf64_def)
  let ?m = "m\<lparr>walls := (walls m)[nat (64 * y + x) := v]\<rparr>"
  have s: "set_elem m x y v = Some ?m" using wf idx by (rule set_elem_wf64)
  have wf': "wf64 ?m" using wf by (simp add: wf64_def)
  have c: "\<forall>x' y'. in_grid m x' y' \<longrightarrow> cell ?m x' y' = (if x' = x \<and> y' = y then v else cell m x' y')"
    using cell_update[OF wf assms(2)] by simp
  have "border_solid ?m"
    unfolding border_solid_iff
  proof (intro allI impI)
    fix x' y' assume h: "in_grid ?m x' y' \<and> (x' = 0 \<or> x' = maze_w ?m - 1 \<or> y' = 0 \<or> y' = maze_h ?m - 1)"
    then have g: "in_grid m x' y'" by simp
    from h have old: "is_wall (cell m x' y') False" using b by (simp add: border_solid_iff)
    from h wf have bd: "x' = 0 \<or> x' = 63 \<or> y' = 0 \<or> y' = 12" by (auto simp: wf64_def)
    show "is_wall (cell ?m x' y') False"
    proof (cases "x' = x \<and> y' = y")
      case True
      with bd assms(3) g c show ?thesis by simp
    next
      case False
      with g c old show ?thesis by auto
    qed
  qed
  with s wf' c show ?thesis by (simp add: minv_def)
qed

lemma coinless_update:
  "coinless m \<Longrightarrow> v \<noteq> COIN_OBJ1 \<Longrightarrow> v \<noteq> COIN_OBJ2 \<Longrightarrow> coinless (m\<lparr>walls := (walls m)[i := v]\<rparr>)"
  using set_update_subset_insert[of "walls m" i v] by (auto simp: coinless_def)

lemma set_elem_ginv:
  assumes "ginv m" "in_grid m x y"
    and "x = 0 \<or> x = 63 \<or> y = 0 \<or> y = 12 \<Longrightarrow> is_wall v False"
    and "v \<noteq> COIN_OBJ1" "v \<noteq> COIN_OBJ2"
  shows "\<exists>m'. set_elem m x y v = Some m' \<and> ginv m'
            \<and> (\<forall>x' y'. in_grid m x' y' \<longrightarrow> cell m' x' y' = (if x' = x \<and> y' = y then v else cell m x' y'))"
proof -
  from assms(1) have "minv m" "coinless m" by (simp_all add: ginv_def)
  from set_elem_border[OF this(1) assms(2,3)] coinless_update[OF this(2) assms(4,5)]
  show ?thesis by (auto simp: ginv_def)
qed

lemma ginv_in_grid: "ginv m \<Longrightarrow> in_grid m x y \<longleftrightarrow> 0 \<le> x \<and> x < 64 \<and> 0 \<le> y \<and> y < 13"
  by (auto simp: ginv_def minv_def wf64_def in_grid_def)

lemma ginv_interior:
  assumes "ginv m" "0 \<le> x" "x < 64" "0 \<le> y" "y < 13" "\<not> is_wall (cell m x y) False"
  shows "1 \<le> x \<and> x \<le> 62 \<and> 1 \<le> y \<and> y \<le> 11"
  using interior_if_not_wall[of m x y] assms by (simp add: ginv_def ginv_in_grid)

lemma ginv_get:
  "ginv m \<Longrightarrow> 0 \<le> 64 * y + x \<Longrightarrow> 64 * y + x < 832 \<Longrightarrow> get_elem m x y = Some (cell m x y)"
  by (rule get_elem_wf64) (simp_all add: ginv_wf64)

lemma set_elems_ginv:
  assumes "v \<noteq> COIN_OBJ1" "v \<noteq> COIN_OBJ2"
  shows "ginv m \<Longrightarrow> \<forall>(x, y)\<in>set ps. 1 \<le> x \<and> x \<le> 62 \<and> 1 \<le> y \<and> y \<le> 11 \<Longrightarrow>
         \<exists>m'. set_elems m ps v = Some m' \<and> ginv m'"
proof (induction ps arbitrary: m)
  case Nil
  then show ?case by simp
next
  case (Cons p ps)
  obtain x y where p: "p = (x, y)" by (cases p)
  with Cons.prems have r: "1 \<le> x" "x \<le> 62" "1 \<le> y" "y \<le> 11" by auto
  then have "in_grid m x y" using Cons.prems(1) by (simp add: ginv_in_grid)
  from set_elem_ginv[OF Cons.prems(1) this _ assms] r
  obtain m1 where m1: "set_elem m x y v = Some m1" "ginv m1" by auto
  from Cons.IH[OF m1(2)] Cons.prems(2) obtain m' where "set_elems m1 ps v = Some m'" "ginv m'"
    by auto
  with m1 show ?case by (simp add: p)
qed

lemma arc_loop_ginv:
  "ginv m \<Longrightarrow>
   \<exists>ok ix' iy' m'. arc_loop s vx vy x y ix iy m = Some (ok, ix', iy', m') \<and> ginv m'
      \<and> (ok \<longrightarrow> (ix' = ix \<and> iy' = iy) \<or> (1 \<le> ix' \<and> ix' \<le> 62 \<and> 1 \<le> iy' \<and> iy' \<le> 10))"
proof (induction s arbitrary: vy x y ix iy m)
  case 0
  then show ?case by (auto simp: arc_loop.simps)
next
  case (Suc s)
  define vy1 where "vy1 = vy - GRAVITY"
  define x1 where "x1 = x + vx"
  define y1 where "y1 = y + vy1"
  define cx where "cx = c_int x1"
  define cy where "cy = c_int y1"
  have w: "maze_w m = 64" "maze_h m = 13" using Suc.prems by (simp_all add: ginv_def minv_def wf64_def)
  show ?case
  proof (cases "ix \<noteq> cx \<or> iy \<noteq> cy")
    case False
    then have e: "arc_loop (Suc s) vx vy x y ix iy m = arc_loop s vx vy1 x1 y1 ix iy m"
      by (simp add: arc_loop.simps Let_def vy1_def x1_def y1_def cx_def cy_def)
    from Suc.IH[OF Suc.prems, of vy1 x1 y1 ix iy] show ?thesis unfolding e .
  next
    case True
    show ?thesis
    proof (cases "cx < 1 \<or> cx \<ge> 63 \<or> cy < 1 \<or> cy \<ge> 11")
      case out: True
      then have "arc_loop (Suc s) vx vy x y ix iy m = Some (False, cx, cy, m)"
        using True w by (simp add: arc_loop.simps Let_def vy1_def x1_def y1_def cx_def cy_def)
      then show ?thesis using Suc.prems by auto
    next
      case inside: False
      then have r: "1 \<le> cx" "cx \<le> 62" "1 \<le> cy" "cy \<le> 10" by auto
      then have g: "get_elem m cx cy = Some (cell m cx cy)"
        using Suc.prems by (intro ginv_get) auto
      show ?thesis
      proof (cases "cell m cx cy \<noteq> SPACE \<and> cell m cx cy \<noteq> CHR '' ''")
        case blocked: True
        then have "arc_loop (Suc s) vx vy x y ix iy m = Some (False, cx, cy, m)"
          using True inside w g by (simp add: arc_loop.simps Let_def vy1_def x1_def y1_def cx_def cy_def)
        then show ?thesis using Suc.prems by auto
      next
        case free: False
        have ig: "in_grid m cx cy" using r Suc.prems by (simp add: ginv_in_grid)
        from set_elem_ginv[OF Suc.prems ig, of "CHR '' ''"] r
        obtain m1 where m1: "set_elem m cx cy (CHR '' '') = Some m1" "ginv m1" by auto
        have e: "arc_loop (Suc s) vx vy x y ix iy m = arc_loop s vx vy1 x1 y1 cx cy m1"
          using True inside w g free m1(1)
          by (auto simp add: arc_loop.simps Let_def vy1_def x1_def y1_def cx_def cy_def)
        from Suc.IH[OF m1(2), of vy1 x1 y1 cx cy] r show ?thesis unfolding e by auto
      qed
    qed
  qed
qed


lemma ladder_loop_ginv:
  assumes "ginv m" "0 \<le> ix" "ix < 64"
  shows "1 \<le> iy \<Longrightarrow> iy \<le> 9 \<Longrightarrow>
     \<exists>res. ladder_loop s m ix iy fut = Some res
        \<and> (case res of (ok, iy', fut') \<Rightarrow>
              ok \<longrightarrow> iy' = iy + int s \<and> iy' \<le> 9
              \<and> (\<forall>j. 1 \<le> j \<and> j \<le> int s \<longrightarrow> cell m ix (iy + j) = SPACE)
              \<and> set fut' \<subseteq> set fut \<union> {ix} \<times> {iy ..< iy + int s})"
proof (induction s arbitrary: iy fut)
  case 0
  have "cell m ix (iy + j) = SPACE" if "1 \<le> j \<and> j \<le> 0" for j :: int
    using that by linarith
  with 0 show ?case by (simp add: ladder_loop.simps)
next
  case (Suc s)
  define iy1 where "iy1 = iy + 1"
  have r: "2 \<le> iy1" "iy1 \<le> 10" using Suc.prems by (simp_all add: iy1_def)
  have g: "get_elem m ix iy1 = Some (cell m ix iy1)"
       "get_elem m (ix - 1) iy1 = Some (cell m (ix - 1) iy1)"
       "get_elem m (ix + 1) iy1 = Some (cell m (ix + 1) iy1)"
    using r assms(2,3) by (simp_all add: ginv_get[OF assms(1)])
  have h: "maze_h m = 13" using assms(1) by (simp add: ginv_def minv_def wf64_def)
  show ?case
  proof (cases "iy1 \<ge> 10 \<or> cell m ix iy1 \<noteq> SPACE \<or> cell m (ix - 1) iy1 = LADDER \<or> cell m (ix + 1) iy1 = LADDER")
    case True
    then have "ladder_loop (Suc s) m ix iy fut = Some (False, iy1, fut @ [(ix, iy)])"
      using g h by (auto simp add: ladder_loop.simps Let_def iy1_def)
    then show ?thesis by simp
  next
    case False
    then have e: "ladder_loop (Suc s) m ix iy fut = ladder_loop s m ix iy1 (fut @ [(ix, iy)])"
      using g h by (auto simp add: ladder_loop.simps Let_def iy1_def)
    from False r have r1: "1 \<le> iy1" "iy1 \<le> 9" and sp: "cell m ix iy1 = SPACE" by auto
    from Suc.IH[OF r1, of "fut @ [(ix, iy)]"]
    obtain rs where res0: "ladder_loop s m ix iy1 (fut @ [(ix, iy)]) = Some rs"
      and post0: "case rs of (ok, iy', fut') \<Rightarrow> ok \<longrightarrow> iy' = iy1 + int s \<and> iy' \<le> 9
              \<and> (\<forall>j. 1 \<le> j \<and> j \<le> int s \<longrightarrow> cell m ix (iy1 + j) = SPACE)
              \<and> set fut' \<subseteq> set (fut @ [(ix, iy)]) \<union> {ix} \<times> {iy1 ..< iy1 + int s}"
      by blast
    obtain ok iy' fut' where rs: "rs = (ok, iy', fut')" by (cases rs)
    have res: "ladder_loop s m ix iy1 (fut @ [(ix, iy)]) = Some (ok, iy', fut')"
      using res0 rs by simp
    have post: "ok \<longrightarrow> iy' = iy1 + int s \<and> iy' \<le> 9
              \<and> (\<forall>j. 1 \<le> j \<and> j \<le> int s \<longrightarrow> cell m ix (iy1 + j) = SPACE)
              \<and> set fut' \<subseteq> set (fut @ [(ix, iy)]) \<union> {ix} \<times> {iy1 ..< iy1 + int s}"
      using post0 unfolding rs prod.case .
    have "ok \<longrightarrow> (\<forall>j. 1 \<le> j \<and> j \<le> int (Suc s) \<longrightarrow> cell m ix (iy + j) = SPACE)"
    proof (intro impI allI)
      fix j assume ok and j: "1 \<le> j \<and> j \<le> int (Suc s)"
      show "cell m ix (iy + j) = SPACE"
      proof (cases "j = 1")
        case True
        then show ?thesis using sp by (simp add: iy1_def)
      next
        case False
        with j have "1 \<le> j - 1 \<and> j - 1 \<le> int s" by auto
        with post \<open>ok\<close> have "cell m ix (iy1 + (j - 1)) = SPACE" by blast
        then show ?thesis by (simp add: iy1_def)
      qed
    qed
    moreover have "ok \<longrightarrow> set fut' \<subseteq> set fut \<union> {ix} \<times> {iy ..< iy + int (Suc s)}"
    proof
      assume ok
      with post have "set fut' \<subseteq> set (fut @ [(ix, iy)]) \<union> {ix} \<times> {iy1 ..< iy1 + int s}" by blast
      also have "\<dots> \<subseteq> set fut \<union> {ix} \<times> {iy ..< iy + int (Suc s)}"
        by (auto simp: iy1_def)
      finally show "set fut' \<subseteq> set fut \<union> {ix} \<times> {iy ..< iy + int (Suc s)}" .
    qed
    moreover have "ok \<longrightarrow> iy' = iy + int (Suc s) \<and> iy' \<le> 9"
    proof
      assume ok
      with post have "iy' = iy1 + int s" "iy' \<le> 9" by blast+
      then show "iy' = iy + int (Suc s) \<and> iy' \<le> 9" by (simp add: iy1_def)
    qed
    ultimately have "ok \<longrightarrow> iy' = iy + int (Suc s) \<and> iy' \<le> 9
              \<and> (\<forall>j. 1 \<le> j \<and> j \<le> int (Suc s) \<longrightarrow> cell m ix (iy + j) = SPACE)
              \<and> set fut' \<subseteq> set fut \<union> {ix} \<times> {iy ..< iy + int (Suc s)}"
      by blast
    then show ?thesis unfolding e res
      by (intro exI[of _ "(ok, iy', fut')"] conjI refl) (simp only: prod.case)
  qed
qed


lemma platform_loop_ginv:
  assumes "1 \<le> iy" "iy \<le> 9"
  shows "ginv m \<Longrightarrow> 1 \<le> ix \<Longrightarrow> ix \<le> 62 \<Longrightarrow>
     \<exists>res. platform_loop k len vx shift iy ix (m, rs, cr, ca) = Some res
        \<and> (case res of (m', rs', cr', ca') \<Rightarrow> ginv m'
              \<and> set rs' \<subseteq> set rs \<union> {1..62} \<times> {iy + 1} \<and> length rs' \<le> length rs + k
              \<and> set cr' \<subseteq> set cr \<union> {1..62} \<times> {iy + 1} \<and> length cr' \<le> length cr + k
              \<and> set ca' \<subseteq> set ca \<union> {1..62} \<times> {iy + 1} \<and> length ca' \<le> length ca + k)"
proof (induction k arbitrary: ix m rs cr ca)
  case 0
  then show ?case by (simp add: platform_loop.simps)
next
  case (Suc k)
  define ix1 where "ix1 = ix + (if vx > 0 then 1 else -1)"
  define platform where "platform = len - (int k + 1)"
  have r: "0 \<le> ix1" "ix1 \<le> 63" using Suc.prems by (simp_all add: ix1_def)
  have g: "get_elem m ix1 iy = Some (cell m ix1 iy)"
    using r assms by (simp add: ginv_get[OF Suc.prems(1)])
  show ?case
  proof (cases "cell m ix1 iy = CHR '' '' \<or> cell m ix1 iy = SPACE")
    case False
    show ?thesis
    proof (cases "cell m ix1 iy = CHR ''a'' \<or> cell m ix1 iy = CHR ''b''")
      case True
      have ig: "in_grid m ix1 iy" using r assms Suc.prems(1) by (simp add: ginv_in_grid)
      from set_elem_ginv[OF Suc.prems(1) ig, of WALL_SURFACE]
      obtain m1 where m1: "set_elem m ix1 iy WALL_SURFACE = Some m1" "ginv m1"
        by (auto simp: is_wall_def)
      have "platform_loop (Suc k) len vx shift iy ix (m, rs, cr, ca) = Some (m1, rs, cr, ca)"
        using g False True m1(1) by (auto simp add: platform_loop.simps Let_def ix1_def)
      then show ?thesis using m1(2) by simp
    next
      case nab: False
      have "platform_loop (Suc k) len vx shift iy ix (m, rs, cr, ca) = Some (m, rs, cr, ca)"
        using g False nab by (auto simp add: platform_loop.simps Let_def ix1_def)
      then show ?thesis using Suc.prems(1) by simp
    qed
  next
    case True
    then have nw: "\<not> is_wall (cell m ix1 iy) False" by (auto simp: is_wall_def)
    from ginv_interior[OF Suc.prems(1) _ _ _ _ nw] r assms
    have r1: "1 \<le> ix1" "ix1 \<le> 62" by auto
    have ig: "in_grid m ix1 iy" using r assms Suc.prems(1) by (simp add: ginv_in_grid)
    define v where "v = (if platform < len - 1 then WALL_SURFACE else (if vx > 0 then CHR ''b'' else CHR ''a''))"
    have vc: "v \<noteq> COIN_OBJ1" "v \<noteq> COIN_OBJ2" by (simp_all add: v_def)
    from set_elem_ginv[OF Suc.prems(1) ig _ vc] r1 assms
    obtain m1 where m1: "set_elem m ix1 iy v = Some m1" "ginv m1" by auto
    define p where "p = (ix1, iy + 1)"
    define cond where "cond \<longleftrightarrow> c_rem (c_int (real_of_int ix1 * (2 / 10) + real_of_int iy + real_of_int shift)) 4 = 0"
    define cr1 where "cr1 = (if cond then cr @ [p] else cr)"
    define ca1 where "ca1 = (if \<not> cond \<and> platform > 0 \<and> platform < len - 1 then ca @ [p] else ca)"
    have e: "platform_loop (Suc k) len vx shift iy ix (m, rs, cr, ca)
             = platform_loop k len vx shift iy ix1 (m1, rs @ [p], cr1, ca1)"
      using g True m1(1)
      by (auto simp add: platform_loop.simps Let_def ix1_def platform_def
          v_def p_def cond_def cr1_def ca1_def)
    from Suc.IH[OF m1(2) r1, of "rs @ [p]" cr1 ca1]
    obtain res where res: "platform_loop k len vx shift iy ix1 (m1, rs @ [p], cr1, ca1) = Some res"
      and post0: "case res of (m', rs', cr', ca') \<Rightarrow> ginv m'
              \<and> set rs' \<subseteq> set (rs @ [p]) \<union> {1..62} \<times> {iy + 1} \<and> length rs' \<le> length (rs @ [p]) + k
              \<and> set cr' \<subseteq> set cr1 \<union> {1..62} \<times> {iy + 1} \<and> length cr' \<le> length cr1 + k
              \<and> set ca' \<subseteq> set ca1 \<union> {1..62} \<times> {iy + 1} \<and> length ca' \<le> length ca1 + k"
      by blast
    obtain m' rs' cr' ca' where rr: "res = (m', rs', cr', ca')" by (cases res)
    note post = post0[unfolded rr prod.case]
    have pin: "p \<in> {1..62} \<times> {iy + 1}" using r1 by (simp add: p_def)
    have s1: "set (rs @ [p]) \<subseteq> set rs \<union> {1..62} \<times> {iy + 1}" using pin by auto
    have s2: "set cr1 \<subseteq> set cr \<union> {1..62} \<times> {iy + 1}" using pin by (auto simp: cr1_def)
    have s3: "set ca1 \<subseteq> set ca \<union> {1..62} \<times> {iy + 1}" using pin by (auto simp: ca1_def)
    have l2: "length cr1 \<le> length cr + 1" by (simp add: cr1_def)
    have l3: "length ca1 \<le> length ca + 1" by (simp add: ca1_def)
    have "ginv m'" using post by blast
    moreover have "set rs' \<subseteq> set rs \<union> {1..62} \<times> {iy + 1}" using post s1 by blast
    moreover have "set cr' \<subseteq> set cr \<union> {1..62} \<times> {iy + 1}" using post s2 by blast
    moreover have "set ca' \<subseteq> set ca \<union> {1..62} \<times> {iy + 1}" using post s3 by blast
    moreover have "length rs' \<le> length rs + Suc k" using post by simp
    moreover have "length cr' \<le> length cr + Suc k" using post l2 by linarith
    moreover have "length ca' \<le> length ca + Suc k" using post l3 by linarith
    ultimately show ?thesis unfolding e res rr by simp
  qed
qed


definition gen_inv :: "RandomMazeGenerator \<Rightarrow> bool" where
  "gen_inv gs \<longleftrightarrow> ginv (gen_maze gs) \<and> is_seeded (rand_gen gs)
                 \<and> set (rec_stack gs) \<subseteq> {0..63} \<times> {1..11}"

lemma gen_inv_randn:
  assumes "gen_inv gs" "0 < n" "n < 2 ^ 31"
  shows "\<exists>v g. randn gs n = Some (v, gs\<lparr>rand_gen := g\<rparr>) \<and> 0 \<le> v \<and> v < n
            \<and> gen_inv (gs\<lparr>rand_gen := g\<rparr>)"
proof -
  from assms(1) have "is_seeded (rand_gen gs)" by (simp add: gen_inv_def)
  from randn_range[OF this assms(2,3)] obtain v g where
    "randn gs n = Some (v, gs\<lparr>rand_gen := g\<rparr>)" "0 \<le> v" "v < n" "is_seeded g" by blast
  moreover from this assms(1) have "gen_inv (gs\<lparr>rand_gen := g\<rparr>)" by (simp add: gen_inv_def)
  ultimately show ?thesis by blast
qed

lemma crate_weight_Cons: "crate_weight ht ((x, y) # cs) = 1 + nat (ht - 1 - y) + crate_weight ht cs"
  by (simp add: crate_weight_def)

lemma crates_pass_inv:
  "gen_inv gs \<Longrightarrow> set cs \<subseteq> {1..62} \<times> {1..11} \<Longrightarrow>
   \<exists>res. crates_pass cs gs = Some res
      \<and> (case res of (cs', gs') \<Rightarrow> gen_inv gs' \<and> set cs' \<subseteq> {1..62} \<times> {1..11}
            \<and> length (rec_stack gs') + crate_weight 13 cs'
                \<le> length (rec_stack gs) + crate_weight 13 cs)"
proof (induction cs arbitrary: gs)
  case Nil
  then show ?case by (simp add: crates_pass.simps)
next
  case (Cons c cs)
  obtain x y where c: "c = (x, y)" by (cases c)
  from Cons.prems(2) have r: "1 \<le> x" "x \<le> 62" "1 \<le> y" "y \<le> 11"
    and cs: "set cs \<subseteq> {1..62} \<times> {1..11}" by (auto simp: c)
  define m where "m = gen_maze gs"
  have gm: "ginv m" using Cons.prems(1) by (simp add: gen_inv_def m_def)
  have h: "maze_h m = 13" using gm by (simp add: ginv_def minv_def wf64_def)
  have g: "get_elem m x y = Some (cell m x y)" "get_elem m (x - 1) y = Some (cell m (x - 1) y)"
    "get_elem m (x + 1) y = Some (cell m (x + 1) y)" "get_elem m x (y + 1) = Some (cell m x (y + 1))"
    using r by (simp_all add: ginv_get[OF gm])
  from gen_inv_randn[OF Cons.prems(1), of 4] obtain v g1 where
    rn: "randn gs 4 = Some (v, gs\<lparr>rand_gen := g1\<rparr>)" and gi1: "gen_inv (gs\<lparr>rand_gen := g1\<rparr>)"
    by auto
  define want where "want = 2 + (if is_crat (cell m (x - 1) y) then 1 else 0)
                       + (if is_crat (cell m (x + 1) y) then 1 else 0)
                       - (if cell m (x + 1) y = LADDER then 1 else 0)
                       - (if cell m (x - 1) y = LADDER then 1 else 0)
                       - (if is_wall (cell m x (y + 1)) False then (1::int) else 0)"
  define m2o where "m2o = (if cell m x y = CHR '' '' \<or> cell m x y = SPACE
                           then set_elem m x y choose_crate else Some m)"
  have step: "crates_pass (c # cs) gs =
      (if v < want \<and> y < 11 then
         do { m' \<leftarrow> m2o;
              (cs, gs) \<leftarrow> crates_pass cs (gs\<lparr>rand_gen := g1, gen_maze := m',
                                                 rec_stack := rec_stack gs @ [(x, y + 1)]\<rparr>);
              Some ((x, y + 1) # cs, gs) }
       else crates_pass cs (gs\<lparr>rand_gen := g1\<rparr>))"
    using g rn h
    by (simp add: c crates_pass.simps Let_def m_def[symmetric] want_def m2o_def split del: if_split cong: if_cong)
  show ?case
  proof (cases "v < want \<and> y < 11")
    case False
    have e: "crates_pass (c # cs) gs = crates_pass cs (gs\<lparr>rand_gen := g1\<rparr>)"
      by (simp only: step if_not_P[OF False])
    from Cons.IH[OF gi1 cs] obtain res where
      res: "crates_pass cs (gs\<lparr>rand_gen := g1\<rparr>) = Some res" and
      post0: "case res of (cs', gs') \<Rightarrow> gen_inv gs' \<and> set cs' \<subseteq> {1..62} \<times> {1..11}
            \<and> length (rec_stack gs') + crate_weight 13 cs'
                \<le> length (rec_stack (gs\<lparr>rand_gen := g1\<rparr>)) + crate_weight 13 cs"
      by blast
    obtain cs' gs' where rr: "res = (cs', gs')" by (cases res)
    note post = post0[unfolded rr prod.case]
    have "length (rec_stack gs') + crate_weight 13 cs' \<le> length (rec_stack gs) + crate_weight 13 (c # cs)"
      using post by (simp add: c crate_weight_Cons)
    with post show ?thesis unfolding e res rr by simp
  next
    case True
    have ig: "in_grid m x y" using r gm by (simp add: ginv_in_grid)
    from set_elem_ginv[OF gm ig, of choose_crate] r
    obtain m2 where m2: "set_elem m x y choose_crate = Some m2" "ginv m2"
      by (auto simp: choose_crate_def)
    define m3 where "m3 = (if cell m x y = CHR '' '' \<or> cell m x y = SPACE then m2 else m)"
    have gm3: "ginv m3" using gm m2(2) by (simp add: m3_def)
    have m2o: "m2o = Some m3" using m2(1) by (simp add: m2o_def m3_def)
    define gs2 where "gs2 = gs\<lparr>rand_gen := g1, gen_maze := m3, rec_stack := rec_stack gs @ [(x, y + 1)]\<rparr>"
    have gi2: "gen_inv gs2"
      using gi1 gm3 r True by (auto simp: gen_inv_def gs2_def)
    have e: "crates_pass (c # cs) gs
             = do { (cs, gs) \<leftarrow> crates_pass cs gs2; Some ((x, y + 1) # cs, gs) }"
      by (simp only: step if_P[OF True] m2o gs2_def Option.bind.simps)
    from Cons.IH[OF gi2 cs] obtain res where
      res: "crates_pass cs gs2 = Some res" and
      post0: "case res of (cs', gs') \<Rightarrow> gen_inv gs' \<and> set cs' \<subseteq> {1..62} \<times> {1..11}
            \<and> length (rec_stack gs') + crate_weight 13 cs'
                \<le> length (rec_stack gs2) + crate_weight 13 cs"
      by blast
    obtain cs' gs' where rr: "res = (cs', gs')" by (cases res)
    note post = post0[unfolded rr prod.case]
    have l: "length (rec_stack gs2) = length (rec_stack gs) + 1" by (simp add: gs2_def)
    have "nat (13 - 1 - (y + 1)) + 1 = nat (13 - 1 - y)" using True by linarith
    then have "length (rec_stack gs') + crate_weight 13 ((x, y + 1) # cs')
               \<le> length (rec_stack gs) + crate_weight 13 (c # cs)"
      using post l unfolding c crate_weight_Cons by linarith
    moreover have "set ((x, y + 1) # cs') \<subseteq> {1..62} \<times> {1..11}"
      using post r True by auto
    ultimately show ?thesis using post unfolding e res rr by simp
  qed
qed

lemma crates_loop_inv:
  "gen_inv gs \<Longrightarrow> set cs \<subseteq> {1..62} \<times> {1..11} \<Longrightarrow>
   \<exists>gs'. crates_loop cs gs = Some gs' \<and> gen_inv gs'
      \<and> length (rec_stack gs') \<le> length (rec_stack gs) + crate_weight 13 cs"
proof (induction "crate_weight 13 cs" arbitrary: cs gs rule: less_induct)
  case less
  show ?case
  proof (cases "cs = []")
    case True
    then show ?thesis using less.prems by (simp add: crates_loop.simps)
  next
    case False
    from crates_pass_inv[OF less.prems] obtain res where
      res: "crates_pass cs gs = Some res" and
      post0: "case res of (cs', gs') \<Rightarrow> gen_inv gs' \<and> set cs' \<subseteq> {1..62} \<times> {1..11}
            \<and> length (rec_stack gs') + crate_weight 13 cs'
                \<le> length (rec_stack gs) + crate_weight 13 cs"
      by blast
    obtain cs1 gs1 where rr: "res = (cs1, gs1)" by (cases res)
    note post = post0[unfolded rr prod.case]
    have h: "maze_h (gen_maze gs) = 13" using less.prems(1)
      by (simp add: gen_inv_def ginv_def minv_def wf64_def)
    from crates_pass_weight[OF res[unfolded rr]] False h
    have dec: "crate_weight 13 cs1 < crate_weight 13 cs" by simp
    from less.hyps[OF dec] post obtain gs' where
      l: "crates_loop cs1 gs1 = Some gs'" "gen_inv gs'"
         "length (rec_stack gs') \<le> length (rec_stack gs1) + crate_weight 13 cs1"
      by blast
    have "crates_loop cs gs = crates_loop cs1 gs1"
      using False res rr by (subst crates_loop.simps) simp
    moreover have "length (rec_stack gs') \<le> length (rec_stack gs) + crate_weight 13 cs"
      using l(3) post by linarith
    ultimately show ?thesis using l by simp
  qed
qed

lemma c_int_ge0: "-1 < r \<Longrightarrow> 0 \<le> c_int r"
  by (auto simp: c_int_def)

lemma arc_loop_start:
  assumes "ginv m" "-1 < x + vx"
  shows "\<exists>res. arc_loop (Suc s) vx vy x y (-1) (-1) m = Some res
      \<and> (case res of (ok, ix', iy', m') \<Rightarrow> ginv m'
           \<and> (ok \<longrightarrow> 1 \<le> ix' \<and> ix' \<le> 62 \<and> 1 \<le> iy' \<and> iy' \<le> 10))"
proof -
  define vy1 where "vy1 = vy - GRAVITY"
  define x1 where "x1 = x + vx"
  define y1 where "y1 = y + vy1"
  define cx where "cx = c_int x1"
  define cy where "cy = c_int y1"
  have w: "maze_w m = 64" "maze_h m = 13" using assms(1) by (simp_all add: ginv_def minv_def wf64_def)
  have True: "-1 \<noteq> cx \<or> -1 \<noteq> cy"
    using c_int_ge0[OF assms(2)] by (simp add: cx_def x1_def)
  show ?thesis
  proof (cases "cx < 1 \<or> cx \<ge> 63 \<or> cy < 1 \<or> cy \<ge> 11")
    case out: True
    then have "arc_loop (Suc s) vx vy x y (-1) (-1) m = Some (False, cx, cy, m)"
      using True w by (simp add: arc_loop.simps Let_def vy1_def x1_def y1_def cx_def cy_def)
    then show ?thesis using assms(1) by simp
  next
    case inside: False
    then have r: "1 \<le> cx" "cx \<le> 62" "1 \<le> cy" "cy \<le> 10" by auto
    then have g: "get_elem m cx cy = Some (cell m cx cy)"
      using assms(1) by (intro ginv_get) auto
    show ?thesis
    proof (cases "cell m cx cy \<noteq> SPACE \<and> cell m cx cy \<noteq> CHR '' ''")
      case blocked: True
      then have "arc_loop (Suc s) vx vy x y (-1) (-1) m = Some (False, cx, cy, m)"
        using True inside w g by (simp add: arc_loop.simps Let_def vy1_def x1_def y1_def cx_def cy_def)
      then show ?thesis using assms(1) by simp
    next
      case free: False
      have ig: "in_grid m cx cy" using r assms(1) by (simp add: ginv_in_grid)
      from set_elem_ginv[OF assms(1) ig, of "CHR '' ''"] r
      obtain m1 where m1: "set_elem m cx cy (CHR '' '') = Some m1" "ginv m1" by auto
      have e: "arc_loop (Suc s) vx vy x y (-1) (-1) m = arc_loop s vx vy1 x1 y1 cx cy m1"
        using True inside w g free m1(1)
        by (auto simp add: arc_loop.simps Let_def vy1_def x1_def y1_def cx_def cy_def)
      from arc_loop_ginv[OF m1(2), of s vx vy1 x1 y1 cx cy] r show ?thesis unfolding e by auto
    qed
  qed
qed

lemma jump_branch_inv:
  assumes "gen_inv gs" "-1 < real_of_int (fst r) + vx" "2 \<le> jump_top" "jump_top < 2 ^ 31"
  shows "\<exists>res. jump_branch gs r vx vy jump_top = Some res
      \<and> (case res of (ok, ix, iy, gs') \<Rightarrow> gen_inv gs' \<and> rec_stack gs' = rec_stack gs
           \<and> (ok \<longrightarrow> 1 \<le> ix \<and> ix \<le> 62 \<and> 1 \<le> iy \<and> iy \<le> 10))"
proof -
  have "0 < jump_top div 2" "jump_top div 2 < 2 ^ 31" using assms(3,4) by simp_all
  from gen_inv_randn[OF assms(1) this] obtain v g where
    rn: "randn gs (jump_top div 2) = Some (v, gs\<lparr>rand_gen := g\<rparr>)" and v: "0 \<le> v"
    and gi: "gen_inv (gs\<lparr>rand_gen := g\<rparr>)" by blast
  obtain s where s: "nat (jump_top + v) = Suc s" using v assms(3) by (cases "nat (jump_top + v)") auto
  have gm: "ginv (gen_maze gs)" using assms(1) by (simp add: gen_inv_def)
  from arc_loop_start[OF gm assms(2), of s vy "real_of_int (snd r + 1)"] obtain res where
    res: "arc_loop (Suc s) vx vy (real_of_int (fst r)) (real_of_int (snd r + 1)) (-1) (-1) (gen_maze gs) = Some res"
    and post0: "case res of (ok, ix', iy', m') \<Rightarrow> ginv m'
           \<and> (ok \<longrightarrow> 1 \<le> ix' \<and> ix' \<le> 62 \<and> 1 \<le> iy' \<and> iy' \<le> 10)" by blast
  obtain ok ix iy m' where rr: "res = (ok, ix, iy, m')" by (cases res)
  note post = post0[unfolded rr prod.case]
  have e: "jump_branch gs r vx vy jump_top = Some (ok, ix, iy, gs\<lparr>rand_gen := g, gen_maze := m'\<rparr>)"
    using rn res rr s by (simp add: jump_branch_def Let_def)
  have "gen_inv (gs\<lparr>rand_gen := g, gen_maze := m'\<rparr>)" using gi post by (simp add: gen_inv_def)
  then show ?thesis using post unfolding e by simp
qed

lemma set_erase_at: "set (erase_at xs n) \<subseteq> set xs"
  unfolding erase_at_def using set_take_subset[of n xs] set_drop_subset[of "Suc n" xs] by auto

lemma length_erase_at: "length (erase_at xs n) \<le> length xs"
  unfolding erase_at_def by simp


lemma ladder_branch_inv:
  assumes "gen_inv gs" "r \<in> set (rec_stack gs)"
  shows "\<exists>res. ladder_branch gs r n = Some res
      \<and> (case res of (ok, ix, iy, gs') \<Rightarrow> gen_inv gs' \<and> length (rec_stack gs') \<le> length (rec_stack gs)
           \<and> (ok \<longrightarrow> 1 \<le> ix \<and> ix \<le> 62 \<and> 1 \<le> iy \<and> iy \<le> 10))"
proof -
  obtain ix iy where r: "r = (ix, iy)" by (cases r)
  define m where "m = gen_maze gs"
  have gm: "ginv m" using assms(1) by (simp add: gen_inv_def m_def)
  have h: "maze_h m = 13" using gm by (simp add: ginv_def minv_def wf64_def)
  have rg: "0 \<le> ix" "ix \<le> 63" "1 \<le> iy" "iy \<le> 11"
    using assms unfolding gen_inv_def r by auto
  show ?thesis
  proof (cases "iy \<ge> 10")
    case True
    then have "ladder_branch gs r n = Some (False, ix, iy, gs)"
      using h by (simp add: ladder_branch_def r Let_def m_def[symmetric])
    then show ?thesis using assms(1) by simp
  next
    case low: False
    have g0: "get_elem m ix iy = Some (cell m ix iy)"
      using rg by (intro ginv_get[OF gm]) auto
    have g1: "get_elem m ix (iy - 1) = Some (cell m ix (iy - 1))"
      using rg by (intro ginv_get[OF gm]) auto
    define on_crate where "on_crate \<longleftrightarrow> is_crat (cell m ix iy) \<or> is_crat (cell m ix (iy - 1))"
    have step: "ladder_branch gs r n =
        (if on_crate then Some (False, ix, iy, gs)
         else do {
          let gs = gs\<lparr>rec_stack := erase_at (rec_stack gs) n\<rparr>;
          (v, gs) \<leftarrow> randn gs 10;
          let ladder_len = 5 + v;
          (ok, iy, future_ladder) \<leftarrow> ladder_loop (nat ladder_len) m ix iy [];
          if \<not> ok then Some (False, ix, iy, gs)
          else do {
            m \<leftarrow> set_elems m future_ladder LADDER;
            m \<leftarrow> set_elem m ix iy LADDER;
            Some (True, ix, iy, gs\<lparr>gen_maze := m\<rparr>) } })"
      using low h g0 g1
      by (cases "is_crat (cell m ix iy)")
         (simp_all add: ladder_branch_def r Let_def m_def[symmetric] on_crate_def
               split del: if_split cong: if_cong)
    show ?thesis
    proof (cases on_crate)
      case True
      then show ?thesis using assms(1) unfolding step by simp
    next
      case False
      define gs1 where "gs1 = gs\<lparr>rec_stack := erase_at (rec_stack gs) n\<rparr>"
      have gi1: "gen_inv gs1"
        using assms(1) set_erase_at[of "rec_stack gs" n] by (auto simp: gen_inv_def gs1_def)
      have l1: "length (rec_stack gs1) \<le> length (rec_stack gs)"
        by (simp add: gs1_def length_erase_at)
      from gen_inv_randn[OF gi1, of 10] obtain v g where
        rn: "randn gs1 10 = Some (v, gs1\<lparr>rand_gen := g\<rparr>)" and v: "0 \<le> v" "v < 10"
        and gi2: "gen_inv (gs1\<lparr>rand_gen := g\<rparr>)" by auto
      define gs2 where "gs2 = gs1\<lparr>rand_gen := g\<rparr>"
      have m2: "gen_maze gs2 = m" "rec_stack gs2 = rec_stack gs1"
        by (simp_all add: gs2_def gs1_def m_def)
      obtain s where s: "nat (5 + v) = Suc s" using v by (cases "nat (5 + v)") auto
      have sl: "int (Suc s) = 5 + v" using s v by linarith
      have iy9: "iy \<le> 9" using low by simp
      from ladder_loop_ginv[OF gm _ _ rg(3) iy9, of ix "Suc s" "[]"] rg obtain res where
        res: "ladder_loop (Suc s) m ix iy [] = Some res" and
        post0: "case res of (ok, iy', fut') \<Rightarrow>
              ok \<longrightarrow> iy' = iy + int (Suc s) \<and> iy' \<le> 9
              \<and> (\<forall>j. 1 \<le> j \<and> j \<le> int (Suc s) \<longrightarrow> cell m ix (iy + j) = SPACE)
              \<and> set fut' \<subseteq> set [] \<union> {ix} \<times> {iy ..< iy + int (Suc s)}"
        by auto
      obtain ok iy' fut where rr: "res = (ok, iy', fut)" by (cases res)
      note post = post0[unfolded rr prod.case]
      show ?thesis
      proof (cases ok)
        case nok: False
        have e: "ladder_branch gs r n = Some (False, ix, iy', gs2)"
          unfolding step using False rn res rr nok s
          by (simp add: Let_def gs1_def[symmetric] gs2_def)
        show ?thesis unfolding e using gi2 l1 m2 by (simp add: gs2_def)
      next
        case ok: True
        from post ok have p: "iy' = iy + int (Suc s)" "iy' \<le> 9"
          "\<forall>j. 1 \<le> j \<and> j \<le> int (Suc s) \<longrightarrow> cell m ix (iy + j) = SPACE"
          "set fut \<subseteq> {ix} \<times> {iy ..< iy + int (Suc s)}" by auto
        have "cell m ix (iy + 1) = SPACE" using p(3) by simp
        then have nw: "\<not> is_wall (cell m ix (iy + 1)) False" by (simp add: is_wall_def)
        have ixr: "1 \<le> ix" "ix \<le> 62"
          using ginv_interior[OF gm _ _ _ _ nw] rg iy9 by auto
        have "\<forall>(x, y)\<in>set fut. 1 \<le> x \<and> x \<le> 62 \<and> 1 \<le> y \<and> y \<le> 11"
          using p(1,2,4) ixr rg by auto
        from set_elems_ginv[OF _ _ gm this, of LADDER] obtain m3 where
          m3: "set_elems m fut LADDER = Some m3" "ginv m3" by auto
        have ig: "in_grid m3 ix iy'" using ixr p(1,2) rg m3(2) by (simp add: ginv_in_grid)
        from set_elem_ginv[OF m3(2) ig, of LADDER] ixr p(1,2) rg obtain m4 where
          m4: "set_elem m3 ix iy' LADDER = Some m4" "ginv m4" by (auto simp: is_wall_def)
        have e: "ladder_branch gs r n = Some (True, ix, iy', gs2\<lparr>gen_maze := m4\<rparr>)"
          unfolding step using False rn res rr ok s m3(1) m4(1)
          by (simp add: Let_def gs1_def[symmetric] gs2_def)
        have "gen_inv (gs2\<lparr>gen_maze := m4\<rparr>)"
          using gi2 m4(2) by (simp add: gen_inv_def gs2_def)
        then show ?thesis unfolding e using l1 m2 ixr p(1,2) rg by simp
      qed
    qed
  qed
qed


lemma set_elem_ginv_interior:
  assumes "ginv m" "1 \<le> x" "x \<le> 62" "1 \<le> y" "y \<le> 11" "v \<noteq> COIN_OBJ1" "v \<noteq> COIN_OBJ2"
  shows "\<exists>m'. set_elem m x y v = Some m' \<and> ginv m'"
proof -
  have ig: "in_grid m x y" using assms by (simp add: ginv_in_grid)
  have "x = 0 \<or> x = 63 \<or> y = 0 \<or> y = 12 \<Longrightarrow> is_wall v False" using assms by linarith
  from set_elem_ginv[OF assms(1) ig this assms(6,7)] show ?thesis by blast
qed

lemma crate_weight_bound:
  "set cs \<subseteq> {1..62} \<times> {1..11} \<Longrightarrow> crate_weight 13 cs \<le> 12 * length cs"
proof (induction cs)
  case Nil
  then show ?case by (simp add: crate_weight_def)
next
  case (Cons c cs)
  obtain x y where c: "c = (x, y)" by (cases c)
  from Cons.prems have "1 \<le> y" by (simp add: c)
  then have "nat (13 - 1 - y) \<le> 11" by linarith
  moreover have "crate_weight 13 cs \<le> 12 * length cs" using Cons by simp
  ultimately show ?case unfolding c crate_weight_Cons by simp
qed

lemma build_platform_inv:
  assumes "gen_inv gs" "1 \<le> ix" "ix \<le> 62" "1 \<le> iy" "iy \<le> 10"
  shows "\<exists>res. build_platform gs vx ix iy = Some res
      \<and> (case res of (ok, gs') \<Rightarrow> gen_inv gs'
            \<and> length (rec_stack gs') \<le> length (rec_stack gs) + 143)"
proof -
  define m where "m = gen_maze gs"
  have gm: "ginv m" using assms(1) by (simp add: gen_inv_def m_def)
  have h: "maze_h m = 13" using gm by (simp add: ginv_def minv_def wf64_def)
  have g0: "get_elem m ix iy = Some (cell m ix iy)"
    using assms by (intro ginv_get[OF gm]) auto
  show ?thesis
  proof (cases "iy \<ge> 10")
    case True
    then have "build_platform gs vx ix iy = Some (False, gs)"
      using h g0 by (simp add: build_platform_def m_def[symmetric])
    then show ?thesis using assms(1) by simp
  next
    case low: False
    then have iy9: "iy \<le> 9" by simp
    have ig: "in_grid m ix iy" using assms gm by (simp add: ginv_in_grid)
    define m1o where "m1o = (if cell m ix iy = SPACE \<or> cell m ix iy = CHR '' ''
                  then set_elem m ix iy (if vx > 0 then CHR ''a'' else CHR ''b'')
                  else Some m)"
    from set_elem_ginv[OF gm ig, of "if vx > 0 then CHR ''a'' else CHR ''b''"] assms
    obtain ma where ma: "set_elem m ix iy (if vx > 0 then CHR ''a'' else CHR ''b'') = Some ma" "ginv ma"
      by (cases "vx > 0") auto
    define m1 where "m1 = (if cell m ix iy = SPACE \<or> cell m ix iy = CHR '' '' then ma else m)"
    have m1o: "m1o = Some m1" using ma(1) by (simp add: m1o_def m1_def)
    have gm1: "ginv m1" using gm ma(2) by (simp add: m1_def)
    from gen_inv_randn[OF assms(1), of 10] obtain v g1 where
      rn1: "randn gs 10 = Some (v, gs\<lparr>rand_gen := g1\<rparr>)" and v: "0 \<le> v" "v < 10"
      and gi1: "gen_inv (gs\<lparr>rand_gen := g1\<rparr>)" by auto
    from gen_inv_randn[OF gi1, of 20] obtain shift g2 where
      rn2: "randn (gs\<lparr>rand_gen := g1\<rparr>) 20 = Some (shift, gs\<lparr>rand_gen := g2\<rparr>)"
      and gi2: "gen_inv (gs\<lparr>rand_gen := g2\<rparr>)" by auto
    define len where "len = 2 + v"
    from platform_loop_ginv[OF assms(4) iy9 gm1 assms(2,3), of "nat len" len vx shift "rec_stack gs" "[]" "[]"]
    obtain res where
      res: "platform_loop (nat len) len vx shift iy ix (m1, rec_stack gs, [], []) = Some res" and
      post0: "case res of (m', rs', cr', ca') \<Rightarrow> ginv m'
              \<and> set rs' \<subseteq> set (rec_stack gs) \<union> {1..62} \<times> {iy + 1} \<and> length rs' \<le> length (rec_stack gs) + nat len
              \<and> set cr' \<subseteq> set [] \<union> {1..62} \<times> {iy + 1} \<and> length cr' \<le> length ([]::Rec list) + nat len
              \<and> set ca' \<subseteq> set [] \<union> {1..62} \<times> {iy + 1} \<and> length ca' \<le> length ([]::Rec list) + nat len"
      by blast
    obtain m2 rs cr ca where rr: "res = (m2, rs, cr, ca)" by (cases res)
    note post = post0[unfolded rr prod.case]
    have p: "ginv m2" "set rs \<subseteq> set (rec_stack gs) \<union> {1..62} \<times> {iy + 1}"
      "length rs \<le> length (rec_stack gs) + 11"
      "set cr \<subseteq> {1..62} \<times> {iy + 1}" "length cr \<le> 11"
      "set ca \<subseteq> {1..62} \<times> {iy + 1}" "length ca \<le> 11"
      using post v by (auto simp: len_def)
    define gs3 where "gs3 = gs\<lparr>rand_gen := g2, gen_maze := m2, rec_stack := rs\<rparr>"
    have row: "{1..62::int} \<times> {iy + 1} \<subseteq> {0..63} \<times> {1..11::int}" using assms(4) iy9 by auto
    have row': "{1..62::int} \<times> {iy + 1} \<subseteq> {1..62} \<times> {1..11::int}" using assms(4) iy9 by auto
    have gi3: "gen_inv gs3"
      using gi2 p(1,2) row by (auto simp: gen_inv_def gs3_def)
    define mon where "mon = (if length ca > 1 then
                    do { (i, gs) \<leftarrow> randn gs3 (int (length ca));
                         r \<leftarrow> at_index ca i;
                         (v, gs) \<leftarrow> randn gs 10;
                         let should_be_ground_monster = (v \<ge> 8);
                         m \<leftarrow> set_elem (gen_maze gs) (fst r) (snd r)
                               (if should_be_ground_monster then GROUND_MONSTER else WALKING_MONSTER);
                         Some (gs\<lparr>gen_maze := m\<rparr>) }
                  else Some gs3)"
    have step: "build_platform gs vx ix iy =
        do { gs \<leftarrow> mon; gs \<leftarrow> crates_loop cr gs; Some (True, gs) }"
      using low h g0 m1o[unfolded m1o_def] rn1 rn2 res rr
      by (simp add: build_platform_def m_def[symmetric] Let_def len_def mon_def gs3_def
               split del: if_split cong: if_cong)
    have "\<exists>gs4. mon = Some gs4 \<and> gen_inv gs4 \<and> rec_stack gs4 = rs"
    proof (cases "length ca > 1")
      case False
      then show ?thesis using gi3 by (simp add: mon_def gs3_def)
    next
      case True
      have l31: "int (length ca) < 2 ^ 31" using p(7) by simp
      have l0: "0 < int (length ca)" using True by (cases ca) simp_all
      from gen_inv_randn[OF gi3 l0 l31] obtain i g3 where
        rn3: "randn gs3 (int (length ca)) = Some (i, gs3\<lparr>rand_gen := g3\<rparr>)"
        and i: "0 \<le> i" "i < int (length ca)"
        and gi4: "gen_inv (gs3\<lparr>rand_gen := g3\<rparr>)" by blast
      define r where "r = ca ! nat i"
      have ai: "at_index ca i = Some r" using i by (simp add: at_index_def r_def)
      have "r \<in> set ca" unfolding r_def using i by (intro nth_mem) linarith
      then have rin: "r \<in> {1..62} \<times> {iy + 1}" using p(6) by blast
      from gen_inv_randn[OF gi4, of 10] obtain v2 g4 where
        rn4: "randn (gs3\<lparr>rand_gen := g3\<rparr>) 10 = Some (v2, gs3\<lparr>rand_gen := g4\<rparr>)"
        and gi5: "gen_inv (gs3\<lparr>rand_gen := g4\<rparr>)" by auto
      define mc where "mc = (if v2 \<ge> 8 then GROUND_MONSTER else WALKING_MONSTER)"
      have mcn: "mc \<noteq> COIN_OBJ1" "mc \<noteq> COIN_OBJ2" by (simp_all add: mc_def)
      have rfs: "1 \<le> fst r" "fst r \<le> 62" "1 \<le> snd r" "snd r \<le> 11"
        using rin assms(4) iy9 by auto
      from set_elem_ginv_interior[OF p(1) rfs mcn]
      obtain m5 where m5: "set_elem m2 (fst r) (snd r) mc = Some m5" "ginv m5" by blast
      have "mon = Some (gs3\<lparr>rand_gen := g4, gen_maze := m5\<rparr>)"
        using True rn3 ai rn4 m5(1)[unfolded mc_def] by (simp add: mon_def Let_def gs3_def)
      moreover have "gen_inv (gs3\<lparr>rand_gen := g4, gen_maze := m5\<rparr>)"
        using gi5 m5(2) by (simp add: gen_inv_def)
      ultimately show ?thesis by (simp add: gs3_def)
    qed
    then obtain gs4 where gs4: "mon = Some gs4" "gen_inv gs4" "rec_stack gs4 = rs" by blast
    have crs: "set cr \<subseteq> {1..62} \<times> {1..11}" using p(4) row' by blast
    from crates_loop_inv[OF gs4(2) crs] obtain gs5 where
      gs5: "crates_loop cr gs4 = Some gs5" "gen_inv gs5"
        "length (rec_stack gs5) \<le> length (rec_stack gs4) + crate_weight 13 cr" by blast
    have "crate_weight 13 cr \<le> 132" using crate_weight_bound[OF crs] p(5) by linarith
    then have "length (rec_stack gs5) \<le> length (rec_stack gs) + 143"
      using gs5(3) p(3) unfolding gs4(3) by linarith
    moreover have "build_platform gs vx ix iy = Some (True, gs5)"
      unfolding step by (simp add: gs4(1) gs5(1))
    ultimately show ?thesis using gs5(2) by simp
  qed
qed

lemma jump_and_build_inv:
  assumes "gen_inv gs" "length (rec_stack gs) \<le> 46340"
  shows "\<exists>res. jump_and_build_platform_somewhere gs = Some res
      \<and> (case res of (ok, gs') \<Rightarrow> gen_inv gs'
            \<and> length (rec_stack gs') \<le> length (rec_stack gs) + 143)"
proof (cases "rec_stack gs = []")
  case True
  then show ?thesis using assms(1) by (simp add: jump_and_build_platform_somewhere_def)
next
  case False
  define sz where "sz = int (length (rec_stack gs))"
  have sz: "0 < sz" "sz \<le> 46340" using False assms(2) by (simp_all add: sz_def)
  have "sz * sz \<le> 46340 * 46340" using sz by (intro mult_mono) simp_all
  then have sq: "0 < sz * sz" "sz * sz < 2 ^ 31" using sz by simp_all
  from gen_inv_randn[OF assms(1) sq] obtain k g1 where
    rn1: "randn gs (sz * sz) = Some (k, gs\<lparr>rand_gen := g1\<rparr>)" and k: "0 \<le> k" "k < sz * sz"
    and gi1: "gen_inv (gs\<lparr>rand_gen := g1\<rparr>)" by blast
  define n where "n = int_sqrt k"
  have n: "0 \<le> n" "n < sz" using int_sqrt_less[OF k sz(1)] by (simp_all add: n_def)
  define r where "r = rec_stack gs ! nat n"
  have ai: "at_index (rec_stack gs) n = Some r" using n by (simp add: at_index_def r_def sz_def)
  have rmem: "r \<in> set (rec_stack gs)" unfolding r_def using n by (intro nth_mem) (simp add: sz_def)
  then have rr: "0 \<le> fst r" using assms(1) by (cases r) (auto simp: gen_inv_def)
  from gen_rand01_range[of "gs\<lparr>rand_gen := g1\<rparr>"] gi1 obtain u1 g2 where
    r1: "gen_rand01 (gs\<lparr>rand_gen := g1\<rparr>) = Some (u1, gs\<lparr>rand_gen := g2\<rparr>)"
    and u1: "0 \<le> u1" "u1 < 1" and s2: "is_seeded g2" by (auto simp: gen_inv_def)
  have gi2: "gen_inv (gs\<lparr>rand_gen := g2\<rparr>)" using assms(1) s2 by (simp add: gen_inv_def)
  from gen_rand01_range[of "gs\<lparr>rand_gen := g2\<rparr>"] s2 obtain u2 g3 where
    r2: "gen_rand01 (gs\<lparr>rand_gen := g2\<rparr>) = Some (u2, gs\<lparr>rand_gen := g3\<rparr>)"
    and u2: "0 \<le> u2" "u2 < 1" and s3: "is_seeded g3" by auto
  have gi3: "gen_inv (gs\<lparr>rand_gen := g3\<rparr>)" using assms(1) s3 by (simp add: gen_inv_def)
  define vx where "vx = (u1 * 2 - 1) * (5 / 10) * MAX_SPEED"
  define vy where "vy = (8 / 10 + (2 / 10) * u2) * MAX_JUMP"
  define jump_top where "jump_top = 1 + c_int (vy / GRAVITY)"
  have f0: "(0::real) \<le> real_of_int (fst r)" using rr by simp
  have "- (1 / 10) \<le> vx" using u1 by (simp add: vx_def)
  then have vxr: "-1 < real_of_int (fst r) + vx" using f0 by linarith
  have q: "9 \<le> vy / GRAVITY" "vy / GRAVITY < 12" using u2 by (simp_all add: vy_def)
  then have "9 \<le> c_int (vy / GRAVITY)" "c_int (vy / GRAVITY) < 12"
    by (simp_all add: c_int_def floor_less_iff le_floor_iff)
  then have jt: "jump_top < 2 ^ 31" and jt2: "2 \<le> jump_top" by (simp_all add: jump_top_def)
  from gen_inv_randn[OF gi3, of 2] obtain b g4 where
    rn4: "randn (gs\<lparr>rand_gen := g3\<rparr>) 2 = Some (b, gs\<lparr>rand_gen := g4\<rparr>)"
    and gi4: "gen_inv (gs\<lparr>rand_gen := g4\<rparr>)" by auto
  define gs4 where "gs4 = gs\<lparr>rand_gen := g4\<rparr>"
  have rmem4: "r \<in> set (rec_stack gs4)" using rmem by (simp add: gs4_def)
  have l4: "rec_stack gs4 = rec_stack gs" by (simp add: gs4_def)
  define br where "br = (if b = 1 then jump_branch gs4 r vx vy jump_top
                             else ladder_branch gs4 r (nat n))"
  have step: "jump_and_build_platform_somewhere gs =
     do { (ok, ix, iy, gs) \<leftarrow> br;
          if \<not> ok then Some (False, gs) else build_platform gs vx ix iy }"
    using False rn1 k n ai r1 r2 rn4
    by (simp add: jump_and_build_platform_somewhere_def Let_def sz_def[symmetric] n_def[symmetric]
          vx_def vy_def jump_top_def br_def gs4_def split del: if_split cong: if_cong)
  have "\<exists>res. br = Some res
      \<and> (case res of (ok, ix, iy, gs') \<Rightarrow> gen_inv gs' \<and> length (rec_stack gs') \<le> length (rec_stack gs)
           \<and> (ok \<longrightarrow> 1 \<le> ix \<and> ix \<le> 62 \<and> 1 \<le> iy \<and> iy \<le> 10))"
  proof (cases "b = 1")
    case True
    from jump_branch_inv[OF gi4[folded gs4_def] vxr jt2 jt, of vy] obtain res where
      "jump_branch gs4 r vx vy jump_top = Some res"
      "case res of (ok, ix, iy, gs') \<Rightarrow> gen_inv gs' \<and> rec_stack gs' = rec_stack gs4
           \<and> (ok \<longrightarrow> 1 \<le> ix \<and> ix \<le> 62 \<and> 1 \<le> iy \<and> iy \<le> 10)" by blast
    then show ?thesis using True l4 by (cases res) (auto simp: br_def)
  next
    case False
    from ladder_branch_inv[OF gi4[folded gs4_def] rmem4, of "nat n"] l4 False
    show ?thesis by (simp add: br_def)
  qed
  then obtain res where res: "br = Some res" and
    post0: "case res of (ok, ix, iy, gs') \<Rightarrow> gen_inv gs' \<and> length (rec_stack gs') \<le> length (rec_stack gs)
           \<and> (ok \<longrightarrow> 1 \<le> ix \<and> ix \<le> 62 \<and> 1 \<le> iy \<and> iy \<le> 10)" by blast
  obtain ok ix iy gs5 where r5: "res = (ok, ix, iy, gs5)" by (cases res)
  note post = post0[unfolded r5 prod.case]
  show ?thesis
  proof (cases ok)
    case False
    then show ?thesis unfolding step res r5 using post by simp
  next
    case True
    with post have q: "gen_inv gs5" "1 \<le> ix" "ix \<le> 62" "1 \<le> iy" "iy \<le> 10" by auto
    from build_platform_inv[OF q, of vx] obtain res2 where
      b: "build_platform gs5 vx ix iy = Some res2" and
      bp: "case res2 of (ok, gs') \<Rightarrow> gen_inv gs'
            \<and> length (rec_stack gs') \<le> length (rec_stack gs5) + 143" by blast
    have e: "jump_and_build_platform_somewhere gs = Some res2"
      unfolding step res r5 using True b by simp
    show ?thesis unfolding e using bp post by (cases res2) auto
  qed
qed

lemma platforms_loop_inv:
  "gen_inv gs \<Longrightarrow> 1 \<le> want \<Longrightarrow> 11 - want \<le> p \<Longrightarrow>
   length (rec_stack gs) + 143 * nat (want * 10 - p) \<le> 46340 \<Longrightarrow>
   \<exists>res. platforms_loop p want gs = Some res
      \<and> (case res of (p', want', gs') \<Rightarrow> gen_inv gs' \<and> 1 \<le> want' \<and> want' \<le> want
            \<and> want' * 10 \<le> p' \<and> p' \<le> max p (want * 10) \<and> 11 - want' \<le> p'
            \<and> length (rec_stack gs') \<le> length (rec_stack gs) + 143 * nat (want * 10 - p))"
proof (induction "nat (want * 10 - p)" arbitrary: p want gs rule: less_induct)
  case less
  show ?case
  proof (cases "p < want * 10")
    case False
    then have "platforms_loop p want gs = Some (p, want, gs)"
      by (subst platforms_loop.simps) simp
    then show ?thesis using less.prems False by simp
  next
    case True
    have l: "length (rec_stack gs) \<le> 46340" using less.prems(4) by linarith
    from jump_and_build_inv[OF less.prems(1) l] obtain res where
      res: "jump_and_build_platform_somewhere gs = Some res" and
      post0: "case res of (ok, gs') \<Rightarrow> gen_inv gs'
            \<and> length (rec_stack gs') \<le> length (rec_stack gs) + 143" by blast
    obtain ok gs1 where rr: "res = (ok, gs1)" by (cases res)
    note post = post0[unfolded rr prod.case]
    define want1 where "want1 = (if ok then want - 1 else want)"
    have w2: "2 \<le> want" using True less.prems(2,3) by linarith
    have w1: "1 \<le> want1" "want1 \<le> want" "11 - want1 \<le> p + 1" "want1 \<noteq> 0"
      using w2 less.prems(3) by (auto simp: want1_def)
    have e: "platforms_loop p want gs = platforms_loop (p + 1) want1 gs1"
      using True res rr w1(4)
      by (subst platforms_loop.simps) (simp add: Let_def want1_def[symmetric])
    have dec: "nat (want1 * 10 - (p + 1)) < nat (want * 10 - p)" using True w1 by linarith
    have "143 * nat (want1 * 10 - (p + 1)) + 143 \<le> 143 * nat (want * 10 - p)"
      using dec by linarith
    then have st: "length (rec_stack gs1) + 143 * nat (want1 * 10 - (p + 1))
                   \<le> length (rec_stack gs) + 143 * nat (want * 10 - p)"
      using post by linarith
    then have st': "length (rec_stack gs1) + 143 * nat (want1 * 10 - (p + 1)) \<le> 46340"
      using less.prems(4) by linarith
    from less.hyps[OF dec _ w1(1) w1(3) st'] post obtain res2 where
      res2: "platforms_loop (p + 1) want1 gs1 = Some res2" and
      post2: "case res2 of (p', want', gs') \<Rightarrow> gen_inv gs' \<and> 1 \<le> want' \<and> want' \<le> want1
            \<and> want' * 10 \<le> p' \<and> p' \<le> max (p + 1) (want1 * 10) \<and> 11 - want' \<le> p'
            \<and> length (rec_stack gs') \<le> length (rec_stack gs1) + 143 * nat (want1 * 10 - (p + 1))"
      by blast
    obtain p' want' gs' where r2: "res2 = (p', want', gs')" by (cases res2)
    note q = post2[unfolded r2 prod.case]
    have "p' \<le> max p (want * 10)" using q True w1 by linarith
    moreover have "length (rec_stack gs') \<le> length (rec_stack gs) + 143 * nat (want * 10 - p)"
      using q st by linarith
    moreover have "want' \<le> want" using q w1 by linarith
    ultimately show ?thesis unfolding e res2 r2 using q by simp
  qed
qed


subsection \<open>Coins and gems\<close>

text \<open>
  The placement predicate in the words of the specification: the anchor and its left,
  right and upper neighbours are open, the three cells beneath are solid, a crate
  counting as solid. A cell is open when it is empty or holds the marker of a walking
  monster.
\<close>

definition placement_ok :: "Maze \<Rightarrow> int \<Rightarrow> int \<Rightarrow> bool" where
  "placement_ok m x y \<longleftrightarrow>
     open_cell (cell m x y) \<and> open_cell (cell m (x - 1) y) \<and> open_cell (cell m (x + 1) y)
     \<and> open_cell (cell m x (y + 1))
     \<and> is_wall (cell m (x - 1) (y - 1)) True \<and> is_wall (cell m x (y - 1)) True
     \<and> is_wall (cell m (x + 1) (y - 1)) True"

definition coin_total :: "Maze \<Rightarrow> int" where
  "coin_total m = int (count_tiles COIN_OBJ1 m) + int (count_tiles COIN_OBJ2 m)"

lemma filter_update_length:
  "i < length xs \<Longrightarrow>
     length (filter P (xs[i := v])) + (if P (xs ! i) then 1 else 0)
       = length (filter P xs) + (if P v then 1 else 0)"
proof (induction xs arbitrary: i)
  case Nil
  then show ?case by simp
next
  case (Cons a xs)
  show ?case
  proof (cases i)
    case 0
    then show ?thesis by simp
  next
    case (Suc j)
    with Cons.prems have "j < length xs" by simp
    from Cons.IH[OF this] show ?thesis by (simp add: Suc)
  qed
qed

lemma count_tiles_update:
  assumes "wf64 m" "in_grid m x y"
  shows "count_tiles c (m\<lparr>walls := (walls m)[nat (64 * y + x) := v]\<rparr>) + (if cell m x y = c then 1 else 0)
           = count_tiles c m + (if v = c then 1 else 0)"
proof -
  have i: "nat (64 * y + x) < length (walls m)"
    using assms by (auto simp: wf64_def in_grid_def)
  have c: "cell m x y = walls m ! nat (64 * y + x)"
    using assms(1) by (simp add: cell_def wf64_def)
  show ?thesis
    using filter_update_length[OF i, of "\<lambda>t. t = c" v] by (simp add: count_tiles_def c)
qed

lemma good_place_minv:
  assumes "minv m" "0 \<le> x" "x \<le> 63" "1 \<le> y" "y \<le> 11"
  shows "good_place m x y = Some (placement_ok m x y \<and> y > 2)"
proof -
  have wf: "wf64 m" using assms(1) by (simp add: minv_def)
  have g0: "get_elem m x y = Some (cell m x y)"
    using assms by (intro get_elem_wf64[OF wf]) auto
  show ?thesis
  proof (cases "open_cell (cell m x y) \<and> y > 2")
    case False
    then show ?thesis using g0 by (auto simp: good_place_def placement_ok_def)
  next
    case True
    then have "\<not> is_wall (cell m x y) False" by (auto simp: open_cell_def is_wall_def)
    from interior_if_not_wall[OF assms(1) _ this] assms wf
    have xr: "1 \<le> x" "x \<le> 62" by (auto simp: in_grid_def wf64_def)
    have g: "get_elem m (x - 1) y = Some (cell m (x - 1) y)"
      "get_elem m (x + 1) y = Some (cell m (x + 1) y)"
      "get_elem m x (y + 1) = Some (cell m x (y + 1))"
      "get_elem m (x - 1) (y - 1) = Some (cell m (x - 1) (y - 1))"
      "get_elem m x (y - 1) = Some (cell m x (y - 1))"
      "get_elem m (x + 1) (y - 1) = Some (cell m (x + 1) (y - 1))"
      using assms xr by (auto intro!: get_elem_wf64[OF wf])
    show ?thesis using True g0 g by (simp add: good_place_def placement_ok_def)
  qed
qed


lemma set_elem_minv_count:
  assumes "minv m" "in_grid m x y"
    and "x = 0 \<or> x = 63 \<or> y = 0 \<or> y = 12 \<Longrightarrow> is_wall v False"
  shows "\<exists>m'. set_elem m x y v = Some m' \<and> minv m'
            \<and> m' = m\<lparr>walls := walls m'\<rparr>
            \<and> (\<forall>x' y'. in_grid m x' y' \<longrightarrow> cell m' x' y' = (if x' = x \<and> y' = y then v else cell m x' y'))
            \<and> (\<forall>c. count_tiles c m' + (if cell m x y = c then 1 else 0)
                      = count_tiles c m + (if v = c then 1 else 0))"
proof -
  have wf: "wf64 m" using assms(1) by (simp add: minv_def)
  from set_elem_border[OF assms] obtain m' where
    m': "set_elem m x y v = Some m'" "minv m'"
        "m' = m\<lparr>walls := (walls m)[nat (64 * y + x) := v]\<rparr>"
        "\<forall>x' y'. in_grid m x' y' \<longrightarrow> cell m' x' y' = (if x' = x \<and> y' = y then v else cell m x' y')"
    by blast
  have "\<forall>c. count_tiles c m' + (if cell m x y = c then 1 else 0)
                      = count_tiles c m + (if v = c then 1 else 0)"
    unfolding m'(3) using count_tiles_update[OF wf assms(2)] by blast
  moreover have "m' = m\<lparr>walls := walls m'\<rparr>" by (subst (1 2) m'(3)) simp
  ultimately show ?thesis using m'(1,2,4) by blast
qed

lemma coin_total_set_elem:
  assumes "\<forall>c. count_tiles c m' + (if old = c then 1 else 0)
                      = count_tiles c m + (if v = c then 1 else (0::nat))"
  shows "coin_total m' + (if old = COIN_OBJ1 \<or> old = COIN_OBJ2 then 1 else 0)
           = coin_total m + (if v = COIN_OBJ1 \<or> v = COIN_OBJ2 then 1 else 0)"
proof -
  from assms have a: "count_tiles COIN_OBJ1 m' + (if old = COIN_OBJ1 then 1 else 0)
                      = count_tiles COIN_OBJ1 m + (if v = COIN_OBJ1 then 1 else (0::nat))"
    by blast
  from assms have b: "count_tiles COIN_OBJ2 m' + (if old = COIN_OBJ2 then 1 else 0)
                      = count_tiles COIN_OBJ2 m + (if v = COIN_OBJ2 then 1 else (0::nat))"
    by blast
  show ?thesis using a b by (auto simp: coin_total_def split: if_splits)
qed

definition place_inv :: "RandomMazeGenerator \<Rightarrow> bool" where
  "place_inv gs \<longleftrightarrow> minv (gen_maze gs) \<and> is_seeded (rand_gen gs)"

lemma place_inv_randn:
  assumes "place_inv gs" "0 < n" "n < 2 ^ 31"
  shows "\<exists>v g. randn gs n = Some (v, gs\<lparr>rand_gen := g\<rparr>) \<and> 0 \<le> v \<and> v < n
            \<and> place_inv (gs\<lparr>rand_gen := g\<rparr>)"
proof -
  from assms(1) have "is_seeded (rand_gen gs)" by (simp add: place_inv_def)
  from randn_range[OF this assms(2,3)] obtain v g where
    "randn gs n = Some (v, gs\<lparr>rand_gen := g\<rparr>)" "0 \<le> v" "v < n" "is_seeded g" by blast
  moreover from this assms(1) have "place_inv (gs\<lparr>rand_gen := g\<rparr>)" by (simp add: place_inv_def)
  ultimately show ?thesis by blast
qed

text \<open>One round of the loop of \<^verbatim>\<open>place_coins\<close>.\<close>

lemma place_round:
  assumes "place_inv gs" "0 \<le> x" "x \<le> 63" "1 \<le> y" "y \<le> 11"
  shows "if placement_ok (gen_maze gs) x y \<and> y > 2
         then \<exists>v g m'. randn gs 10 = Some (v, gs\<lparr>rand_gen := g\<rparr>) \<and> 0 \<le> v \<and> v < 10
                \<and> set_elem (gen_maze gs) x y (if v = 9 then COIN_OBJ2 else COIN_OBJ1) = Some m'
                \<and> place_inv (gs\<lparr>rand_gen := g, gen_maze := m'\<rparr>)
                \<and> coin_total m' = coin_total (gen_maze gs) + 1
                \<and> (\<forall>x' y'. in_grid (gen_maze gs) x' y' \<longrightarrow>
                      cell m' x' y' = (if x' = x \<and> y' = y then (if v = 9 then COIN_OBJ2 else COIN_OBJ1)
                                       else cell (gen_maze gs) x' y'))
                \<and> place_coins_loop ((x, y) # rs) n gs
                     = place_coins_loop rs (n + 1) (gs\<lparr>rand_gen := g, gen_maze := m'\<rparr>)
         else place_coins_loop ((x, y) # rs) n gs = place_coins_loop rs n gs"
proof -
  define m where "m = gen_maze gs"
  have mi: "minv m" using assms(1) by (simp add: place_inv_def m_def)
  have wf: "wf64 m" using mi by (simp add: minv_def)
  note gp = good_place_minv[OF mi assms(2-5)]
  show ?thesis
  proof (cases "placement_ok m x y \<and> y > 2")
    case False
    then have gpF: "good_place m x y = Some False" using gp by simp
    have e: "place_coins_loop ((x, y) # rs) n gs = place_coins_loop rs n gs"
      using gpF by (simp add: place_coins_loop.simps m_def[symmetric])
    show ?thesis unfolding m_def[symmetric] by (simp only: if_not_P[OF False] e)
  next
    case True
    then have gpT: "good_place m x y = Some True" using gp by simp
    from True have op: "open_cell (cell m x y)" by (simp add: placement_ok_def)
    then have nw: "\<not> is_wall (cell m x y) False" by (auto simp: open_cell_def is_wall_def)
    have ig: "in_grid m x y" using assms wf by (simp add: in_grid_def wf64_def)
    from interior_if_not_wall[OF mi ig nw] have xr: "1 \<le> x" "x \<le> 62" by auto
    from place_inv_randn[OF assms(1), of 10] obtain v g where
      rn: "randn gs 10 = Some (v, gs\<lparr>rand_gen := g\<rparr>)" and v: "0 \<le> v" "v < 10"
      and pi: "place_inv (gs\<lparr>rand_gen := g\<rparr>)" by auto
    define t where "t = (if v = 9 then COIN_OBJ2 else COIN_OBJ1)"
    have t9: "(if v \<ge> 9 then COIN_OBJ2 else COIN_OBJ1) = t" using v by (simp add: t_def)
    have tc: "t = COIN_OBJ1 \<or> t = COIN_OBJ2" by (simp add: t_def)
    have nb: "x = 0 \<or> x = 63 \<or> y = 0 \<or> y = 12 \<Longrightarrow> is_wall t False" using xr assms by linarith
    from set_elem_minv_count[OF mi ig nb] obtain m' where
      m': "set_elem m x y t = Some m'" "minv m'"
          "\<forall>x' y'. in_grid m x' y' \<longrightarrow> cell m' x' y' = (if x' = x \<and> y' = y then t else cell m x' y')"
          "\<forall>c. count_tiles c m' + (if cell m x y = c then 1 else 0)
                      = count_tiles c m + (if t = c then 1 else 0)"
      by blast
    have nc: "\<not> (cell m x y = COIN_OBJ1 \<or> cell m x y = COIN_OBJ2)"
      using op by (auto simp: open_cell_def)
    have ct: "coin_total m' = coin_total m + 1"
      using coin_total_set_elem[OF m'(4)] nc tc by simp
    have e: "place_coins_loop ((x, y) # rs) n gs
                     = place_coins_loop rs (n + 1) (gs\<lparr>rand_gen := g, gen_maze := m'\<rparr>)"
      using gpT rn m'(1) by (simp add: place_coins_loop.simps m_def[symmetric] t9)
    have pi': "place_inv (gs\<lparr>rand_gen := g, gen_maze := m'\<rparr>)"
      using pi m'(2) by (simp add: place_inv_def)
    have "\<exists>v g m'. randn gs 10 = Some (v, gs\<lparr>rand_gen := g\<rparr>) \<and> 0 \<le> v \<and> v < 10
                \<and> set_elem m x y (if v = 9 then COIN_OBJ2 else COIN_OBJ1) = Some m'
                \<and> place_inv (gs\<lparr>rand_gen := g, gen_maze := m'\<rparr>)
                \<and> coin_total m' = coin_total m + 1
                \<and> (\<forall>x' y'. in_grid m x' y' \<longrightarrow>
                      cell m' x' y' = (if x' = x \<and> y' = y then (if v = 9 then COIN_OBJ2 else COIN_OBJ1)
                                       else cell m x' y'))
                \<and> place_coins_loop ((x, y) # rs) n gs
                     = place_coins_loop rs (n + 1) (gs\<lparr>rand_gen := g, gen_maze := m'\<rparr>)"
      using rn v m'(1,3) pi' ct e unfolding t_def by blast
    then show ?thesis unfolding m_def[symmetric] by (simp only: if_P[OF True])
  qed
qed

lemma place_coins_loop_inv:
  "place_inv gs \<Longrightarrow> set rs \<subseteq> {0..63} \<times> {1..11} \<Longrightarrow>
   \<exists>res. place_coins_loop rs n gs = Some res
      \<and> (case res of (n', gs') \<Rightarrow> place_inv gs' \<and> rec_stack gs' = rec_stack gs
            \<and> n' - n = coin_total (gen_maze gs') - coin_total (gen_maze gs))"
proof (induction rs arbitrary: n gs)
  case Nil
  then show ?case by (simp add: place_coins_loop.simps)
next
  case (Cons r rs)
  obtain x y where r: "r = (x, y)" by (cases r)
  from Cons.prems(2) have xy: "0 \<le> x" "x \<le> 63" "1 \<le> y" "y \<le> 11" and rs: "set rs \<subseteq> {0..63} \<times> {1..11}"
    by (auto simp: r)
  note round = place_round[OF Cons.prems(1) xy, of rs n]
  show ?case
  proof (cases "placement_ok (gen_maze gs) x y \<and> y > 2")
    case False
    from round[unfolded if_not_P[OF False]]
    have e: "place_coins_loop (r # rs) n gs = place_coins_loop rs n gs" by (simp add: r)
    from Cons.IH[OF Cons.prems(1) rs, of n] show ?thesis unfolding e .
  next
    case True
    from round[unfolded if_P[OF True]] obtain g m' where
      pi: "place_inv (gs\<lparr>rand_gen := g, gen_maze := m'\<rparr>)" and
      ct: "coin_total m' = coin_total (gen_maze gs) + 1" and
      e: "place_coins_loop (r # rs) n gs
                     = place_coins_loop rs (n + 1) (gs\<lparr>rand_gen := g, gen_maze := m'\<rparr>)"
      unfolding r by blast
    from Cons.IH[OF pi rs, of "n + 1"] obtain res where
      res: "place_coins_loop rs (n + 1) (gs\<lparr>rand_gen := g, gen_maze := m'\<rparr>) = Some res" and
      post0: "case res of (n', gs') \<Rightarrow> place_inv gs'
            \<and> rec_stack gs' = rec_stack (gs\<lparr>rand_gen := g, gen_maze := m'\<rparr>)
            \<and> n' - (n + 1) = coin_total (gen_maze gs')
                  - coin_total (gen_maze (gs\<lparr>rand_gen := g, gen_maze := m'\<rparr>))"
      by blast
    obtain n' gs' where rr: "res = (n', gs')" by (cases res)
    note post = post0[unfolded rr prod.case]
    have "n' - n = coin_total (gen_maze gs') - coin_total (gen_maze gs)"
      using post ct by simp
    then show ?thesis unfolding e res rr using post by simp
  qed
qed


subsection \<open>The pass that removes the traces\<close>

lemma minv_in_grid: "minv m \<Longrightarrow> in_grid m x y \<longleftrightarrow> 0 \<le> x \<and> x < 64 \<and> 0 \<le> y \<and> y < 13"
  by (auto simp: minv_def wf64_def in_grid_def)

lemma minv_monsters [simp]: "minv (m\<lparr>monsters := ms\<rparr>) = minv m"
  by (simp add: minv_def wf64_def border_solid_def border_cells_def cell_def)

lemma coin_total_monsters [simp]: "coin_total (m\<lparr>monsters := ms\<rparr>) = coin_total m"
  by (simp add: coin_total_def count_tiles_def)

lemma trace_write:
  assumes "place_inv gs" "in_grid (gen_maze gs) x y"
    and "x = 0 \<or> x = 63 \<or> y = 0 \<or> y = 12 \<Longrightarrow> is_wall v False"
    and "cell (gen_maze gs) x y \<noteq> COIN_OBJ1" "cell (gen_maze gs) x y \<noteq> COIN_OBJ2"
    and "v \<noteq> COIN_OBJ1" "v \<noteq> COIN_OBJ2"
  shows "\<exists>m'. set_elem (gen_maze gs) x y v = Some m' \<and> place_inv (gs\<lparr>gen_maze := m'\<rparr>)
           \<and> coin_total m' = coin_total (gen_maze gs) \<and> coins m' = coins (gen_maze gs)
           \<and> (\<forall>x' y'. in_grid (gen_maze gs) x' y' \<longrightarrow>
                 cell m' x' y' = (if x' = x \<and> y' = y then v else cell (gen_maze gs) x' y'))"
proof -
  define m where "m = gen_maze gs"
  have mi: "minv m" using assms(1) by (simp add: place_inv_def m_def)
  from set_elem_minv_count[OF mi assms(2)[folded m_def] assms(3)] obtain m' where
    m': "set_elem m x y v = Some m'" "minv m'" "m' = m\<lparr>walls := walls m'\<rparr>"
        "\<forall>x' y'. in_grid m x' y' \<longrightarrow> cell m' x' y' = (if x' = x \<and> y' = y then v else cell m x' y')"
        "\<forall>c. count_tiles c m' + (if cell m x y = c then 1 else 0)
                      = count_tiles c m + (if v = c then 1 else 0)"
    by blast
  have ct: "coin_total m' = coin_total m"
    using coin_total_set_elem[OF m'(5)] assms(4-7) by (simp add: m_def)
  have co: "coins m' = coins m" by (subst m'(3)) simp
  have "place_inv (gs\<lparr>gen_maze := m'\<rparr>)" using assms(1) m'(2) by (simp add: place_inv_def)
  then show ?thesis using m'(1,4) ct co unfolding m_def by blast
qed


text \<open>
  What every stage of the body keeps: the invariant, the number of coins and gems, the
  counter, the stack, and what the cell and the cell below it hold.
\<close>

definition trace_inv ::
  "RandomMazeGenerator \<Rightarrow> int \<Rightarrow> int \<Rightarrow> char \<Rightarrow> char \<Rightarrow> RandomMazeGenerator \<Rightarrow> bool" where
  "trace_inv gs x y c b gs' \<longleftrightarrow>
     place_inv gs' \<and> coin_total (gen_maze gs') = coin_total (gen_maze gs)
     \<and> coins (gen_maze gs') = coins (gen_maze gs) \<and> rec_stack gs' = rec_stack gs
     \<and> cell (gen_maze gs') x y = c \<and> cell (gen_maze gs') x (y - 1) = b"

lemma trace_inv_randn:
  assumes "trace_inv gs x y c b gs1" "0 < n" "n < 2 ^ 31"
  shows "\<exists>v g. randn gs1 n = Some (v, gs1\<lparr>rand_gen := g\<rparr>) \<and> 0 \<le> v \<and> v < n
            \<and> trace_inv gs x y c b (gs1\<lparr>rand_gen := g\<rparr>)"
proof -
  from assms(1) have "place_inv gs1" by (simp add: trace_inv_def)
  from place_inv_randn[OF this assms(2,3)] obtain v g where
    "randn gs1 n = Some (v, gs1\<lparr>rand_gen := g\<rparr>)" "0 \<le> v" "v < n" "place_inv (gs1\<lparr>rand_gen := g\<rparr>)"
    by blast
  moreover from this assms(1) have "trace_inv gs x y c b (gs1\<lparr>rand_gen := g\<rparr>)"
    by (simp add: trace_inv_def)
  ultimately show ?thesis by blast
qed

lemma trace_inv_write_cell:
  assumes "trace_inv gs x y c b gs1" "1 \<le> x" "x \<le> 62" "1 \<le> y" "y \<le> 12"
    and "y = 12 \<Longrightarrow> is_wall v False"
    and "c \<noteq> COIN_OBJ1" "c \<noteq> COIN_OBJ2" "v \<noteq> COIN_OBJ1" "v \<noteq> COIN_OBJ2"
  shows "\<exists>m'. set_elem (gen_maze gs1) x y v = Some m' \<and> trace_inv gs x y v b (gs1\<lparr>gen_maze := m'\<rparr>)"
proof -
  have pi: "place_inv gs1" and c: "cell (gen_maze gs1) x y = c" and b: "cell (gen_maze gs1) x (y - 1) = b"
    using assms(1) by (simp_all add: trace_inv_def)
  have mi: "minv (gen_maze gs1)" using pi by (simp add: place_inv_def)
  have ig: "in_grid (gen_maze gs1) x y" "in_grid (gen_maze gs1) x (y - 1)"
    using assms(2-5) by (simp_all add: minv_in_grid[OF mi])
  have bc: "x = 0 \<or> x = 63 \<or> y = 0 \<or> y = 12 \<Longrightarrow> is_wall v False"
    using assms(2-6) by linarith
  from trace_write[OF pi ig(1) bc] assms(7-10) c obtain m' where
    m': "set_elem (gen_maze gs1) x y v = Some m'" "place_inv (gs1\<lparr>gen_maze := m'\<rparr>)"
        "coin_total m' = coin_total (gen_maze gs1)" "coins m' = coins (gen_maze gs1)"
        "\<forall>x' y'. in_grid (gen_maze gs1) x' y' \<longrightarrow>
                 cell m' x' y' = (if x' = x \<and> y' = y then v else cell (gen_maze gs1) x' y')"
    by blast
  have "cell m' x y = v" "cell m' x (y - 1) = b" using m'(5) ig b by simp_all
  then have "trace_inv gs x y v b (gs1\<lparr>gen_maze := m'\<rparr>)"
    using assms(1) m'(2,3,4) by (simp add: trace_inv_def)
  then show ?thesis using m'(1) by blast
qed

lemma trace_inv_write_below:
  assumes "trace_inv gs x y c b gs1" "1 \<le> x" "x \<le> 62" "1 \<le> y" "y \<le> 12"
    and "is_wall b False"
  shows "\<exists>m'. set_elem (gen_maze gs1) x (y - 1) (CHR ''A'') = Some m'
           \<and> trace_inv gs x y c (CHR ''A'') (gs1\<lparr>gen_maze := m'\<rparr>)"
proof -
  have pi: "place_inv gs1" and c: "cell (gen_maze gs1) x y = c" and b: "cell (gen_maze gs1) x (y - 1) = b"
    using assms(1) by (simp_all add: trace_inv_def)
  have mi: "minv (gen_maze gs1)" using pi by (simp add: place_inv_def)
  have ig: "in_grid (gen_maze gs1) x y" "in_grid (gen_maze gs1) x (y - 1)"
    using assms(2-5) by (simp_all add: minv_in_grid[OF mi])
  have bc: "x = 0 \<or> x = 63 \<or> y - 1 = 0 \<or> y - 1 = 12 \<Longrightarrow> is_wall (CHR ''A'') False"
    by (simp add: is_wall_def)
  have nb: "b \<noteq> COIN_OBJ1" "b \<noteq> COIN_OBJ2" using assms(6) by (auto simp: is_wall_def)
  from trace_write[OF pi ig(2) bc] nb b obtain m' where
    m': "set_elem (gen_maze gs1) x (y - 1) (CHR ''A'') = Some m'" "place_inv (gs1\<lparr>gen_maze := m'\<rparr>)"
        "coin_total m' = coin_total (gen_maze gs1)" "coins m' = coins (gen_maze gs1)"
        "\<forall>x' y'. in_grid (gen_maze gs1) x' y' \<longrightarrow>
                 cell m' x' y' = (if x' = x \<and> y' = y - 1 then CHR ''A'' else cell (gen_maze gs1) x' y')"
    by auto
  have "cell m' x y = c" "cell m' x (y - 1) = CHR ''A''" using m'(5) ig c by simp_all
  then have "trace_inv gs x y c (CHR ''A'') (gs1\<lparr>gen_maze := m'\<rparr>)"
    using assms(1) m'(2,3,4) by (simp add: trace_inv_def)
  then show ?thesis using m'(1) by blast
qed

lemma trace_inv_interior:
  assumes "trace_inv gs x y c b gs1" "1 \<le> x" "x \<le> 62" "1 \<le> y" "y \<le> 12" "\<not> is_wall c False"
  shows "y \<noteq> 12"
proof -
  have pi: "place_inv gs1" and c: "cell (gen_maze gs1) x y = c"
    using assms(1) by (simp_all add: trace_inv_def)
  have mi: "minv (gen_maze gs1)" using pi by (simp add: place_inv_def)
  have ig: "in_grid (gen_maze gs1) x y" using assms(2-5) by (simp add: minv_in_grid[OF mi])
  from interior_if_not_wall[OF mi ig] assms(6) c show ?thesis by auto
qed


lemma trace_cell_inv:
  assumes "place_inv gs" "1 \<le> x" "x \<le> 62" "1 \<le> y" "y \<le> 12"
  shows "\<exists>gs'. trace_cell gs x y = Some gs' \<and> place_inv gs'
            \<and> coin_total (gen_maze gs') = coin_total (gen_maze gs)
            \<and> coins (gen_maze gs') = coins (gen_maze gs) \<and> rec_stack gs' = rec_stack gs"
proof -
  define m where "m = gen_maze gs"
  have mi: "minv m" using assms(1) by (simp add: place_inv_def m_def)
  have wf: "wf64 m" using mi by (simp add: minv_def)
  define c0 where "c0 = cell m x y"
  define b0 where "b0 = cell m x (y - 1)"
  define cl where "cl = cell m (x - 1) y"
  define cr where "cr = cell m (x + 1) y"
  have g: "get_elem m x y = Some c0" "get_elem m x (y - 1) = Some b0"
    "get_elem m (x - 1) y = Some cl" "get_elem m (x + 1) y = Some cr"
    unfolding c0_def b0_def cl_def cr_def using assms(2-5) by (auto intro!: get_elem_wf64[OF wf])
  define st1 where "st1 = (if c0 = CHR '' '' then
                        do { (v, gs) \<leftarrow> randn gs 20;
                             let c = (if v = 0 \<and> \<not> is_wall b0 False \<and> y > 2
                                      then FLYING_MONSTER else SPACE);
                             m \<leftarrow> set_elem (gen_maze gs) x y c;
                             Some (c, gs\<lparr>gen_maze := m\<rparr>) }
                      else Some (c0, gs))"
  define st2 where "st2 = (\<lambda>c (gs::RandomMazeGenerator). if (c = CHR ''a'' \<or> c = CHR ''b'') \<and> is_wall b0 False then
                        do { m \<leftarrow> set_elem (gen_maze gs) x y (CHR ''S'');
                             Some (CHR ''S'', gs\<lparr>gen_maze := m\<rparr>) }
                      else Some (c, gs))"
  define st3 where "st3 = (\<lambda>c (gs::RandomMazeGenerator). if is_wall c False \<and> is_wall b0 False then
                        do { m \<leftarrow> set_elem (gen_maze gs) x (y - 1) (CHR ''A'');
                             Some (CHR ''A'', gs\<lparr>gen_maze := m\<rparr>) }
                      else Some (b0, gs))"
  define st4 where "st4 = (\<lambda>c b (gs::RandomMazeGenerator).
          if c = FLYING_MONSTER \<or> c = WALKING_MONSTER \<or> c = GROUND_MONSTER then
            do { let type_theme_idxs =
                       (if c = FLYING_MONSTER then flying_theme_idxs
                        else if c = WALKING_MONSTER then walking_theme_idxs
                        else ground_theme_idxs);
                 (chosen_idx, gs) \<leftarrow> randn gs (int (length type_theme_idxs));
                 theme \<leftarrow> at_index type_theme_idxs chosen_idx;
                 let mo = new_Monster x y c theme;
                 m \<leftarrow> set_elem (gen_maze gs) x y SPACE;
                 let m = (if (\<not> is_walking mo \<or> (\<not> is_wall cl False \<and> \<not> is_wall cr False))
                             \<and> \<not> (\<not> is_flying mo \<and> \<not> is_wall b False)
                          then m\<lparr>monsters := monsters m @ [mo]\<rparr> else m);
                 Some (gs\<lparr>gen_maze := m\<rparr>) }
          else Some gs)"
  have step: "trace_cell gs x y =
      do { (c, gs) \<leftarrow> st1; (c, gs) \<leftarrow> st2 c gs; (b, gs) \<leftarrow> st3 c gs; st4 c b gs }"
    using g
    by (simp add: trace_cell_def m_def[symmetric] st1_def st2_def st3_def st4_def
             split del: if_split cong: if_cong)
  have T0: "trace_inv gs x y c0 b0 gs"
    using assms(1) by (simp add: trace_inv_def c0_def b0_def m_def)
  have "\<exists>c1 gs1. st1 = Some (c1, gs1) \<and> trace_inv gs x y c1 b0 gs1"
  proof (cases "c0 = CHR '' ''")
    case False
    then show ?thesis using T0 by (simp add: st1_def)
  next
    case True
    from trace_inv_randn[OF T0, of 20] obtain v g where
      rn: "randn gs 20 = Some (v, gs\<lparr>rand_gen := g\<rparr>)"
      and T: "trace_inv gs x y c0 b0 (gs\<lparr>rand_gen := g\<rparr>)" by auto
    define c where "c = (if v = 0 \<and> \<not> is_wall b0 False \<and> y > 2 then FLYING_MONSTER else SPACE)"
    have "\<not> is_wall c0 False" using True by (simp add: is_wall_def)
    from trace_inv_interior[OF T0 assms(2-5) this] have y12: "y \<noteq> 12" .
    have cn: "c \<noteq> COIN_OBJ1" "c \<noteq> COIN_OBJ2" by (simp_all add: c_def)
    from trace_inv_write_cell[OF T assms(2-5), of c] y12 True cn obtain m' where
      m': "set_elem (gen_maze (gs\<lparr>rand_gen := g\<rparr>)) x y c = Some m'"
          "trace_inv gs x y c b0 (gs\<lparr>rand_gen := g, gen_maze := m'\<rparr>)" by auto
    have "st1 = Some (c, gs\<lparr>rand_gen := g, gen_maze := m'\<rparr>)"
      using True rn m'(1) by (simp add: st1_def Let_def c_def)
    then show ?thesis using m'(2) by blast
  qed
  then obtain c1 gs1 where s1: "st1 = Some (c1, gs1)" and T1: "trace_inv gs x y c1 b0 gs1" by blast
  have "\<exists>c2 gs2. st2 c1 gs1 = Some (c2, gs2) \<and> trace_inv gs x y c2 b0 gs2"
  proof (cases "(c1 = CHR ''a'' \<or> c1 = CHR ''b'') \<and> is_wall b0 False")
    case False
    then show ?thesis using T1 by (auto simp: st2_def)
  next
    case True
    then have cn: "c1 \<noteq> COIN_OBJ1" "c1 \<noteq> COIN_OBJ2" by auto
    from trace_inv_write_cell[OF T1 assms(2-5), of "CHR ''S''"] cn obtain m' where
      m': "set_elem (gen_maze gs1) x y (CHR ''S'') = Some m'"
          "trace_inv gs x y (CHR ''S'') b0 (gs1\<lparr>gen_maze := m'\<rparr>)" by (auto simp: is_wall_def)
    have "st2 c1 gs1 = Some (CHR ''S'', gs1\<lparr>gen_maze := m'\<rparr>)"
      using True m'(1) by (simp add: st2_def)
    then show ?thesis using m'(2) by blast
  qed
  then obtain c2 gs2 where s2: "st2 c1 gs1 = Some (c2, gs2)" and T2: "trace_inv gs x y c2 b0 gs2"
    by blast
  have "\<exists>b3 gs3. st3 c2 gs2 = Some (b3, gs3) \<and> trace_inv gs x y c2 b3 gs3"
  proof (cases "is_wall c2 False \<and> is_wall b0 False")
    case False
    then show ?thesis using T2 by (auto simp: st3_def)
  next
    case True
    from trace_inv_write_below[OF T2 assms(2-5)] True obtain m' where
      m': "set_elem (gen_maze gs2) x (y - 1) (CHR ''A'') = Some m'"
          "trace_inv gs x y c2 (CHR ''A'') (gs2\<lparr>gen_maze := m'\<rparr>)" by auto
    have "st3 c2 gs2 = Some (CHR ''A'', gs2\<lparr>gen_maze := m'\<rparr>)"
      using True m'(1) by (simp add: st3_def)
    then show ?thesis using m'(2) by blast
  qed
  then obtain b3 gs3 where s3: "st3 c2 gs2 = Some (b3, gs3)" and T3: "trace_inv gs x y c2 b3 gs3"
    by blast
  have "\<exists>gs4. st4 c2 b3 gs3 = Some gs4 \<and> place_inv gs4
            \<and> coin_total (gen_maze gs4) = coin_total (gen_maze gs)
            \<and> coins (gen_maze gs4) = coins (gen_maze gs) \<and> rec_stack gs4 = rec_stack gs"
  proof (cases "c2 = FLYING_MONSTER \<or> c2 = WALKING_MONSTER \<or> c2 = GROUND_MONSTER")
    case False
    then show ?thesis using T3 by (auto simp: st4_def trace_inv_def)
  next
    case True
    define idxs where "idxs = (if c2 = FLYING_MONSTER then flying_theme_idxs
                        else if c2 = WALKING_MONSTER then walking_theme_idxs
                        else ground_theme_idxs)"
    have li: "0 < int (length idxs)" "int (length idxs) < 2 ^ 31"
      by (simp_all add: idxs_def flying_theme_idxs_def walking_theme_idxs_def ground_theme_idxs_def)
    from trace_inv_randn[OF T3 li] obtain i g where
      rn: "randn gs3 (int (length idxs)) = Some (i, gs3\<lparr>rand_gen := g\<rparr>)"
      and i: "0 \<le> i" "i < int (length idxs)"
      and T: "trace_inv gs x y c2 b3 (gs3\<lparr>rand_gen := g\<rparr>)" by blast
    have ai: "at_index idxs i = Some (idxs ! nat i)" using i by (simp add: at_index_def)
    have nw: "\<not> is_wall c2 False" using True by (auto simp: is_wall_def)
    from trace_inv_interior[OF T3 assms(2-5) this] have y12: "y \<noteq> 12" .
    have cn: "c2 \<noteq> COIN_OBJ1" "c2 \<noteq> COIN_OBJ2" using True by auto
    from trace_inv_write_cell[OF T assms(2-5), of SPACE] y12 cn obtain m' where
      m': "set_elem (gen_maze (gs3\<lparr>rand_gen := g\<rparr>)) x y SPACE = Some m'"
          "trace_inv gs x y SPACE b3 (gs3\<lparr>rand_gen := g, gen_maze := m'\<rparr>)" by auto
    define mo where "mo = new_Monster x y c2 (idxs ! nat i)"
    define m4 where "m4 = (if (\<not> is_walking mo \<or> (\<not> is_wall cl False \<and> \<not> is_wall cr False))
                             \<and> \<not> (\<not> is_flying mo \<and> \<not> is_wall b3 False)
                          then m'\<lparr>monsters := monsters m' @ [mo]\<rparr> else m')"
    have e: "st4 c2 b3 gs3 = Some (gs3\<lparr>rand_gen := g, gen_maze := m4\<rparr>)"
      using True rn ai m'(1)
      by (simp add: st4_def Let_def idxs_def[symmetric] mo_def[symmetric] m4_def
               split del: if_split cong: if_cong)
    have "place_inv (gs3\<lparr>rand_gen := g, gen_maze := m4\<rparr>)"
      "coin_total m4 = coin_total (gen_maze gs)" "coins m4 = coins (gen_maze gs)"
      using m'(2) by (simp_all add: trace_inv_def place_inv_def m4_def)
    moreover have "rec_stack gs3 = rec_stack gs" using T3 by (simp add: trace_inv_def)
    ultimately show ?thesis unfolding e by simp
  qed
  then obtain gs4 where s4: "st4 c2 b3 gs3 = Some gs4" and
    post: "place_inv gs4" "coin_total (gen_maze gs4) = coin_total (gen_maze gs)"
      "coins (gen_maze gs4) = coins (gen_maze gs)" "rec_stack gs4 = rec_stack gs" by blast
  have "trace_cell gs x y = Some gs4" unfolding step by (simp add: s1 s2 s3 s4)
  then show ?thesis using post by simp
qed

lemma trace_cells_inv:
  "place_inv gs \<Longrightarrow> set ps \<subseteq> {1..62} \<times> {1..12} \<Longrightarrow>
   \<exists>gs'. trace_cells gs ps = Some gs' \<and> place_inv gs'
            \<and> coin_total (gen_maze gs') = coin_total (gen_maze gs)
            \<and> coins (gen_maze gs') = coins (gen_maze gs) \<and> rec_stack gs' = rec_stack gs"
proof (induction ps arbitrary: gs)
  case Nil
  then show ?case by simp
next
  case (Cons p ps)
  obtain x y where p: "p = (x, y)" by (cases p)
  from Cons.prems(2) have xy: "1 \<le> x" "x \<le> 62" "1 \<le> y" "y \<le> 12" and ps: "set ps \<subseteq> {1..62} \<times> {1..12}"
    by (auto simp: p)
  from trace_cell_inv[OF Cons.prems(1) xy] obtain gs1 where
    g1: "trace_cell gs x y = Some gs1" "place_inv gs1"
        "coin_total (gen_maze gs1) = coin_total (gen_maze gs)"
        "coins (gen_maze gs1) = coins (gen_maze gs)" "rec_stack gs1 = rec_stack gs" by blast
  from Cons.IH[OF g1(2) ps] obtain gs' where
    g': "trace_cells gs1 ps = Some gs'" "place_inv gs'"
        "coin_total (gen_maze gs') = coin_total (gen_maze gs1)"
        "coins (gen_maze gs') = coins (gen_maze gs1)" "rec_stack gs' = rec_stack gs1" by blast
  have "trace_cells gs (p # ps) = Some gs'" by (simp add: p g1(1) g'(1))
  then show ?case using g1 g' by simp
qed

subsection \<open>The border\<close>

text \<open>What \<^verbatim>\<open>initial_floor_and_walls\<close> leaves in the cell \<open>(x, y)\<close>.\<close>

definition init_tile :: "int \<Rightarrow> int \<Rightarrow> char" where
  "init_tile x y = (if y = 12 \<or> x = 63 \<or> x = 0 then WALL_MIDDLE
                    else if y = 0 then WALL_SURFACE else SPACE)"

definition initial_walls :: "char list" where
  "initial_walls = map (\<lambda>i. init_tile (int i mod 64) (int i div 64)) [0..<832]"

lemma walls_eq_cells:
  assumes "wf64 m"
  shows "walls m = map (\<lambda>i. cell m (int i mod 64) (int i div 64)) [0..<832]"
proof (rule nth_equalityI)
  show "length (walls m) = length (map (\<lambda>i. cell m (int i mod 64) (int i div 64)) [0..<832])"
    using assms by (simp add: wf64_def)
next
  fix i assume "i < length (walls m)"
  then have i: "i < 832" using assms by (simp add: wf64_def)
  have "nat (64 * (int i div 64) + int i mod 64) = i" by simp
  then show "walls m ! i = map (\<lambda>i. cell m (int i mod 64) (int i div 64)) [0..<832] ! i"
    using i assms by (simp add: cell_def wf64_def)
qed

lemma wf64_in_grid: "wf64 m \<Longrightarrow> in_grid m x y \<longleftrightarrow> 0 \<le> x \<and> x < 64 \<and> 0 \<le> y \<and> y < 13"
  by (auto simp: wf64_def in_grid_def)

lemma set_elems_wf64:
  "wf64 m \<Longrightarrow> \<forall>p\<in>set ps. in_grid m (fst p) (snd p) \<Longrightarrow>
   \<exists>m'. set_elems m ps v = Some m' \<and> wf64 m' \<and> m' = m\<lparr>walls := walls m'\<rparr>
      \<and> (\<forall>x y. in_grid m x y \<longrightarrow> cell m' x y = (if (x, y) \<in> set ps then v else cell m x y))"
proof (induction ps arbitrary: m)
  case Nil
  then show ?case by simp
next
  case (Cons p ps)
  obtain a b where p: "p = (a, b)" by (cases p)
  from Cons.prems have ig: "in_grid m a b" by (simp add: p)
  then have r: "0 \<le> a" "a < 64" "0 \<le> b" "b < 13" using Cons.prems(1) by (simp_all add: wf64_in_grid)
  define m1 where "m1 = m\<lparr>walls := (walls m)[nat (64 * b + a) := v]\<rparr>"
  have s: "set_elem m a b v = Some m1"
    unfolding m1_def using r by (intro set_elem_wf64[OF Cons.prems(1)]) linarith+
  have wf1: "wf64 m1" using Cons.prems(1) by (simp add: m1_def wf64_def)
  have g1: "in_grid m1 = in_grid m" by (simp add: m1_def)
  have c1: "in_grid m x y \<Longrightarrow> cell m1 x y = (if x = a \<and> y = b then v else cell m x y)" for x y
    unfolding m1_def by (rule cell_update[OF Cons.prems(1) ig])
  have "\<forall>p\<in>set ps. in_grid m1 (fst p) (snd p)" using Cons.prems(2) by (simp add: g1)
  from Cons.IH[OF wf1 this] obtain m' where
    m': "set_elems m1 ps v = Some m'" "wf64 m'" "m' = m1\<lparr>walls := walls m'\<rparr>"
        "\<forall>x y. in_grid m1 x y \<longrightarrow> cell m' x y = (if (x, y) \<in> set ps then v else cell m1 x y)"
    by blast
  have e: "set_elems m (p # ps) v = Some m'" by (simp add: p s m'(1))
  have f: "m' = m\<lparr>walls := walls m'\<rparr>" by (subst m'(3)) (simp add: m1_def)
  have "\<forall>x y. in_grid m x y \<longrightarrow> cell m' x y = (if (x, y) \<in> set (p # ps) then v else cell m x y)"
    using m'(4) c1 by (auto simp: g1 p)
  then show ?case using e m'(2) f by blast
qed

lemma fill_cells_set:
  "(a, b) \<in> set (concat (map (\<lambda>j. map (\<lambda>k. (x + j, y + k)) [0..dy - 1]) [0..dx - 1]))
     \<longleftrightarrow> x \<le> a \<and> a < x + dx \<and> y \<le> b \<and> b < y + dy"
proof -
  have s: "set (concat (map (\<lambda>j. map (\<lambda>k. (x + j, y + k)) [0..dy - 1]) [0..dx - 1]))
           = (\<Union>j\<in>{0..dx - 1}. (\<lambda>k. (x + j, y + k)) ` {0..dy - 1})"
    by (simp only: set_concat set_map set_upto image_image)
  have "(a, b) \<in> (\<Union>j\<in>{0..dx - 1}. (\<lambda>k. (x + j, y + k)) ` {0..dy - 1})
          \<longleftrightarrow> (\<exists>j k. 0 \<le> j \<and> j \<le> dx - 1 \<and> 0 \<le> k \<and> k \<le> dy - 1 \<and> a = x + j \<and> b = y + k)"
    by (simp only: UN_iff image_iff atLeastAtMost_iff Bex_def prod.inject) blast
  also have "\<dots> \<longleftrightarrow> x \<le> a \<and> a < x + dx \<and> y \<le> b \<and> b < y + dy"
  proof
    assume "\<exists>j k. 0 \<le> j \<and> j \<le> dx - 1 \<and> 0 \<le> k \<and> k \<le> dy - 1 \<and> a = x + j \<and> b = y + k"
    then obtain j k where "0 \<le> j" "j \<le> dx - 1" "0 \<le> k" "k \<le> dy - 1" "a = x + j" "b = y + k" by blast
    then show "x \<le> a \<and> a < x + dx \<and> y \<le> b \<and> b < y + dy" by linarith
  next
    assume h: "x \<le> a \<and> a < x + dx \<and> y \<le> b \<and> b < y + dy"
    then have "0 \<le> a - x \<and> a - x \<le> dx - 1 \<and> 0 \<le> b - y \<and> b - y \<le> dy - 1 \<and> a = x + (a - x) \<and> b = y + (b - y)"
      by linarith
    then show "\<exists>j k. 0 \<le> j \<and> j \<le> dx - 1 \<and> 0 \<le> k \<and> k \<le> dy - 1 \<and> a = x + j \<and> b = y + k"
      by blast
  qed
  finally show ?thesis unfolding s .
qed

lemma fill_elem_wf64:
  assumes "wf64 m" "0 \<le> x0" "0 \<le> y0" "x0 + dx \<le> 64" "y0 + dy \<le> 13"
  shows "\<exists>m'. fill_elem m x0 y0 dx dy v = Some m' \<and> wf64 m' \<and> m' = m\<lparr>walls := walls m'\<rparr>
      \<and> (\<forall>x y. in_grid m x y \<longrightarrow>
            cell m' x y = (if x0 \<le> x \<and> x < x0 + dx \<and> y0 \<le> y \<and> y < y0 + dy then v else cell m x y))"
proof -
  let ?ps = "concat (map (\<lambda>j. map (\<lambda>k. (x0 + j, y0 + k)) [0..dy - 1]) [0..dx - 1])"
  have "\<forall>p\<in>set ?ps. in_grid m (fst p) (snd p)"
  proof
    fix p assume "p \<in> set ?ps"
    then have "(fst p, snd p) \<in> set ?ps" by simp
    then have "x0 \<le> fst p \<and> fst p < x0 + dx \<and> y0 \<le> snd p \<and> snd p < y0 + dy"
      by (simp only: fill_cells_set)
    then show "in_grid m (fst p) (snd p)" using assms by (simp add: wf64_in_grid)
  qed
  from set_elems_wf64[OF assms(1) this, of v] show ?thesis
    unfolding fill_elem_def by (simp only: fill_cells_set)
qed


lemma wf64_new_Maze: "\<not> maze_strict old \<Longrightarrow> wf64 (new_Maze old junk 64 13)"
  by (simp add: wf64_def new_Maze_def)

lemma initial_walls_nth:
  assumes "0 \<le> x" "x < 64" "0 \<le> y" "y < 13"
  shows "initial_walls ! nat (64 * y + x) = init_tile x y"
proof -
  have i: "nat (64 * y + x) < 832" using assms by linarith
  have "int (nat (64 * y + x)) = 64 * y + x" using assms by simp
  moreover have "(64 * y + x) mod 64 = x" "(64 * y + x) div 64 = y" using assms by simp_all
  ultimately show ?thesis
    unfolding initial_walls_def using i by (simp only: nth_map_upt add_0 length_upt diff_zero)
qed

lemma initial_floor_and_walls_result:
  assumes "\<not> maze_strict old"
  shows "initial_floor_and_walls cfg \<lparr>rec_stack = rs, gen_maze = new_Maze old junk 64 13, rand_gen = r\<rparr>
           = Some \<lparr>rec_stack = rs,
                   gen_maze = init_physics cfg ((new_Maze old junk 64 13)\<lparr>walls := initial_walls\<rparr>),
                   rand_gen = r\<rparr>"
proof -
  define m0 where "m0 = new_Maze old junk 64 13"
  have wf0: "wf64 m0" unfolding m0_def using assms by (rule wf64_new_Maze)
  have d0: "maze_w m0 = 64" "maze_h m0 = 13" using wf0 by (simp_all add: wf64_def)
  from fill_elem_wf64[OF wf0, of 0 0 64 13 SPACE] obtain m1 where
    m1: "fill_elem m0 0 0 64 13 SPACE = Some m1" "wf64 m1" "m1 = m0\<lparr>walls := walls m1\<rparr>"
        "\<forall>x y. in_grid m0 x y \<longrightarrow> cell m1 x y = SPACE"
    by (auto simp: wf64_in_grid[OF wf0])
  have d1: "maze_w m1 = 64" "maze_h m1 = 13" using m1(2) by (simp_all add: wf64_def)
  from fill_elem_wf64[OF m1(2), of 0 0 64 1 WALL_SURFACE] obtain m2 where
    m2: "fill_elem m1 0 0 64 1 WALL_SURFACE = Some m2" "wf64 m2" "m2 = m1\<lparr>walls := walls m2\<rparr>"
        "\<forall>x y. in_grid m1 x y \<longrightarrow> cell m2 x y = (if y = 0 then WALL_SURFACE else cell m1 x y)"
    by (auto simp: wf64_in_grid[OF m1(2)])
  have d2: "maze_w m2 = 64" "maze_h m2 = 13" using m2(2) by (simp_all add: wf64_def)
  from fill_elem_wf64[OF m2(2), of 0 0 1 13 WALL_MIDDLE] obtain m3 where
    m3: "fill_elem m2 0 0 1 13 WALL_MIDDLE = Some m3" "wf64 m3" "m3 = m2\<lparr>walls := walls m3\<rparr>"
        "\<forall>x y. in_grid m2 x y \<longrightarrow> cell m3 x y = (if x = 0 then WALL_MIDDLE else cell m2 x y)"
    by (auto simp: wf64_in_grid[OF m2(2)])
  have d3: "maze_w m3 = 64" "maze_h m3 = 13" using m3(2) by (simp_all add: wf64_def)
  from fill_elem_wf64[OF m3(2), of 63 0 1 13 WALL_MIDDLE] obtain m4 where
    m4: "fill_elem m3 63 0 1 13 WALL_MIDDLE = Some m4" "wf64 m4" "m4 = m3\<lparr>walls := walls m4\<rparr>"
        "\<forall>x y. in_grid m3 x y \<longrightarrow> cell m4 x y = (if x = 63 then WALL_MIDDLE else cell m3 x y)"
    by (auto simp: wf64_in_grid[OF m3(2)])
  have d4: "maze_w m4 = 64" "maze_h m4 = 13" using m4(2) by (simp_all add: wf64_def)
  from fill_elem_wf64[OF m4(2), of 0 12 64 1 WALL_MIDDLE] obtain m5 where
    m5: "fill_elem m4 0 12 64 1 WALL_MIDDLE = Some m5" "wf64 m5" "m5 = m4\<lparr>walls := walls m5\<rparr>"
        "\<forall>x y. in_grid m4 x y \<longrightarrow> cell m5 x y = (if y = 12 then WALL_MIDDLE else cell m4 x y)"
    by (auto simp: wf64_in_grid[OF m4(2)])
  have c5: "cell m5 x y = init_tile x y" if "0 \<le> x" "x < 64" "0 \<le> y" "y < 13" for x y
    using that m1(4) m2(4) m3(4) m4(4) m5(4)
    by (simp add: wf64_in_grid[OF wf0] wf64_in_grid[OF m1(2)] wf64_in_grid[OF m2(2)]
          wf64_in_grid[OF m3(2)] wf64_in_grid[OF m4(2)] init_tile_def)
  have "walls m5 = initial_walls"
  proof (rule nth_equalityI)
    show "length (walls m5) = length initial_walls"
      using m5(2) by (simp add: wf64_def initial_walls_def)
  next
    fix i assume "i < length (walls m5)"
    then have i: "i < 832" using m5(2) by (simp add: wf64_def)
    define x where "x = int i mod 64"
    define y where "y = int i div 64"
    have r: "0 \<le> x" "x < 64" "0 \<le> y" "y < 13" using i by (simp_all add: x_def y_def)
    have ii: "nat (64 * y + x) = i" by (simp add: x_def y_def)
    have "walls m5 ! i = cell m5 x y" using m5(2) ii by (simp add: cell_def wf64_def)
    also have "\<dots> = init_tile x y" using r by (rule c5)
    also have "\<dots> = initial_walls ! i" using initial_walls_nth[OF r] by (simp only: ii)
    finally show "walls m5 ! i = initial_walls ! i" .
  qed
  then have e5: "m5 = m0\<lparr>walls := initial_walls\<rparr>"
    by (subst m5(3), subst m4(3), subst m3(3), subst m2(3), subst m1(3)) simp
  have "initial_floor_and_walls cfg \<lparr>rec_stack = rs, gen_maze = m0, rand_gen = r\<rparr>
           = Some \<lparr>rec_stack = rs, gen_maze = init_physics cfg m5, rand_gen = r\<rparr>"
    by (simp add: initial_floor_and_walls_def d0 d1 d2 d3 d4 m1(1) m2(1) m3(1) m4(1) m5(1))
  then show ?thesis unfolding e5 m0_def .
qed


lemma ginv_initial:
  assumes "\<not> maze_strict old"
  shows "ginv (init_physics cfg ((new_Maze old junk 64 13)\<lparr>walls := initial_walls\<rparr>))"
proof -
  define m where "m = init_physics cfg ((new_Maze old junk 64 13)\<lparr>walls := initial_walls\<rparr>)"
  have wf: "wf64 m" using assms by (simp add: m_def init_physics_def new_Maze_def wf64_def initial_walls_def)
  have w: "walls m = initial_walls" by (simp add: m_def init_physics_def)
  have c: "cell m x y = init_tile x y" if "in_grid m x y" for x y
  proof -
    from that have r: "0 \<le> x" "x < 64" "0 \<le> y" "y < 13" by (simp_all add: wf64_in_grid[OF wf])
    show ?thesis using wf initial_walls_nth[OF r] by (simp add: cell_def w wf64_def)
  qed
  have "border_solid m"
    unfolding border_solid_iff using wf by (auto simp: c init_tile_def is_wall_def wf64_def)
  moreover have "coinless m"
    by (auto simp: coinless_def w initial_walls_def init_tile_def)
  ultimately show ?thesis using wf unfolding m_def ginv_def minv_def by simp
qed

lemma coin_total_coinless: "coinless m \<Longrightarrow> coin_total m = 0"
proof -
  assume c: "coinless m"
  have "filter (\<lambda>t. t = COIN_OBJ1) (walls m) = []" "filter (\<lambda>t. t = COIN_OBJ2) (walls m) = []"
    using c by (auto simp: coinless_def filter_empty_conv)
  then show ?thesis by (simp add: coin_total_def count_tiles_def)
qed


subsection \<open>The whole generator\<close>

lemma ginv_spawnpos [simp]: "ginv (m\<lparr>spawnpos := p\<rparr>) = ginv m"
  by (simp add: ginv_def minv_def wf64_def border_solid_def border_cells_def cell_def coinless_def)

lemma minv_coins [simp]: "minv (m\<lparr>coins := n\<rparr>) = minv m"
  by (simp add: minv_def wf64_def border_solid_def border_cells_def cell_def)

lemma coin_total_coins [simp]: "coin_total (m\<lparr>coins := n\<rparr>) = coin_total m"
  by (simp add: coin_total_def count_tiles_def)

lemma anchors_row:
  "set (map (\<lambda>x. (x, 1)) [0..63]) \<subseteq> {0..63} \<times> {1..11::int}"
  "length (map (\<lambda>x. (x, 1::int)) [0..63]) = 64"
  by (simp_all only: set_map set_upto length_map length_upto) auto

lemma trace_cells_range:
  "set (concat (map (\<lambda>y. map (\<lambda>x. (x, y)) [1..62]) [1..12])) \<subseteq> {1..62} \<times> {1..12::int}"
  by (simp only: set_concat set_map set_upto) auto

lemma remove_traces_inv:
  assumes "place_inv gs"
  shows "\<exists>gs'. remove_traces_add_monsters gs = Some gs' \<and> place_inv gs'
            \<and> coin_total (gen_maze gs') = coin_total (gen_maze gs)
            \<and> coins (gen_maze gs') = coins (gen_maze gs) \<and> rec_stack gs' = rec_stack gs"
proof -
  define m where "m = gen_maze gs"
  have wf: "maze_w m = 64" "maze_h m = 13"
    using assms by (simp_all add: place_inv_def minv_def wf64_def m_def)
  have pi: "place_inv (gs\<lparr>gen_maze := m\<lparr>monsters := []\<rparr>\<rparr>)"
    using assms by (simp add: place_inv_def m_def)
  have e: "remove_traces_add_monsters gs
           = trace_cells (gs\<lparr>gen_maze := m\<lparr>monsters := []\<rparr>\<rparr>)
               (concat (map (\<lambda>y. map (\<lambda>x. (x, y)) [1..62]) [1..12]))"
    by (simp add: remove_traces_add_monsters_def Let_def m_def[symmetric] wf)
  from trace_cells_inv[OF pi trace_cells_range] show ?thesis
    unfolding e by (simp add: m_def)
qed

lemma place_coins_inv:
  assumes "gen_inv gs"
  shows "\<exists>gs'. place_coins gs = Some gs' \<and> place_inv gs'
            \<and> coins (gen_maze gs') = coin_total (gen_maze gs') \<and> rec_stack gs' = []"
proof -
  have pi: "place_inv gs" and cl: "coinless (gen_maze gs)"
    and rs: "set (rev (rec_stack gs)) \<subseteq> {0..63} \<times> {1..11}"
    using assms by (simp_all add: gen_inv_def ginv_def place_inv_def)
  from place_coins_loop_inv[OF pi rs, of 0] obtain res where
    res: "place_coins_loop (rev (rec_stack gs)) 0 gs = Some res" and
    post0: "case res of (n', gs') \<Rightarrow> place_inv gs' \<and> rec_stack gs' = rec_stack gs
            \<and> n' - 0 = coin_total (gen_maze gs') - coin_total (gen_maze gs)" by blast
  obtain n gs1 where rr: "res = (n, gs1)" by (cases res)
  note post = post0[unfolded rr prod.case]
  have n: "n = coin_total (gen_maze gs1)" using post coin_total_coinless[OF cl] by simp
  have e: "place_coins gs = Some (gs1\<lparr>rec_stack := [], gen_maze := (gen_maze gs1)\<lparr>coins := n\<rparr>\<rparr>)"
    by (simp add: place_coins_def res rr)
  show ?thesis unfolding e using post n by (simp add: place_inv_def)
qed

lemma generate_coins_on_platforms_inv:
  assumes "gen_inv gs" "rec_stack gs = []"
  shows "\<exists>gs'. generate_coins_on_platforms gs = Some gs' \<and> place_inv gs'
            \<and> coins (gen_maze gs') = coin_total (gen_maze gs') \<and> rec_stack gs' = []"
proof -
  have w: "maze_w (gen_maze gs) = 64" using assms(1) by (simp add: gen_inv_def ginv_def minv_def wf64_def)
  from gen_inv_randn[OF assms(1), of 62] obtain v g where
    rn: "randn gs 62 = Some (v, gs\<lparr>rand_gen := g\<rparr>)"
    and gi: "gen_inv (gs\<lparr>rand_gen := g\<rparr>)" by auto
  define gs2 where "gs2 = gs\<lparr>rand_gen := g, gen_maze := (gen_maze gs)\<lparr>spawnpos := (1 + v, 1)\<rparr>,
                              rec_stack := map (\<lambda>x. (x, 1)) [0..63]\<rparr>"
  have gi2: "gen_inv gs2" using gi anchors_row(1) by (simp add: gen_inv_def gs2_def)
  have l2: "length (rec_stack gs2) + 143 * nat (11 * 10 - 0) \<le> 46340"
    by (simp add: gs2_def anchors_row(2))
  from platforms_loop_inv[OF gi2 _ _ l2] obtain res where
    res: "platforms_loop 0 11 gs2 = Some res" and
    post0: "case res of (p', want', gs') \<Rightarrow> gen_inv gs' \<and> 1 \<le> want' \<and> want' \<le> 11
            \<and> want' * 10 \<le> p' \<and> p' \<le> max 0 (11 * 10) \<and> 11 - want' \<le> p'
            \<and> length (rec_stack gs') \<le> length (rec_stack gs2) + 143 * nat (11 * 10 - 0)"
    by auto
  obtain p want gs3 where rr: "res = (p, want, gs3)" by (cases res)
  note post = post0[unfolded rr prod.case]
  from place_coins_inv[of gs3] post obtain gs4 where
    g4: "place_coins gs3 = Some gs4" "place_inv gs4"
        "coins (gen_maze gs4) = coin_total (gen_maze gs4)" "rec_stack gs4 = []" by blast
  from remove_traces_inv[OF g4(2)] obtain gs5 where
    g5: "remove_traces_add_monsters gs4 = Some gs5" "place_inv gs5"
        "coin_total (gen_maze gs5) = coin_total (gen_maze gs4)"
        "coins (gen_maze gs5) = coins (gen_maze gs4)" "rec_stack gs5 = rec_stack gs4" by blast
  have "generate_coins_on_platforms gs = Some gs5"
    using rn res rr g4(1) g5(1) assms(2)
    by (simp add: generate_coins_on_platforms_def w Let_def gs2_def)
  then show ?thesis using g4 g5 by simp
qed

lemma generate_total:
  assumes "\<not> maze_strict old"
  shows "\<exists>gs. generate mt cfg old junk g0 level_seed = Some gs \<and> place_inv gs
            \<and> coins (gen_maze gs) = coin_total (gen_maze gs) \<and> rec_stack gs = []"
proof -
  define gs1 where "gs1 = \<lparr>rec_stack = [],
                   gen_maze = init_physics cfg ((new_Maze old junk 64 13)\<lparr>walls := initial_walls\<rparr>),
                   rand_gen = seed mt g0 level_seed\<rparr>"
  have gi: "gen_inv gs1"
    using ginv_initial[OF assms, of cfg junk] by (simp add: gen_inv_def gs1_def seed_def)
  have r: "rec_stack gs1 = []" by (simp add: gs1_def)
  have e: "generate mt cfg old junk g0 level_seed = generate_coins_on_platforms gs1"
    by (simp add: generate_def initial_floor_and_walls_result[OF assms] gs1_def)
  from generate_coins_on_platforms_inv[OF gi r] show ?thesis unfolding e .
qed

section \<open>The generator as a function of the seed\<close>

text \<open>
  The fields of a fresh \<^verbatim>\<open>Maze\<close> that the constructor leaves uninitialised are written
  before they are read: the cells by the first \<^verbatim>\<open>fill_elem\<close>, the physics constants by
  \<^verbatim>\<open>init_physics\<close>, the spawn position at the start of
  \<^verbatim>\<open>generate_coins_on_platforms\<close>.
\<close>

lemma generate_coins_on_platforms_spawnpos:
  "generate_coins_on_platforms (gs\<lparr>gen_maze := (gen_maze gs)\<lparr>spawnpos := p\<rparr>\<rparr>)
     = generate_coins_on_platforms gs"
proof (cases "randint (rand_gen gs) 0 (maze_w (gen_maze gs) - 2)")
  case None
  then show ?thesis by (simp add: generate_coins_on_platforms_def randn_def)
next
  case (Some vg)
  obtain v g where vg: "vg = (v, g)" by (cases vg)
  show ?thesis using Some by (simp add: generate_coins_on_platforms_def randn_def vg Let_def)
qed

lemma seed_eq: "seed mt g1 s = seed mt g2 s"
  by (cases g1, cases g2) (simp add: seed_def)

lemma fresh_maze_eq:
  assumes "maze_strict old1 = maze_strict old2"
  shows "(init_physics cfg ((new_Maze old1 junk1 64 13)\<lparr>walls := initial_walls\<rparr>))\<lparr>spawnpos := p\<rparr>
       = (init_physics cfg ((new_Maze old2 junk2 64 13)\<lparr>walls := initial_walls\<rparr>))\<lparr>spawnpos := p\<rparr>"
  using assms by (cases old1, cases old2) (simp add: init_physics_def new_Maze_def)

text \<open>
  C3. For every seed the generator returns a level, and the level (tile grid, coin
  counter and every other field) is the same whatever the fresh maze object, the fresh
  array and the generator's engine held before: two runs with the same seed give the
  same result.
\<close>

theorem generate_deterministic:
  assumes "\<not> maze_strict old1" "\<not> maze_strict old2"
  shows "generate mt cfg old1 junk1 g1 level_seed = generate mt cfg old2 junk2 g2 level_seed
         \<and> (\<exists>gs. generate mt cfg old1 junk1 g1 level_seed = Some gs)"
proof -
  define start where "start = (\<lambda>old junk. \<lparr>rec_stack = [],
                   gen_maze = init_physics cfg ((new_Maze old junk 64 13)\<lparr>walls := initial_walls\<rparr>),
                   rand_gen = seed mt g1 level_seed\<rparr>)"
  have e1: "generate mt cfg old1 junk1 g1 level_seed = generate_coins_on_platforms (start old1 junk1)"
    by (simp add: generate_def initial_floor_and_walls_result[OF assms(1)] start_def)
  have e2: "generate mt cfg old2 junk2 g2 level_seed = generate_coins_on_platforms (start old2 junk2)"
    by (simp add: generate_def initial_floor_and_walls_result[OF assms(2)] start_def seed_eq[of mt g2 _ g1])
  have "(start old1 junk1)\<lparr>gen_maze := (gen_maze (start old1 junk1))\<lparr>spawnpos := (0, 0)\<rparr>\<rparr>
      = (start old2 junk2)\<lparr>gen_maze := (gen_maze (start old2 junk2))\<lparr>spawnpos := (0, 0)\<rparr>\<rparr>"
  proof -
    have "maze_strict old1 = maze_strict old2" using assms by simp
    from fresh_maze_eq[OF this] show ?thesis by (simp add: start_def)
  qed
  then have "generate_coins_on_platforms (start old1 junk1) = generate_coins_on_platforms (start old2 junk2)"
    using generate_coins_on_platforms_spawnpos[where gs = "start old1 junk1" and p = "(0, 0)"]
          generate_coins_on_platforms_spawnpos[where gs = "start old2 junk2" and p = "(0, 0)"] by simp
  moreover from generate_total[OF assms(1), of mt cfg junk1 g1 level_seed]
  have "\<exists>gs. generate mt cfg old1 junk1 g1 level_seed = Some gs" by blast
  ultimately show ?thesis unfolding e1 e2 by simp
qed

text \<open>The sequence that is 0 throughout, in the place of the engine's output.\<close>

definition zero_mt :: "int \<Rightarrow> nat \<Rightarrow> 32 word" where
  "zero_mt s i = 0"

theorem generate_deterministic_witness:
  "generate zero_mt default_config (maze_of 0 0 [] 0) (\<lambda>i. CHR ''x'') rng0 7
     = generate zero_mt default_config last_coin_maze (\<lambda>i. CHR ''1'') (rng0\<lparr>is_seeded := False\<rparr>) 7
   \<and> (\<exists>gs. generate zero_mt default_config (maze_of 0 0 [] 0) (\<lambda>i. CHR ''x'') rng0 7 = Some gs)"
proof -
  have a: "\<not> maze_strict (maze_of 0 0 [] 0)" by (simp add: maze_of_def)
  have b: "\<not> maze_strict last_coin_maze" by (simp add: maze_of_def last_coin_maze_def)
  show ?thesis by (rule generate_deterministic[OF a b])
qed

section \<open>The loop over the platform attempts\<close>

lemma platforms_loop_bound:
  "platforms_loop p want gs = Some (p', want', gs') \<Longrightarrow> p \<le> want * 10 + 10 \<Longrightarrow>
   p' \<le> want' * 10 + 10"
proof (induction "nat (want * 10 - p)" arbitrary: p want gs rule: less_induct)
  case less
  show ?case
  proof (cases "p < want * 10")
    case False
    then have "platforms_loop p want gs = Some (p, want, gs)"
      by (subst platforms_loop.simps) simp
    with less.prems show ?thesis by simp
  next
    case True
    from less.prems(1) True obtain ok gs1 where
      j: "jump_and_build_platform_somewhere gs = Some (ok, gs1)"
      by (subst (asm) platforms_loop.simps) (auto split: Option.bind_splits)
    define want1 where "want1 = (if ok then want - 1 else want)"
    show ?thesis
    proof (cases "want1 = 0")
      case z: True
      then have "platforms_loop p want gs = Some (p, want1, gs1)"
        using True j by (subst platforms_loop.simps) (simp add: Let_def want1_def[symmetric])
      with less.prems(1) have "p' = p" "want' = want1" by simp_all
      moreover have "want \<le> 1" using z by (auto simp: want1_def split: if_splits)
      ultimately show ?thesis using True z by simp
    next
      case nz: False
      then have e: "platforms_loop p want gs = platforms_loop (p + 1) want1 gs1"
        using True j by (subst platforms_loop.simps) (simp add: Let_def want1_def[symmetric])
      have w: "want - 1 \<le> want1" "want1 \<le> want" by (simp_all add: want1_def)
      have dec: "nat (want1 * 10 - (p + 1)) < nat (want * 10 - p)" using True w by linarith
      have b: "p + 1 \<le> want1 * 10 + 10" using True w by linarith
      from less.hyps[OF dec less.prems(1)[unfolded e] b] show ?thesis .
    qed
  qed
qed

text \<open>The state in which \<^verbatim>\<open>generate_coins_on_platforms\<close> enters the loop, for some level.\<close>

definition loop_entry :: RandomMazeGenerator where
  "loop_entry =
     \<lparr> rec_stack = map (\<lambda>x. (x, 1)) [0..63],
       gen_maze = init_physics default_config
                    ((new_Maze (maze_of 0 0 [] 0) (\<lambda>i. CHR ''x'') 64 13)\<lparr>walls := initial_walls\<rparr>),
       rand_gen = rng0 \<rparr>"

lemma gen_inv_loop_entry: "gen_inv loop_entry"
proof -
  have "\<not> maze_strict (maze_of 0 0 [] 0)" by (simp add: maze_of_def)
  from ginv_initial[OF this, of default_config "\<lambda>i. CHR ''x''"] anchors_row(1)
  show ?thesis by (simp add: gen_inv_def loop_entry_def rng0_def)
qed

text \<open>
  C7. The loop \<^verbatim>\<open>for (p=0; p<want_platforms*10; p++)\<close> of
  \<^verbatim>\<open>generate_coins_on_platforms\<close>, entered with the 64 anchors of the floor and
  \<^verbatim>\<open>want_platforms = 11\<close>, always ends without an error, but never by the \<^verbatim>\<open>break\<close>:
  at least one of the 11 platforms is still wanted when it ends, and the number \<open>p\<close> of
  attempts made lies between 10 times and 10 times plus 10 the number of platforms still
  wanted. The eleventh platform is never placed, and after \<open>k \<ge> 1\<close> placements the
  attempts end at \<open>10 * (12 - k)\<close> at the latest, not at 110.
\<close>

theorem platform_target_never_reached:
  assumes "gen_inv gs" "length (rec_stack gs) = 64"
  shows "\<exists>p want gs'. platforms_loop 0 11 gs = Some (p, want, gs') \<and> gen_inv gs'
           \<and> 1 \<le> want \<and> want \<le> 11 \<and> want * 10 \<le> p \<and> p \<le> want * 10 + 10"
proof -
  have l: "length (rec_stack gs) + 143 * nat (11 * 10 - 0) \<le> 46340" using assms(2) by simp
  from platforms_loop_inv[OF assms(1) _ _ l] obtain res where
    res: "platforms_loop 0 11 gs = Some res" and
    post0: "case res of (p', want', gs') \<Rightarrow> gen_inv gs' \<and> 1 \<le> want' \<and> want' \<le> 11
            \<and> want' * 10 \<le> p' \<and> p' \<le> max 0 (11 * 10) \<and> 11 - want' \<le> p'
            \<and> length (rec_stack gs') \<le> length (rec_stack gs) + 143 * nat (11 * 10 - 0)"
    by auto
  obtain p want gs' where rr: "res = (p, want, gs')" by (cases res)
  note post = post0[unfolded rr prod.case]
  from platforms_loop_bound[OF res[unfolded rr]] have "p \<le> want * 10 + 10" by simp
  then show ?thesis using res rr post by simp
qed

theorem platform_target_never_reached_witness:
  "\<exists>p want gs'. platforms_loop 0 11 loop_entry = Some (p, want, gs') \<and> gen_inv gs'
           \<and> 1 \<le> want \<and> want \<le> 11 \<and> want * 10 \<le> p \<and> p \<le> want * 10 + 10"
proof -
  have "length (rec_stack loop_entry) = 64" by (simp add: loop_entry_def anchors_row(2))
  from platform_target_never_reached[OF gen_inv_loop_entry this] show ?thesis .
qed

section \<open>A group submitted again before its batch has completed\<close>
















section \<open>A ladder from the border column\<close>

text \<open>
  The first six outputs of \<^verbatim>\<open>std::mt19937\<close> after \<^verbatim>\<open>seed(28)\<close>; the run below draws no
  more than these.
\<close>

definition mt19937_28 :: "nat \<Rightarrow> 32 word" where
  "mt19937_28 i = (if i = 0 then 3131090177 else if i = 1 then 733679609
                   else if i = 2 then 2410505733 else if i = 3 then 1237120278
                   else if i = 4 then 536729588 else if i = 5 then 705436704 else 0)"

text \<open>The generator's engine after \<open>k\<close> draws.\<close>

definition rng28 :: "nat \<Rightarrow> RandGen" where
  "rng28 k = \<lparr> is_seeded = True, stdgen = (\<lambda>i. mt19937_28 (i + k)) \<rparr>"

text \<open>A maze object in which every access outside \<open>[0, w) \<times> [0, h)\<close> is refused.\<close>

definition strict_maze :: Maze where
  "strict_maze = (maze_of 0 0 [] 0)\<lparr>maze_strict := True\<rparr>"

lemma seed_28: "seed (\<lambda>s. mt19937_28) g 28 = rng28 0"
  by (cases g) (simp add: seed_def rng28_def)

lemma randint_rng28:
  "(word_of_int (high - low) :: 32 word) \<noteq> 0 \<Longrightarrow>
   randint (rng28 k) low high
     = Some (sint (word_of_int low + mt19937_28 k mod word_of_int (high - low)), rng28 (k + 1))"
  by (simp add: randint_def stdgen_call_def rng28_def Let_def)

lemma rand01_rng28:
  "rand01 (rng28 k) = Some (real (unat (mt19937_28 k)) / 2 ^ 32, rng28 (k + 1))"
  by (simp add: rand01_def stdgen_call_def rng28_def)

lemma sqrt_down_eq:
  "r * r \<le> k \<Longrightarrow> k < Suc r * Suc r \<Longrightarrow> r \<le> b \<Longrightarrow> sqrt_down k b = r"
proof (induction b)
  case 0
  then show ?case by simp
next
  case (Suc b)
  show ?case
  proof (cases "Suc b = r")
    case True
    have "sqrt_down k (Suc b) = Suc b" using Suc.prems(1) by (simp add: True[symmetric])
    then show ?thesis using True by simp
  next
    case False
    then have rb: "r \<le> b" using Suc.prems(3) by simp
    then have "Suc r * Suc r \<le> Suc b * Suc b" by (intro mult_mono) simp_all
    then have "\<not> Suc b * Suc b \<le> k" using Suc.prems(2) by linarith
    then show ?thesis using Suc.IH[OF Suc.prems(1,2) rb] by simp
  qed
qed

lemma int_sqrt_4089: "int_sqrt 4089 = 63"
proof -
  have "sqrt_down 4089 4089 = 63" by (rule sqrt_down_eq) simp_all
  then show ?thesis by (simp add: int_sqrt_def)
qed


text \<open>
  The fills of \<^verbatim>\<open>initial_floor_and_walls\<close> stay inside the grid, so they run in a
  maze that refuses every other access as they run in one that does not.
\<close>

abbreviation (input) refusing :: "Maze \<Rightarrow> Maze" where
  "refusing m \<equiv> m\<lparr>maze_strict := True\<rparr>"

lemma in_array_strict [simp]: "in_array (m\<lparr>maze_strict := b\<rparr>) x y = in_array m x y"
  by (simp add: in_array_def)

lemma in_grid_strict [simp]: "in_grid (m\<lparr>maze_strict := b\<rparr>) x y = in_grid m x y"
  by (simp add: in_grid_def)

lemma set_elems_refusing:
  "\<not> maze_strict m \<Longrightarrow> \<forall>p\<in>set ps. in_grid m (fst p) (snd p) \<Longrightarrow>
   set_elems (refusing m) ps v = map_option refusing (set_elems m ps v)"
proof (induction ps arbitrary: m)
  case Nil
  then show ?case by simp
next
  case (Cons p ps)
  obtain a b where p: "p = (a, b)" by (cases p)
  from Cons.prems have ig: "in_grid m a b" by (simp add: p)
  show ?case
  proof (cases "in_array m a b")
    case False
    then have "set_elem m a b v = None" "set_elem (refusing m) a b v = None"
      by (simp_all add: set_elem_def may_access_def)
    then show ?thesis by (simp add: p)
  next
    case True
    define m1 where "m1 = m\<lparr>walls := (walls m)[nat (maze_w m * b + a) := v]\<rparr>"
    have s: "set_elem m a b v = Some m1"
      using True Cons.prems(1) by (simp add: set_elem_def may_access_def m1_def)
    have s': "set_elem (refusing m) a b v = Some (refusing m1)"
      using True ig by (simp add: set_elem_def may_access_def m1_def)
    have "\<not> maze_strict m1" "\<forall>p\<in>set ps. in_grid m1 (fst p) (snd p)"
      using Cons.prems by (simp_all add: m1_def in_grid_def)
    from Cons.IH[OF this] show ?thesis by (simp add: p s s')
  qed
qed

lemma fill_elem_refusing:
  assumes "wf64 m" "0 \<le> x0" "0 \<le> y0" "x0 + dx \<le> 64" "y0 + dy \<le> 13"
  shows "fill_elem (refusing m) x0 y0 dx dy v = map_option refusing (fill_elem m x0 y0 dx dy v)"
proof -
  let ?ps = "concat (map (\<lambda>j. map (\<lambda>k. (x0 + j, y0 + k)) [0..dy - 1]) [0..dx - 1])"
  have "\<forall>p\<in>set ?ps. in_grid m (fst p) (snd p)"
  proof
    fix p assume "p \<in> set ?ps"
    then have "(fst p, snd p) \<in> set ?ps" by simp
    then have "x0 \<le> fst p \<and> fst p < x0 + dx \<and> y0 \<le> snd p \<and> snd p < y0 + dy"
      by (simp only: fill_cells_set)
    then show "in_grid m (fst p) (snd p)" using assms by (simp add: wf64_in_grid)
  qed
  moreover have "\<not> maze_strict m" using assms(1) by (simp add: wf64_def)
  ultimately show ?thesis by (simp add: fill_elem_def set_elems_refusing)
qed

lemma fill_elem_Some_wf64:
  assumes "wf64 m" "0 \<le> x0" "0 \<le> y0" "x0 + dx \<le> 64" "y0 + dy \<le> 13"
  shows "\<exists>m'. fill_elem m x0 y0 dx dy v = Some m' \<and> wf64 m'
            \<and> fill_elem (refusing m) x0 y0 dx dy v = Some (refusing m')"
proof -
  from fill_elem_wf64[OF assms, of v] obtain m' where
    "fill_elem m x0 y0 dx dy v = Some m'" "wf64 m'" by blast
  then show ?thesis using fill_elem_refusing[OF assms, of v] by simp
qed

lemma initial_floor_and_walls_refusing:
  assumes "maze_strict old"
  shows "initial_floor_and_walls cfg \<lparr>rec_stack = rs, gen_maze = new_Maze old junk 64 13, rand_gen = r\<rparr>
           = Some \<lparr>rec_stack = rs,
                   gen_maze = init_physics cfg ((new_Maze old junk 64 13)\<lparr>walls := initial_walls\<rparr>),
                   rand_gen = r\<rparr>"
proof -
  define m0 where "m0 = new_Maze (old\<lparr>maze_strict := False\<rparr>) junk 64 13"
  have ns: "\<not> maze_strict (old\<lparr>maze_strict := False\<rparr>)" by simp
  have wf0: "wf64 m0" unfolding m0_def using ns by (rule wf64_new_Maze)
  have r0: "new_Maze old junk 64 13 = refusing m0" using assms by (simp add: m0_def new_Maze_def)
  from fill_elem_Some_wf64[OF wf0, of 0 0 64 13 SPACE] obtain m1 where
    m1: "fill_elem m0 0 0 64 13 SPACE = Some m1" "wf64 m1"
        "fill_elem (refusing m0) 0 0 64 13 SPACE = Some (refusing m1)" by auto
  from fill_elem_Some_wf64[OF m1(2), of 0 0 64 1 WALL_SURFACE] obtain m2 where
    m2: "fill_elem m1 0 0 64 1 WALL_SURFACE = Some m2" "wf64 m2"
        "fill_elem (refusing m1) 0 0 64 1 WALL_SURFACE = Some (refusing m2)" by auto
  from fill_elem_Some_wf64[OF m2(2), of 0 0 1 13 WALL_MIDDLE] obtain m3 where
    m3: "fill_elem m2 0 0 1 13 WALL_MIDDLE = Some m3" "wf64 m3"
        "fill_elem (refusing m2) 0 0 1 13 WALL_MIDDLE = Some (refusing m3)" by auto
  from fill_elem_Some_wf64[OF m3(2), of 63 0 1 13 WALL_MIDDLE] obtain m4 where
    m4: "fill_elem m3 63 0 1 13 WALL_MIDDLE = Some m4" "wf64 m4"
        "fill_elem (refusing m3) 63 0 1 13 WALL_MIDDLE = Some (refusing m4)" by auto
  from fill_elem_Some_wf64[OF m4(2), of 0 12 64 1 WALL_MIDDLE] obtain m5 where
    m5: "fill_elem m4 0 12 64 1 WALL_MIDDLE = Some m5" "wf64 m5"
        "fill_elem (refusing m4) 0 12 64 1 WALL_MIDDLE = Some (refusing m5)" by auto
  note d = wf0 m1(2) m2(2) m3(2) m4(2)
  have plain: "initial_floor_and_walls cfg \<lparr>rec_stack = rs, gen_maze = m0, rand_gen = r\<rparr>
           = Some \<lparr>rec_stack = rs, gen_maze = init_physics cfg m5, rand_gen = r\<rparr>"
    using d by (simp add: initial_floor_and_walls_def wf64_def m1(1) m2(1) m3(1) m4(1) m5(1))
  have "init_physics cfg m5 = init_physics cfg (m0\<lparr>walls := initial_walls\<rparr>)"
    using plain initial_floor_and_walls_result[OF ns, of cfg rs junk r] by (simp add: m0_def)
  moreover have c: "init_physics cfg (refusing m) = refusing (init_physics cfg m)" for m
    by (simp add: init_physics_def)
  moreover have "(refusing m0)\<lparr>walls := initial_walls\<rparr> = refusing (m0\<lparr>walls := initial_walls\<rparr>)"
    by simp
  ultimately have e: "init_physics cfg (refusing m5) = init_physics cfg ((refusing m0)\<lparr>walls := initial_walls\<rparr>)"
    by (simp only: c)
  have "initial_floor_and_walls cfg \<lparr>rec_stack = rs, gen_maze = refusing m0, rand_gen = r\<rparr>
           = Some \<lparr>rec_stack = rs, gen_maze = init_physics cfg (refusing m5), rand_gen = r\<rparr>"
    using d by (simp add: initial_floor_and_walls_def wf64_def m1(3) m2(3) m3(3) m4(3) m5(3))
  then show ?thesis unfolding r0 e .
qed


text \<open>The level before the first platform, in a maze that refuses accesses outside the grid.\<close>

definition fresh_level :: "Maze \<Rightarrow> bool" where
  "fresh_level m \<longleftrightarrow> maze_strict m \<and> maze_w m = 64 \<and> maze_h m = 13 \<and> walls m = initial_walls"

lemma fresh_level_get:
  assumes "fresh_level m" "0 \<le> x" "x < 64" "0 \<le> y" "y < 13"
  shows "get_elem m x y = Some (init_tile x y)"
proof -
  have "nat (64 * y + x) < 832" using assms by linarith
  then show ?thesis
    using assms initial_walls_nth[OF assms(2-5)]
    by (simp add: get_elem_def may_access_def in_array_def in_grid_def fresh_level_def initial_walls_def)
qed

lemma fresh_level_outside: "fresh_level m \<Longrightarrow> get_elem m 64 2 = None"
  by (simp add: get_elem_def may_access_def in_grid_def fresh_level_def)

lemma randn_28:
  "(word_of_int n :: 32 word) \<noteq> 0 \<Longrightarrow>
   randn \<lparr>rec_stack = rs, gen_maze = m, rand_gen = rng28 k\<rparr> n
     = Some (sint (mt19937_28 k mod word_of_int n),
             \<lparr>rec_stack = rs, gen_maze = m, rand_gen = rng28 (k + 1)\<rparr>)"
  by (simp add: randn_def randint_rng28)

lemma gen_rand01_28:
  "gen_rand01 \<lparr>rec_stack = rs, gen_maze = m, rand_gen = rng28 k\<rparr>
     = Some (real (unat (mt19937_28 k)) / 2 ^ 32,
             \<lparr>rec_stack = rs, gen_maze = m, rand_gen = rng28 (k + 1)\<rparr>)"
  by (simp add: gen_rand01_def rand01_rng28)

lemma ladder_from_border:
  assumes "fresh_level m" "k = 5"
  shows "ladder_branch \<lparr>rec_stack = rs, gen_maze = m, rand_gen = rng28 k\<rparr> (63, 1) n = None"
proof -
  have h: "maze_h m = 13" using assms(1) by (simp add: fresh_level_def)
  have g: "get_elem m 63 1 = Some WALL_MIDDLE" "get_elem m 63 0 = Some WALL_MIDDLE"
          "get_elem m 63 2 = Some WALL_MIDDLE" "get_elem m 62 2 = Some SPACE"
    using fresh_level_get[OF assms(1)] by (simp_all add: init_tile_def)
  have o: "get_elem m 64 2 = None" using assms(1) by (rule fresh_level_outside)
  have n9: "(9::nat) = Suc 8" by simp
  have l: "ladder_loop 9 m 63 1 [] = None"
    by (subst n9, subst ladder_loop.simps) (simp add: g o)
  show ?thesis
    by (simp add: ladder_branch_def Let_def h g is_crat_def randn_28 mt19937_28_def l assms(2))
qed

lemma first_attempt_28:
  assumes "fresh_level m" "k = 1" "rs = map (\<lambda>x. (x, 1)) [0..63]"
  shows "jump_and_build_platform_somewhere \<lparr>rec_stack = rs, gen_maze = m, rand_gen = rng28 k\<rparr> = None"
proof -
  have len: "int (length (map (\<lambda>x. (x, 1::int)) [0..63])) = 64" by (simp add: anchors_row(2))
  have ai: "at_index (map (\<lambda>x. (x, 1::int)) [0..63]) 63 = Some (63, 1)"
    by (simp add: at_index_def upto.simps)
  have ne: "map (\<lambda>x. (x, 1::int)) [0..63] \<noteq> []" by (simp add: upto.simps)
  show ?thesis
    unfolding assms(2,3)
    by (simp add: jump_and_build_platform_somewhere_def Let_def len ne randn_28 mt19937_28_def
          int_sqrt_4089 ai gen_rand01_28 ladder_from_border[OF assms(1)] del: upto.simps)
qed

text \<open>
  C9. With the level seed 28 the first attempt of the generator takes the anchor
  \<open>(63, 1)\<close> in the right border column and tries a ladder; the loop over the shaft
  reads \<^verbatim>\<open>get_elem(ix+1, iy)\<close>, the cell \<open>(64, 2)\<close>, outside \<open>[0, 64) \<times> [0, 13)\<close>. In a
  maze that refuses such an access the generation therefore does not complete.
\<close>

theorem generate_seed28_leaves_grid:
  "generate (\<lambda>s. mt19937_28) default_config strict_maze (\<lambda>i. CHR ''?'') rng0 28 = None"
proof -
  have st: "maze_strict strict_maze" by (simp add: strict_maze_def)
  define m where "m = init_physics default_config
                        ((new_Maze strict_maze (\<lambda>i. CHR ''?'') 64 13)\<lparr>walls := initial_walls\<rparr>)"
  have w: "maze_w m = 64" by (simp add: m_def init_physics_def new_Maze_def)
  have fl: "fresh_level (m\<lparr>spawnpos := p\<rparr>)" for p
    using st by (simp add: fresh_level_def m_def init_physics_def new_Maze_def)
  have j: "jump_and_build_platform_somewhere
             \<lparr>rec_stack = map (\<lambda>x. (x, 1)) [0..63], gen_maze = m\<lparr>spawnpos := p\<rparr>, rand_gen = rng28 (Suc 0)\<rparr>
           = None" for p
    by (rule first_attempt_28[OF fl]) simp_all
  have l: "platforms_loop 0 11
             \<lparr>rec_stack = map (\<lambda>x. (x, 1)) [0..63], gen_maze = m\<lparr>spawnpos := p\<rparr>, rand_gen = rng28 (Suc 0)\<rparr>
           = None" for p
    by (subst platforms_loop.simps) (simp add: j del: upto.simps)
  have "generate_coins_on_platforms \<lparr>rec_stack = [], gen_maze = m, rand_gen = rng28 0\<rparr> = None"
    by (simp add: generate_coins_on_platforms_def w randn_28 Let_def l del: upto.simps)
  then show ?thesis
    by (simp add: generate_def initial_floor_and_walls_refusing[OF st] seed_28 m_def)
qed

text \<open>In the maze as the program has it the same run completes.\<close>

lemma generate_seed28_returns:
  "\<exists>gs. generate (\<lambda>s. mt19937_28) default_config (maze_of 0 0 [] 0) (\<lambda>i. CHR ''?'') rng0 28 = Some gs"
proof -
  have "\<not> maze_strict (maze_of 0 0 [] 0)" by (simp add: maze_of_def)
  from generate_total[OF this] show ?thesis by blast
qed

section \<open>Gems and the coin counter\<close>

text \<open>
  A sequence of pickups: \<^verbatim>\<open>eat_coin\<close> called at one cell after the other, as
  \<^verbatim>\<open>sub_step\<close> calls it at the four cells under the agent. Nothing else in the
  simulation writes a cell or the counter.
\<close>

fun eat_coins :: "Agent \<times> Maze \<Rightarrow> (int \<times> int) list \<Rightarrow> (Agent \<times> Maze) option" where
  "eat_coins am [] = Some am"
| "eat_coins am ((x, y) # ps) = do { am \<leftarrow> eat_coin am x y; eat_coins am ps }"

lemma eat_coin_cases:
  assumes "eat_coin (a, m) x y = Some (a', m')"
  obtains (coin) "get_elem m x y = Some COIN_OBJ1"
      "m' = (if coins m - 1 = 0 then (m\<lparr>walls := (walls m)[nat (maze_w m * y + x) := SPACE],
                                          coins := coins m - 1, is_terminated := True\<rparr>)
             else m\<lparr>walls := (walls m)[nat (maze_w m * y + x) := SPACE], coins := coins m - 1\<rparr>)"
      "coins m - 1 \<noteq> 0 \<Longrightarrow> finished_level_frame_cnt a' = finished_level_frame_cnt a
                              \<and> reward a' = reward a + 1"
    | (gem) "get_elem m x y = Some COIN_OBJ2"
      "m' = m\<lparr>walls := (walls m)[nat (maze_w m * y + x) := SPACE]\<rparr>"
      "finished_level_frame_cnt a' = finished_level_frame_cnt a" "reward a' = reward a + 1"
    | (lethal) "m' = m\<lparr>is_terminated := True\<rparr>" "is_killed a'"
      "finished_level_frame_cnt a' = finished_level_frame_cnt a"
    | (other) "m' = m" "a' = a"
proof -
  from assms obtain obj where g: "get_elem m x y = Some obj"
    by (auto simp: eat_coin_def split: Option.bind_splits)
  then have ma: "may_access m x y" by (simp add: get_elem_def split: if_splits)
  consider "obj = COIN_OBJ1" | "obj = COIN_OBJ2" | "is_lethal obj"
    | "obj \<noteq> COIN_OBJ1" "obj \<noteq> COIN_OBJ2" "\<not> is_lethal obj" by blast
  then show thesis
  proof cases
    case 1
    then have nl: "\<not> is_lethal obj" "is_coin obj" "\<not> is_gem obj"
      by (simp_all add: is_lethal_def is_coin_def is_gem_def)
    show ?thesis
    proof (rule coin)
      show "get_elem m x y = Some COIN_OBJ1" using g 1 by simp
      show "m' = (if coins m - 1 = 0 then (m\<lparr>walls := (walls m)[nat (maze_w m * y + x) := SPACE],
                                          coins := coins m - 1, is_terminated := True\<rparr>)
             else m\<lparr>walls := (walls m)[nat (maze_w m * y + x) := SPACE], coins := coins m - 1\<rparr>)"
        using assms g nl ma by (auto simp: eat_coin_def set_elem_def Let_def split: if_splits)
      show "finished_level_frame_cnt a' = finished_level_frame_cnt a \<and> reward a' = reward a + 1"
        if "coins m - 1 \<noteq> 0"
        using assms g nl ma that by (auto simp: eat_coin_def set_elem_def Let_def split: if_splits)
    qed
  next
    case 2
    then have nl: "\<not> is_lethal obj" "\<not> is_coin obj" "is_gem obj"
      by (simp_all add: is_lethal_def is_coin_def is_gem_def)
    show ?thesis
    proof (rule gem)
      show "get_elem m x y = Some COIN_OBJ2" using g 2 by simp
      show "m' = m\<lparr>walls := (walls m)[nat (maze_w m * y + x) := SPACE]\<rparr>"
        using assms g nl ma by (auto simp: eat_coin_def set_elem_def)
      show "finished_level_frame_cnt a' = finished_level_frame_cnt a"
        using assms g nl ma by (auto simp: eat_coin_def set_elem_def)
      show "reward a' = reward a + 1"
        using assms g nl ma by (auto simp: eat_coin_def set_elem_def)
    qed
  next
    case 3
    then have nl: "\<not> is_coin obj" "\<not> is_gem obj"
      by (auto simp: is_lethal_def is_coin_def is_gem_def)
    show ?thesis
    proof (rule lethal)
      show "m' = m\<lparr>is_terminated := True\<rparr>" using assms g nl 3 by (auto simp: eat_coin_def)
      show "is_killed a'" using assms g nl 3 by (auto simp: eat_coin_def)
      show "finished_level_frame_cnt a' = finished_level_frame_cnt a"
        using assms g nl 3 by (auto simp: eat_coin_def)
    qed
  next
    case 4
    then have nl: "\<not> is_coin obj" "\<not> is_gem obj"
      by (auto simp: is_coin_def is_gem_def)
    show ?thesis
    proof (rule other)
      show "m' = m" using assms g nl 4 by (auto simp: eat_coin_def)
      show "a' = a" using assms g nl 4 by (auto simp: eat_coin_def)
    qed
  qed
qed


text \<open>The counter less the coins that lie in the maze.\<close>

definition gem_surplus :: "Maze \<Rightarrow> int" where
  "gem_surplus m = coins m - int (count_tiles COIN_OBJ1 m)"

lemma get_elem_index:
  assumes "get_elem m x y = Some c"
  shows "nat (maze_w m * y + x) < length (walls m)" "walls m ! nat (maze_w m * y + x) = c"
  using assms by (auto simp: get_elem_def may_access_def in_array_def split: if_splits)

lemma eat_coin_surplus:
  assumes "eat_coin (a, m) x y = Some (a', m')"
  shows "gem_surplus m' = gem_surplus m"
    and "1 \<le> gem_surplus m \<Longrightarrow> 1 \<le> coins m'"
    and "1 \<le> gem_surplus m \<Longrightarrow> finished_level_frame_cnt a' = finished_level_frame_cnt a"
    and "1 \<le> gem_surplus m \<Longrightarrow> is_terminated m' \<Longrightarrow> is_terminated m \<or> is_killed a'"
proof -
  have "gem_surplus m' = gem_surplus m
        \<and> (1 \<le> gem_surplus m \<longrightarrow> 1 \<le> coins m' \<and> finished_level_frame_cnt a' = finished_level_frame_cnt a
              \<and> (is_terminated m' \<longrightarrow> is_terminated m \<or> is_killed a'))"
    using assms
  proof (cases rule: eat_coin_cases)
    case coin
    note i = get_elem_index[OF coin(1)]
    define ws where "ws = (walls m)[nat (maze_w m * y + x) := SPACE]"
    have "length (filter (\<lambda>t. t = COIN_OBJ1) ws) + 1 = length (filter (\<lambda>t. t = COIN_OBJ1) (walls m))"
      using filter_update_length[OF i(1), of "\<lambda>t. t = COIN_OBJ1" SPACE] i(2) by (simp add: ws_def)
    then have c: "int (count_tiles COIN_OBJ1 m') + 1 = int (count_tiles COIN_OBJ1 m)"
      unfolding coin(2) by (simp add: count_tiles_def ws_def[symmetric])
    have k: "coins m' = coins m - 1" unfolding coin(2) by simp
    have s: "gem_surplus m' = gem_surplus m" using c k by (simp add: gem_surplus_def)
    have "1 \<le> coins m' \<and> finished_level_frame_cnt a' = finished_level_frame_cnt a
              \<and> (is_terminated m' \<longrightarrow> is_terminated m \<or> is_killed a')" if "1 \<le> gem_surplus m"
    proof -
      have "1 \<le> coins m'" using that s by (simp add: gem_surplus_def)
      then have nz: "coins m - 1 \<noteq> 0" using k by simp
      then have "is_terminated m' = is_terminated m" unfolding coin(2) by simp
      then show ?thesis using coin(3)[OF nz] \<open>1 \<le> coins m'\<close> by simp
    qed
    then show ?thesis using s by blast
  next
    case gem
    note i = get_elem_index[OF gem(1)]
    have "length (filter (\<lambda>t. t = COIN_OBJ1) ((walls m)[nat (maze_w m * y + x) := SPACE]))
            = length (filter (\<lambda>t. t = COIN_OBJ1) (walls m))"
      using filter_update_length[OF i(1), of "\<lambda>t. t = COIN_OBJ1" SPACE] i(2) by simp
    then have s: "gem_surplus m' = gem_surplus m"
      unfolding gem(2) by (simp add: gem_surplus_def count_tiles_def)
    moreover have "coins m' = coins m" "is_terminated m' = is_terminated m" unfolding gem(2) by simp_all
    ultimately show ?thesis using gem(3) by (simp add: gem_surplus_def)
  next
    case lethal
    have "gem_surplus m' = gem_surplus m" "coins m' = coins m"
      unfolding lethal(1) by (simp_all add: gem_surplus_def count_tiles_def)
    then show ?thesis using lethal(2,3) by (simp add: gem_surplus_def)
  next
    case other
    then show ?thesis by (simp add: gem_surplus_def)
  qed
  then show "gem_surplus m' = gem_surplus m"
    and "1 \<le> gem_surplus m \<Longrightarrow> 1 \<le> coins m'"
    and "1 \<le> gem_surplus m \<Longrightarrow> finished_level_frame_cnt a' = finished_level_frame_cnt a"
    and "1 \<le> gem_surplus m \<Longrightarrow> is_terminated m' \<Longrightarrow> is_terminated m \<or> is_killed a'"
    by blast+
qed

lemma eat_coin_killed:
  assumes "eat_coin (a, m) x y = Some (a', m')" "is_killed a" "1 \<le> gem_surplus m"
  shows "is_killed a'"
proof -
  from assms(1) obtain obj where g: "get_elem m x y = Some obj"
    by (auto simp: eat_coin_def split: Option.bind_splits)
  show ?thesis
    using assms(1,2) g
    by (auto simp: eat_coin_def Let_def split: if_splits Option.bind_splits)
qed

lemma eat_coins_surplus:
  "eat_coins (a, m) ps = Some (a', m') \<Longrightarrow> 1 \<le> gem_surplus m \<Longrightarrow>
   gem_surplus m' = gem_surplus m \<and> finished_level_frame_cnt a' = finished_level_frame_cnt a
   \<and> (is_terminated m' \<longrightarrow> is_terminated m \<or> is_killed a') \<and> (is_killed a \<longrightarrow> is_killed a')"
proof (induction ps arbitrary: a m)
  case Nil
  then show ?case by simp
next
  case (Cons p ps)
  obtain x y where p: "p = (x, y)" by (cases p)
  from Cons.prems(1) obtain a1 m1 where
    e: "eat_coin (a, m) x y = Some (a1, m1)" and r: "eat_coins (a1, m1) ps = Some (a', m')"
    by (auto simp: p split: Option.bind_splits)
  note s = eat_coin_surplus[OF e]
  have s1: "1 \<le> gem_surplus m1" using s(1) Cons.prems(2) by simp
  from Cons.IH[OF r s1] s(1) s(3)[OF Cons.prems(2)] s(4)[OF Cons.prems(2)]
    eat_coin_killed[OF e _ Cons.prems(2)]
  show ?case by auto
qed


text \<open>A tick of the agent reaches the cells and the counter through \<^verbatim>\<open>eat_coin\<close> only.\<close>

lemma sub_step_surplus:
  assumes "sub_step cfg (a, m) vx' vy' = Some (a', m')"
  shows "gem_surplus m' = gem_surplus m"
proof -
  from assms obtain a2 ix iy a3 m3 a4 m4 a5 m5 where
    e: "eat_coin (a2, m) ix iy = Some (a3, m3)" "eat_coin (a3, m3) ix (iy + 1) = Some (a4, m4)"
       "eat_coin (a4, m4) (ix + 1) iy = Some (a5, m5)"
       "eat_coin (a5, m5) (ix + 1) (iy + 1) = Some (a', m')"
    by (auto simp: sub_step_def Let_def split: Option.bind_splits)
  show ?thesis
    using eat_coin_surplus(1)[OF e(1)] eat_coin_surplus(1)[OF e(2)]
      eat_coin_surplus(1)[OF e(3)] eat_coin_surplus(1)[OF e(4)] by simp
qed

lemma agent_step_surplus:
  assumes "agent_step cfg (a, m) = Some (a', m')"
  shows "gem_surplus m' = gem_surplus m"
proof -
  from assms obtain a1 m1 where s: "step_coinrun cfg (a\<lparr>time_alive := time_alive a + 1\<rparr>, m) = Some (a1, m1)"
    and m': "m' = (if time_alive a1 > LEVEL_TIMEOUT cfg then m1\<lparr>is_terminated := True\<rparr> else m1)"
    by (auto simp: agent_step_def Let_def split: Option.bind_splits)
  from s obtain b vx1 vy1 b1 n1 b2 where
    s1: "sub_step cfg (b, m) vx1 vy1 = Some (b1, n1)" and
    s2: "(if agent_vx b1 = 0 \<and> agent_vy b1 = 0 then Some (b1, n1)
          else sub_step cfg (b1, n1) (agent_vx b1 * (1 / 2)) (agent_vy b1 * (1 / 2))) = Some (b2, m1)"
    by (auto simp: step_coinrun_def Let_def split: Option.bind_splits)
  have "gem_surplus n1 = gem_surplus m" using s1 by (rule sub_step_surplus)
  moreover have "gem_surplus m1 = gem_surplus n1"
    using s2 sub_step_surplus by (auto split: if_splits)
  moreover have "gem_surplus m' = gem_surplus m1"
    by (simp add: m' gem_surplus_def count_tiles_def)
  ultimately show ?thesis by simp
qed

lemma eat_gem:
  assumes "get_elem m x y = Some COIN_OBJ2"
  shows "\<exists>a1 m1. eat_coin (a, m) x y = Some (a1, m1) \<and> coins m1 = coins m
            \<and> get_elem m1 x y = Some SPACE
            \<and> count_tiles COIN_OBJ1 m1 = count_tiles COIN_OBJ1 m
            \<and> count_tiles COIN_OBJ2 m1 + 1 = count_tiles COIN_OBJ2 m"
proof -
  note i = get_elem_index[OF assms]
  from assms have ma: "may_access m x y" by (simp add: get_elem_def split: if_splits)
  define m1 where "m1 = m\<lparr>walls := (walls m)[nat (maze_w m * y + x) := SPACE]\<rparr>"
  define a1 where "a1 = a\<lparr>reward := reward a + 1, reward_sum := reward_sum a + 1,
                           power_up_mode := True, collected_gem := True\<rparr>"
  have e: "eat_coin (a, m) x y = Some (a1, m1)"
    using assms ma
    by (simp add: eat_coin_def is_lethal_def is_coin_def is_gem_def set_elem_def m1_def a1_def)
  have ma1: "may_access m1 x y"
    using ma by (auto simp: may_access_def in_array_def in_grid_def m1_def split: if_splits)
  have g: "get_elem m1 x y = Some SPACE"
    using ma1 i(1) by (simp add: get_elem_def) (simp add: m1_def)
  have c1: "count_tiles COIN_OBJ1 m1 = count_tiles COIN_OBJ1 m"
    using filter_update_length[OF i(1), of "\<lambda>t. t = COIN_OBJ1" SPACE] i(2)
    by (simp add: count_tiles_def m1_def)
  have c2: "count_tiles COIN_OBJ2 m1 + 1 = count_tiles COIN_OBJ2 m"
    using filter_update_length[OF i(1), of "\<lambda>t. t = COIN_OBJ2" SPACE] i(2)
    by (simp add: count_tiles_def m1_def)
  have "coins m1 = coins m" by (simp add: m1_def)
  then show ?thesis using e g c1 c2 by blast
qed

text \<open>A room with a coin at \<open>(1, 1)\<close> and a gem at \<open>(2, 1)\<close>; the counter counts both.\<close>

definition gem_room :: Maze where
  "gem_room = maze_of 4 4 (''SSSS'' @ ''A12A'' @ ''A..A'' @ ''AAAA'') 2"

text \<open>
  C2. For every seed the generator returns a level whose counter is the number of its
  coin tiles plus the number of its gem tiles: both were counted when they were placed.
  Eating a gem clears the tile and leaves the counter as it is. Hence in every level
  whose counter counts the coins and the gems, and that holds a gem, no sequence of
  pickups brings the counter below 1: the branch \<^verbatim>\<open>maze->coins == 0\<close> of \<^verbatim>\<open>eat_coin\<close> is
  never taken, the finished-level countdown is never started, and the episode is
  terminated, if at all, by a lethal tile that kills the agent.
\<close>

theorem gems_keep_counter_positive:
  "(\<not> maze_strict old \<longrightarrow>
      (\<exists>gs. generate mt cfg old junk g0 level_seed = Some gs
         \<and> coins (gen_maze gs) = int (count_tiles COIN_OBJ1 (gen_maze gs))
                                   + int (count_tiles COIN_OBJ2 (gen_maze gs))))
   \<and> (get_elem m x y = Some COIN_OBJ2 \<longrightarrow>
        (\<exists>a1 m1. eat_coin (a, m) x y = Some (a1, m1) \<and> coins m1 = coins m
            \<and> get_elem m1 x y = Some SPACE))
   \<and> (coins m = int (count_tiles COIN_OBJ1 m) + int (count_tiles COIN_OBJ2 m)
        \<and> 1 \<le> count_tiles COIN_OBJ2 m \<and> eat_coins (a, m) ps = Some (a', m') \<longrightarrow>
        1 \<le> coins m' \<and> finished_level_frame_cnt a' = finished_level_frame_cnt a
        \<and> (is_terminated m' \<longrightarrow> is_terminated m \<or> is_killed a'))"
proof (intro conjI impI)
  assume "\<not> maze_strict old"
  from generate_total[OF this, of mt cfg junk g0 level_seed]
  show "\<exists>gs. generate mt cfg old junk g0 level_seed = Some gs
         \<and> coins (gen_maze gs) = int (count_tiles COIN_OBJ1 (gen_maze gs))
                                   + int (count_tiles COIN_OBJ2 (gen_maze gs))"
    by (auto simp: coin_total_def)
next
  assume "get_elem m x y = Some COIN_OBJ2"
  from eat_gem[OF this, of a]
  show "\<exists>a1 m1. eat_coin (a, m) x y = Some (a1, m1) \<and> coins m1 = coins m
            \<and> get_elem m1 x y = Some SPACE" by blast
next
  assume h: "coins m = int (count_tiles COIN_OBJ1 m) + int (count_tiles COIN_OBJ2 m)
        \<and> 1 \<le> count_tiles COIN_OBJ2 m \<and> eat_coins (a, m) ps = Some (a', m')"
  then have s: "1 \<le> gem_surplus m" by (simp add: gem_surplus_def)
  from eat_coins_surplus[OF _ s] h have
    r: "gem_surplus m' = gem_surplus m" "finished_level_frame_cnt a' = finished_level_frame_cnt a"
       "is_terminated m' \<longrightarrow> is_terminated m \<or> is_killed a'" by blast+
  have "1 \<le> coins m'" using r(1) s by (simp add: gem_surplus_def)
  then show "1 \<le> coins m'" "finished_level_frame_cnt a' = finished_level_frame_cnt a"
    using r(2) by simp_all
  show "is_terminated m' \<Longrightarrow> is_terminated m \<or> is_killed a'" using r(3) by simp
qed

theorem gems_keep_counter_positive_witness:
  "(\<exists>gs. generate zero_mt default_config (maze_of 0 0 [] 0) (\<lambda>i. CHR ''?'') rng0 0 = Some gs
         \<and> coins (gen_maze gs) = int (count_tiles COIN_OBJ1 (gen_maze gs))
                                   + int (count_tiles COIN_OBJ2 (gen_maze gs)))
   \<and> (\<exists>a1 m1. eat_coin (agent0, gem_room) 2 1 = Some (a1, m1) \<and> coins m1 = 2
            \<and> get_elem m1 2 1 = Some SPACE)
   \<and> (\<exists>a' m'. eat_coins (agent0, gem_room) [(2, 1), (1, 1), (1, 1)] = Some (a', m')
        \<and> coins m' = 1 \<and> finished_level_frame_cnt a' = 0 \<and> \<not> is_terminated m')"
proof -
  note t = gems_keep_counter_positive[of "maze_of 0 0 [] 0" zero_mt default_config "\<lambda>i. CHR ''?''"
      rng0 0 gem_room 2 1 agent0]
  have ns: "\<not> maze_strict (maze_of 0 0 [] 0)" by (simp add: maze_of_def)
  have g: "get_elem gem_room 2 1 = Some COIN_OBJ2"
    by (simp add: get_elem_def may_access_def in_array_def gem_room_def maze_of_def)
  have c: "coins gem_room = int (count_tiles COIN_OBJ1 gem_room) + int (count_tiles COIN_OBJ2 gem_room)"
    "1 \<le> count_tiles COIN_OBJ2 gem_room" "coins gem_room = 2"
    by (simp_all add: gem_room_def maze_of_def count_tiles_def)
  have e: "\<exists>a' m'. eat_coins (agent0, gem_room) [(2, 1), (1, 1), (1, 1)] = Some (a', m')
             \<and> coins m' = 1 \<and> finished_level_frame_cnt a' = 0 \<and> \<not> is_terminated m'"
    by (simp add: eat_coin_def get_elem_def set_elem_def may_access_def in_array_def gem_room_def
        maze_of_def agent0_def is_lethal_def is_coin_def is_gem_def Let_def)
  from t ns g c e show ?thesis by auto
qed

section \<open>Where \<^verbatim>\<open>place_coins\<close> puts a coin or a gem\<close>

text \<open>
  \<^verbatim>\<open>randn(10)\<close> is the next output of the engine modulo 10. Of the \<open>2 ^ 32\<close> outputs
  \<open>429496729\<close> give 9, the value that makes a gem: one tenth, less \<open>0.6 / 2 ^ 32\<close>.
\<close>

lemma randn_10:
  assumes "is_seeded (rand_gen gs)"
  shows "randn gs 10 = Some (uint (stdgen (rand_gen gs) 0) mod 10,
                             gs\<lparr>rand_gen := (rand_gen gs)\<lparr>stdgen := (\<lambda>i. stdgen (rand_gen gs) (Suc i))\<rparr>\<rparr>)"
proof -
  let ?x = "stdgen (rand_gen gs) 0"
  have u: "uint (?x mod 10) = uint ?x mod 10" by (simp add: uint_mod)
  have b: "0 \<le> uint ?x mod 10" "uint ?x mod 10 < 10" by simp_all
  have "(- (2 ^ (LENGTH(32) - Suc 0)) :: int) \<le> 0" by simp
  also have "0 \<le> uint (?x mod 10)" unfolding u by (rule b)
  finally have lo: "- (2 ^ (LENGTH(32) - Suc 0)) \<le> uint (?x mod 10)" .
  have hi: "uint (?x mod 10) < 2 ^ (LENGTH(32) - Suc 0)" unfolding u using b(2) by simp
  have "sint (?x mod 10) = uint (?x mod 10)"
    unfolding sint_uint using lo hi by (rule signed_take_bit_int_eq_self)
  then show ?thesis
    using assms u by (simp add: randn_def randint_def stdgen_call_def Let_def)
qed

lemma gem_draws: "card {x :: 32 word. uint x mod 10 = 9} = 429496729"
proof -
  define N :: nat where "N = 429496729"
  let ?f = "\<lambda>k :: nat. (word_of_nat (10 * k + 9) :: 32 word)"
  have un: "unat (?f k) = 10 * k + 9" if "k < N" for k
  proof -
    have "unat (?f k) = (10 * k + 9) mod 2 ^ LENGTH(32)" by (rule unat_of_nat)
    also have "\<dots> = 10 * k + 9" using that by (simp add: N_def)
    finally show ?thesis .
  qed
  have inj: "inj_on ?f {..<N}"
  proof (rule inj_onI)
    fix a b :: nat assume "a \<in> {..<N}" "b \<in> {..<N}" and e: "?f a = ?f b"
    then have ab: "a < N" "b < N" by (simp_all only: lessThan_iff)
    from e have "unat (?f a) = unat (?f b)" by (rule arg_cong)
    then have "10 * a + 9 = 10 * b + 9" by (simp only: un[OF ab(1)] un[OF ab(2)])
    then show "a = b" by linarith
  qed
  have "{x :: 32 word. uint x mod 10 = 9} = ?f ` {..<N}"
  proof (intro set_eqI iffI)
    fix x :: "32 word" assume "x \<in> {x. uint x mod 10 = 9}"
    then have "int (unat x) mod 10 = 9" by (simp only: mem_Collect_eq uint_nat)
    then have "int (unat x mod 10) = int 9" by (simp add: zmod_int)
    then have m: "unat x mod 10 = 9" by (simp only: of_nat_eq_iff)
    define k where "k = unat x div 10"
    have e: "unat x = 10 * k + 9"
      using div_mult_mod_eq[of "unat x" 10] unfolding k_def m by simp
    have "unat x < 4294967296" using unsigned_less[of x] by simp
    then have "k < N" using e unfolding N_def by linarith
    moreover have "?f k = x" unfolding e[symmetric] by simp
    ultimately show "x \<in> ?f ` {..<N}" by (simp only: image_iff lessThan_iff Bex_def) metis
  next
    fix x :: "32 word" assume "x \<in> ?f ` {..<N}"
    then obtain k where k: "k < N" "x = ?f k" by (auto simp only: image_iff lessThan_iff)
    have "uint x = int (unat x)" by (simp only: uint_nat)
    also have "\<dots> = int (10 * k + 9)" unfolding k(2) by (simp only: un[OF k(1)])
    finally have "uint x mod 10 = 9" by simp
    then show "x \<in> {x. uint x mod 10 = 9}" by (simp only: mem_Collect_eq)
  qed
  then have "card {x :: 32 word. uint x mod 10 = 9} = card {..<N}"
    using card_image[OF inj] by (simp only:)
  also have "\<dots> = N" by (rule card_lessThan)
  finally show ?thesis unfolding N_def .
qed

text \<open>
  A level with a shelf of three wall tiles in row 2, under the cells \<open>(30, 3)\<close>,
  \<open>(31, 3)\<close> and \<open>(32, 3)\<close>: the floor and the border of \<^verbatim>\<open>initial_floor_and_walls\<close>
  with the cells \<open>(30, 2)\<close>, \<open>(31, 2)\<close> and \<open>(32, 2)\<close> set to \<^verbatim>\<open>WALL_SURFACE\<close>.
\<close>

definition shelf_level :: RandomMazeGenerator where
  "shelf_level =
     loop_entry\<lparr>gen_maze := (gen_maze loop_entry)
       \<lparr>walls := initial_walls[158 := WALL_SURFACE, 159 := WALL_SURFACE, 160 := WALL_SURFACE]\<rparr>\<rparr>"

lemma shelf_level_inv: "place_inv shelf_level"
proof -
  define m0 where "m0 = gen_maze loop_entry"
  have "\<not> maze_strict (maze_of 0 0 [] 0)" by (simp add: maze_of_def)
  from ginv_initial[OF this, of default_config "\<lambda>i. CHR ''x''"]
  have g0: "minv m0" by (simp add: ginv_def m0_def loop_entry_def)
  have w0: "walls m0 = initial_walls" by (simp add: m0_def loop_entry_def init_physics_def)
  have s: "is_wall WALL_SURFACE False" by (simp add: is_wall_def)
  have "in_grid m0 30 2" using g0 by (simp add: minv_in_grid)
  from set_elem_border[OF g0 this s] obtain m1 where
    m1: "minv m1" "m1 = m0\<lparr>walls := (walls m0)[nat (64 * 2 + 30) := WALL_SURFACE]\<rparr>" by blast
  have "in_grid m1 31 2" using m1(1) by (simp add: minv_in_grid)
  from set_elem_border[OF m1(1) this s] obtain m2 where
    m2: "minv m2" "m2 = m1\<lparr>walls := (walls m1)[nat (64 * 2 + 31) := WALL_SURFACE]\<rparr>" by blast
  have "in_grid m2 32 2" using m2(1) by (simp add: minv_in_grid)
  from set_elem_border[OF m2(1) this s] obtain m3 where
    m3: "minv m3" "m3 = m2\<lparr>walls := (walls m2)[nat (64 * 2 + 32) := WALL_SURFACE]\<rparr>" by blast
  have "gen_maze shelf_level = m3"
    by (simp add: shelf_level_def m3(2) m2(2) m1(2) w0 w0[unfolded m0_def] m0_def)
  then show ?thesis using m3(1) by (simp add: place_inv_def shelf_level_def loop_entry_def rng0_def)
qed

lemma shelf_level_cell:
  assumes "0 \<le> x" "x < 64" "0 \<le> y" "y < 13"
  shows "cell (gen_maze shelf_level) x y
           = (if y = 2 \<and> 30 \<le> x \<and> x \<le> 32 then WALL_SURFACE else init_tile x y)"
proof -
  have l: "nat (64 * y + x) < length initial_walls" using assms by (simp add: initial_walls_def)
  have w: "maze_w (gen_maze loop_entry) = 64"
    by (simp add: loop_entry_def init_physics_def new_Maze_def)
  have c: "cell (gen_maze shelf_level) x y
             = initial_walls[158 := WALL_SURFACE, 159 := WALL_SURFACE, 160 := WALL_SURFACE]
                 ! nat (64 * y + x)"
    by (simp add: cell_def shelf_level_def w)
  have k: "y = 2 \<and> x = c - 128" if "64 * y + x = c" "128 \<le> c" "c < 192" for c
  proof -
    from that assms have "y \<le> 2" "2 \<le> y" by linarith+
    with that show ?thesis by simp
  qed
  have j: "64 * y + x = 158 \<longleftrightarrow> y = 2 \<and> x = 30"
    "64 * y + x = 159 \<longleftrightarrow> y = 2 \<and> x = 31"
    "64 * y + x = 160 \<longleftrightarrow> y = 2 \<and> x = 32"
    using k[of 158] k[of 159] k[of 160] by auto
  have i: "nat (64 * y + x) = 158 \<longleftrightarrow> y = 2 \<and> x = 30"
    "nat (64 * y + x) = 159 \<longleftrightarrow> y = 2 \<and> x = 31"
    "nat (64 * y + x) = 160 \<longleftrightarrow> y = 2 \<and> x = 32"
    unfolding j[symmetric] using assms by (simp_all add: nat_eq_iff)
  show ?thesis
    unfolding c using l i initial_walls_nth[OF assms]
    by (auto simp: nth_list_update)
qed

text \<open>
  The whole loop of \<^verbatim>\<open>place_coins\<close>. A cell that the loop has changed is an anchor above
  row 2 and holds a coin or a gem; the placement predicate held there when the loop
  began, and the six cells around it that the predicate reads are still what they
  were: no later round has changed them.
\<close>

lemma coin_not_open_nor_wall:
  "t = COIN_OBJ1 \<or> t = COIN_OBJ2 \<Longrightarrow> \<not> open_cell t \<and> \<not> is_wall t True"
  by (auto simp: open_cell_def is_wall_def is_crat_def)

lemma wall_not_open: "is_wall c True \<Longrightarrow> \<not> open_cell c"
  by (auto simp: open_cell_def is_wall_def is_crat_def)

lemma placement_ok_interior:
  assumes "minv m" "in_grid m x y" "placement_ok m x y"
  shows "1 \<le> x \<and> x \<le> 62 \<and> 1 \<le> y \<and> y \<le> 11"
proof -
  from assms(3) have "open_cell (cell m x y)" by (simp add: placement_ok_def)
  then have "\<not> is_wall (cell m x y) False" by (auto simp: open_cell_def is_wall_def)
  from interior_if_not_wall[OF assms(1,2) this] show ?thesis .
qed

definition one_tile :: "Maze \<Rightarrow> Maze \<Rightarrow> int \<Rightarrow> int \<Rightarrow> bool" where
  "one_tile m m' x0 y0 \<longleftrightarrow>
     (cell m' x0 y0 = COIN_OBJ1 \<or> cell m' x0 y0 = COIN_OBJ2)
     \<and> (\<forall>x y. 0 \<le> x \<and> x < 64 \<and> 0 \<le> y \<and> y < 13 \<and> (x, y) \<noteq> (x0, y0) \<longrightarrow> cell m' x y = cell m x y)"

lemma placement_ok_before:
  assumes "one_tile m m' x0 y0" "1 \<le> x" "x \<le> 62" "1 \<le> y" "y \<le> 11" "placement_ok m' x y"
  shows "placement_ok m x y \<and> (x, y) \<noteq> (x0, y0)
       \<and> cell m' (x - 1) y = cell m (x - 1) y \<and> cell m' (x + 1) y = cell m (x + 1) y
       \<and> cell m' x (y + 1) = cell m x (y + 1) \<and> cell m' (x - 1) (y - 1) = cell m (x - 1) (y - 1)
       \<and> cell m' x (y - 1) = cell m x (y - 1) \<and> cell m' (x + 1) (y - 1) = cell m (x + 1) (y - 1)"
proof -
  from assms(1) have t: "\<not> open_cell (cell m' x0 y0)" "\<not> is_wall (cell m' x0 y0) True"
    using coin_not_open_nor_wall[of "cell m' x0 y0"] by (simp_all add: one_tile_def)
  have f: "cell m' a b = cell m a b"
    if "0 \<le> a" "a < 64" "0 \<le> b" "b < 13" "open_cell (cell m' a b) \<or> is_wall (cell m' a b) True" for a b
  proof -
    from that(5) t have "(a, b) \<noteq> (x0, y0)" by auto
    with assms(1) that show ?thesis by (simp add: one_tile_def)
  qed
  note p = assms(6)[unfolded placement_ok_def]
  have e: "cell m' x y = cell m x y" "cell m' (x - 1) y = cell m (x - 1) y"
    "cell m' (x + 1) y = cell m (x + 1) y" "cell m' x (y + 1) = cell m x (y + 1)"
    "cell m' (x - 1) (y - 1) = cell m (x - 1) (y - 1)" "cell m' x (y - 1) = cell m x (y - 1)"
    "cell m' (x + 1) (y - 1) = cell m (x + 1) (y - 1)"
    using assms(2-5) p by (auto intro!: f)
  have "(x, y) \<noteq> (x0, y0)" using p t by auto
  moreover have "placement_ok m x y" using p unfolding placement_ok_def e by simp
  ultimately show ?thesis using e by simp
qed

lemma placement_ok_blocked:
  assumes "one_tile m m' x0 y0" "placement_ok m x0 y0"
  shows "\<not> placement_ok m' (x0 - 1) y0" "\<not> placement_ok m' (x0 + 1) y0"
    "\<not> placement_ok m' x0 (y0 + 1)"
  using assms coin_not_open_nor_wall[of "cell m' x0 y0"]
  by (auto simp: one_tile_def placement_ok_def)

lemma place_coins_loop_cells:
  "place_inv gs \<Longrightarrow> set rs \<subseteq> {0..63} \<times> {1..11} \<Longrightarrow>
   place_coins_loop rs n gs = Some (n', gs') \<Longrightarrow>
   \<forall>x y. in_grid (gen_maze gs) x y \<and> cell (gen_maze gs') x y \<noteq> cell (gen_maze gs) x y \<longrightarrow>
     (x, y) \<in> set rs \<and> 2 < y \<and> placement_ok (gen_maze gs) x y
     \<and> (cell (gen_maze gs') x y = COIN_OBJ1 \<or> cell (gen_maze gs') x y = COIN_OBJ2)
     \<and> cell (gen_maze gs') (x - 1) y = cell (gen_maze gs) (x - 1) y
     \<and> cell (gen_maze gs') (x + 1) y = cell (gen_maze gs) (x + 1) y
     \<and> cell (gen_maze gs') x (y + 1) = cell (gen_maze gs) x (y + 1)
     \<and> cell (gen_maze gs') (x - 1) (y - 1) = cell (gen_maze gs) (x - 1) (y - 1)
     \<and> cell (gen_maze gs') x (y - 1) = cell (gen_maze gs) x (y - 1)
     \<and> cell (gen_maze gs') (x + 1) (y - 1) = cell (gen_maze gs) (x + 1) (y - 1)"
proof (induction rs arbitrary: n gs)
  case Nil
  then show ?case by (simp add: place_coins_loop.simps)
next
  case (Cons r rs)
  obtain x0 y0 where r: "r = (x0, y0)" by (cases r)
  from Cons.prems(2) have xy: "0 \<le> x0" "x0 \<le> 63" "1 \<le> y0" "y0 \<le> 11"
    and rs: "set rs \<subseteq> {0..63} \<times> {1..11}" by (auto simp: r)
  define m where "m = gen_maze gs"
  have mi: "minv m" using Cons.prems(1) by (simp add: place_inv_def m_def)
  note round = place_round[OF Cons.prems(1) xy, of rs n]
  show ?case
  proof (cases "placement_ok (gen_maze gs) x0 y0 \<and> y0 > 2")
    case False
    from round[unfolded if_not_P[OF False]] Cons.prems(3)
    have e: "place_coins_loop rs n gs = Some (n', gs')" by (simp add: r)
    from Cons.IH[OF Cons.prems(1) rs e] show ?thesis by (simp add: r)
  next
    case True
    from round[unfolded if_P[OF True]] obtain v g m' where
      pi: "place_inv (gs\<lparr>rand_gen := g, gen_maze := m'\<rparr>)" and
      fr: "\<forall>x' y'. in_grid m x' y' \<longrightarrow>
             cell m' x' y' = (if x' = x0 \<and> y' = y0 then (if v = (9::int) then COIN_OBJ2 else COIN_OBJ1)
                              else cell m x' y')" and
      e: "place_coins_loop (r # rs) n gs
            = place_coins_loop rs (n + 1) (gs\<lparr>rand_gen := g, gen_maze := m'\<rparr>)"
      unfolding r m_def by blast
    have mi': "minv m'" using pi by (simp add: place_inv_def)
    have ok: "placement_ok m x0 y0" "2 < y0" using True by (simp_all add: m_def)
    have ig0: "in_grid m x0 y0" using mi xy by (simp add: minv_in_grid)
    from placement_ok_interior[OF mi ig0 ok(1)] have x0r: "1 \<le> x0" "x0 \<le> 62" by simp_all
    have ot: "one_tile m m' x0 y0"
      unfolding one_tile_def using fr mi ig0 by (auto simp: minv_in_grid)
    from Cons.prems(3) e have e': "place_coins_loop rs (n + 1) (gs\<lparr>rand_gen := g, gen_maze := m'\<rparr>)
                                    = Some (n', gs')" by simp
    define mf where "mf = gen_maze gs'"
    note IH = Cons.IH[OF pi rs e', simplified, folded mf_def]
    have ch: "placement_ok m' a b \<and> 2 < b \<and> (a, b) \<in> set rs
          \<and> (cell mf a b = COIN_OBJ1 \<or> cell mf a b = COIN_OBJ2)
          \<and> cell mf (a - 1) b = cell m' (a - 1) b \<and> cell mf (a + 1) b = cell m' (a + 1) b
          \<and> cell mf a (b + 1) = cell m' a (b + 1) \<and> cell mf (a - 1) (b - 1) = cell m' (a - 1) (b - 1)
          \<and> cell mf a (b - 1) = cell m' a (b - 1) \<and> cell mf (a + 1) (b - 1) = cell m' (a + 1) (b - 1)"
      if "0 \<le> a" "a < 64" "0 \<le> b" "b < 13" "cell mf a b \<noteq> cell m' a b" for a b
      using IH that mi' by (simp add: minv_in_grid)
    have goal: "(x, y) \<in> set (r # rs) \<and> 2 < y \<and> placement_ok m x y
       \<and> (cell mf x y = COIN_OBJ1 \<or> cell mf x y = COIN_OBJ2)
       \<and> cell mf (x - 1) y = cell m (x - 1) y \<and> cell mf (x + 1) y = cell m (x + 1) y
       \<and> cell mf x (y + 1) = cell m x (y + 1) \<and> cell mf (x - 1) (y - 1) = cell m (x - 1) (y - 1)
       \<and> cell mf x (y - 1) = cell m x (y - 1) \<and> cell mf (x + 1) (y - 1) = cell m (x + 1) (y - 1)"
      if ig: "in_grid m x y" and df: "cell mf x y \<noteq> cell m x y" for x y
    proof -
      from ig mi have xr: "0 \<le> x" "x < 64" "0 \<le> y" "y < 13" by (simp_all add: minv_in_grid)
      show ?thesis
      proof (cases "cell mf x y = cell m' x y")
        case False
        note c = ch[OF xr False]
        have ig': "in_grid m' x y" using mi' xr by (simp add: minv_in_grid)
        from placement_ok_interior[OF mi' ig'] c
        have xi: "1 \<le> x" "x \<le> 62" "1 \<le> y" "y \<le> 11" by simp_all
        from placement_ok_before[OF ot xi] c show ?thesis by simp
      next
        case same: True
        with df have "cell m' x y \<noteq> cell m x y" by simp
        with ot xr have at: "x = x0" "y = y0" by (auto simp: one_tile_def)
        have coin: "cell mf x y = COIN_OBJ1 \<or> cell mf x y = COIN_OBJ2"
          using ot same by (simp add: one_tile_def at)
        note bl = placement_ok_blocked[OF ot ok(1)]
        have nb: "cell mf a b = cell m a b"
          if "0 \<le> a" "a < 64" "0 \<le> b" "b < 13" "(a, b) \<noteq> (x0, y0)" "\<not> placement_ok m' a b" for a b
        proof -
          have "cell mf a b = cell m' a b" using ch[OF that(1-4)] that(6) by blast
          also have "\<dots> = cell m a b" using ot that(1-5) by (simp add: one_tile_def)
          finally show ?thesis .
        qed
        have w: "\<not> placement_ok m' a b" if "is_wall (cell m a b) True" "cell m' a b = cell m a b" for a b
          using that wall_not_open[of "cell m a b"] by (simp add: placement_ok_def)
        have bw: "is_wall (cell m (x0 - 1) (y0 - 1)) True" "is_wall (cell m x0 (y0 - 1)) True"
          "is_wall (cell m (x0 + 1) (y0 - 1)) True" using ok(1) by (simp_all add: placement_ok_def)
        have be: "cell m' (x0 - 1) (y0 - 1) = cell m (x0 - 1) (y0 - 1)"
          "cell m' x0 (y0 - 1) = cell m x0 (y0 - 1)"
          "cell m' (x0 + 1) (y0 - 1) = cell m (x0 + 1) (y0 - 1)"
          using ot x0r xy ok(2) by (simp_all add: one_tile_def)
        have n1: "cell mf (x0 - 1) y0 = cell m (x0 - 1) y0"
          using x0r xy bl(1) by (intro nb) simp_all
        have n2: "cell mf (x0 + 1) y0 = cell m (x0 + 1) y0"
          using x0r xy bl(2) by (intro nb) simp_all
        have n3: "cell mf x0 (y0 + 1) = cell m x0 (y0 + 1)"
          using x0r xy bl(3) by (intro nb) simp_all
        have n4: "cell mf (x0 - 1) (y0 - 1) = cell m (x0 - 1) (y0 - 1)"
          using x0r xy ok(2) w[OF bw(1) be(1)] by (intro nb) simp_all
        have n5: "cell mf x0 (y0 - 1) = cell m x0 (y0 - 1)"
          using x0r xy ok(2) w[OF bw(2) be(2)] by (intro nb) simp_all
        have n6: "cell mf (x0 + 1) (y0 - 1) = cell m (x0 + 1) (y0 - 1)"
          using x0r xy ok(2) w[OF bw(3) be(3)] by (intro nb) simp_all
        show ?thesis using coin ok n1 n2 n3 n4 n5 n6 by (simp add: at r)
      qed
    qed
    show ?thesis unfolding m_def[symmetric] mf_def[symmetric] using goal by blast
  qed
qed

text \<open>
  C6. The loop of \<^verbatim>\<open>place_coins\<close> in any state it can be in (the border solid, the
  generator seeded), with the anchor \<open>(x, y)\<close> next on the stack and the anchors \<open>rs\<close>
  after it. In this round a tile is written exactly when the placement predicate holds
  in the maze of that moment and moreover \<open>y > 2\<close>: the anchor and its left, right and
  upper neighbours are open (empty, or the marker of a walking monster), the three
  cells beneath are walls, a crate counting as a wall. Then the tile goes to the anchor
  and nowhere else, and it is a gem when the draw \<^verbatim>\<open>randn(10)\<close>, the next output of the
  engine modulo 10, is 9, and a coin for the nine other values. Otherwise nothing is
  written and nothing is drawn, and the loop goes on with the remaining anchors: the
  anchor is not looked at again. The loop returns, and every cell it has changed is one
  of its anchors above row 2, holds a coin or a gem, satisfied the predicate, and has
  the six cells around it that the predicate reads unchanged.
\<close>

theorem coin_placed_where_predicate_holds:
  assumes "place_inv gs" "set ((x, y) # rs) \<subseteq> {0..63} \<times> {1..11}"
  shows "(placement_ok (gen_maze gs) x y \<and> 2 < y \<longrightarrow>
            (\<exists>v g m'. randn gs 10 = Some (v, gs\<lparr>rand_gen := g\<rparr>)
               \<and> v = uint (stdgen (rand_gen gs) 0) mod 10 \<and> 0 \<le> v \<and> v < 10
               \<and> set_elem (gen_maze gs) x y (if v = 9 then COIN_OBJ2 else COIN_OBJ1) = Some m'
               \<and> (\<forall>x' y'. in_grid (gen_maze gs) x' y' \<longrightarrow>
                     cell m' x' y' = (if x' = x \<and> y' = y
                                      then (if v = 9 then COIN_OBJ2 else COIN_OBJ1)
                                      else cell (gen_maze gs) x' y'))
               \<and> place_inv (gs\<lparr>rand_gen := g, gen_maze := m'\<rparr>)
               \<and> place_coins_loop ((x, y) # rs) n gs
                    = place_coins_loop rs (n + 1) (gs\<lparr>rand_gen := g, gen_maze := m'\<rparr>)))
       \<and> (\<not> (placement_ok (gen_maze gs) x y \<and> 2 < y) \<longrightarrow>
            place_coins_loop ((x, y) # rs) n gs = place_coins_loop rs n gs)
       \<and> (\<exists>n' gs'. place_coins_loop ((x, y) # rs) n gs = Some (n', gs')
            \<and> (\<forall>a b. in_grid (gen_maze gs) a b
                     \<and> cell (gen_maze gs') a b \<noteq> cell (gen_maze gs) a b \<longrightarrow>
                 (a, b) \<in> set ((x, y) # rs) \<and> 2 < b \<and> placement_ok (gen_maze gs) a b
                 \<and> (cell (gen_maze gs') a b = COIN_OBJ1 \<or> cell (gen_maze gs') a b = COIN_OBJ2)
                 \<and> cell (gen_maze gs') (a - 1) b = cell (gen_maze gs) (a - 1) b
                 \<and> cell (gen_maze gs') (a + 1) b = cell (gen_maze gs) (a + 1) b
                 \<and> cell (gen_maze gs') a (b + 1) = cell (gen_maze gs) a (b + 1)
                 \<and> cell (gen_maze gs') (a - 1) (b - 1) = cell (gen_maze gs) (a - 1) (b - 1)
                 \<and> cell (gen_maze gs') a (b - 1) = cell (gen_maze gs) a (b - 1)
                 \<and> cell (gen_maze gs') (a + 1) (b - 1) = cell (gen_maze gs) (a + 1) (b - 1)))"
proof (intro conjI impI)
  from assms(2) have xy: "0 \<le> x" "x \<le> 63" "1 \<le> y" "y \<le> 11" by auto
  {
    assume ok: "placement_ok (gen_maze gs) x y \<and> 2 < y"
    from assms(1) have "is_seeded (rand_gen gs)" by (simp add: place_inv_def)
    note r10 = randn_10[OF this]
    from place_round[OF assms(1) xy, of rs n, unfolded if_P[OF ok]] obtain v g m' where
      r: "randn gs 10 = Some (v, gs\<lparr>rand_gen := g\<rparr>)" "0 \<le> v" "v < 10"
         "set_elem (gen_maze gs) x y (if v = 9 then COIN_OBJ2 else COIN_OBJ1) = Some m'"
         "place_inv (gs\<lparr>rand_gen := g, gen_maze := m'\<rparr>)"
         "\<forall>x' y'. in_grid (gen_maze gs) x' y' \<longrightarrow>
                       cell m' x' y' = (if x' = x \<and> y' = y
                                        then (if v = 9 then COIN_OBJ2 else COIN_OBJ1)
                                        else cell (gen_maze gs) x' y')"
         "place_coins_loop ((x, y) # rs) n gs
                      = place_coins_loop rs (n + 1) (gs\<lparr>rand_gen := g, gen_maze := m'\<rparr>)"
      by blast
    have "v = uint (stdgen (rand_gen gs) 0) mod 10" using r(1) r10 by simp
    with r show "\<exists>v g m'. randn gs 10 = Some (v, gs\<lparr>rand_gen := g\<rparr>)
                 \<and> v = uint (stdgen (rand_gen gs) 0) mod 10 \<and> 0 \<le> v \<and> v < 10
                 \<and> set_elem (gen_maze gs) x y (if v = 9 then COIN_OBJ2 else COIN_OBJ1) = Some m'
                 \<and> (\<forall>x' y'. in_grid (gen_maze gs) x' y' \<longrightarrow>
                       cell m' x' y' = (if x' = x \<and> y' = y
                                        then (if v = 9 then COIN_OBJ2 else COIN_OBJ1)
                                        else cell (gen_maze gs) x' y'))
                 \<and> place_inv (gs\<lparr>rand_gen := g, gen_maze := m'\<rparr>)
                 \<and> place_coins_loop ((x, y) # rs) n gs
                      = place_coins_loop rs (n + 1) (gs\<lparr>rand_gen := g, gen_maze := m'\<rparr>)"
      by blast
  }
  {
    assume no: "\<not> (placement_ok (gen_maze gs) x y \<and> 2 < y)"
    from place_round[OF assms(1) xy, of rs n, unfolded if_not_P[OF no]]
    show "place_coins_loop ((x, y) # rs) n gs = place_coins_loop rs n gs" .
  }
  from place_coins_loop_inv[OF assms, of n] obtain n' gs' where
    e: "place_coins_loop ((x, y) # rs) n gs = Some (n', gs')" by auto
  from place_coins_loop_cells[OF assms e] e
  show "\<exists>n' gs'. place_coins_loop ((x, y) # rs) n gs = Some (n', gs')
            \<and> (\<forall>a b. in_grid (gen_maze gs) a b
                     \<and> cell (gen_maze gs') a b \<noteq> cell (gen_maze gs) a b \<longrightarrow>
                 (a, b) \<in> set ((x, y) # rs) \<and> 2 < b \<and> placement_ok (gen_maze gs) a b
                 \<and> (cell (gen_maze gs') a b = COIN_OBJ1 \<or> cell (gen_maze gs') a b = COIN_OBJ2)
                 \<and> cell (gen_maze gs') (a - 1) b = cell (gen_maze gs) (a - 1) b
                 \<and> cell (gen_maze gs') (a + 1) b = cell (gen_maze gs) (a + 1) b
                 \<and> cell (gen_maze gs') a (b + 1) = cell (gen_maze gs) a (b + 1)
                 \<and> cell (gen_maze gs') (a - 1) (b - 1) = cell (gen_maze gs) (a - 1) (b - 1)
                 \<and> cell (gen_maze gs') a (b - 1) = cell (gen_maze gs) a (b - 1)
                 \<and> cell (gen_maze gs') (a + 1) (b - 1) = cell (gen_maze gs) (a + 1) (b - 1))"
    by blast
qed

theorem coin_placed_where_predicate_holds_witness:
  "placement_ok (gen_maze shelf_level) 31 3 \<and> placement_ok (gen_maze shelf_level) 5 1
   \<and> (\<exists>g m'. randn shelf_level 10 = Some (0, shelf_level\<lparr>rand_gen := g\<rparr>)
          \<and> set_elem (gen_maze shelf_level) 31 3 COIN_OBJ1 = Some m'
          \<and> place_coins_loop [(31, 3), (5, 1)] 0 shelf_level
               = place_coins_loop [(5, 1)] 1 (shelf_level\<lparr>rand_gen := g, gen_maze := m'\<rparr>)
          \<and> place_coins_loop [(5, 1)] 1 (shelf_level\<lparr>rand_gen := g, gen_maze := m'\<rparr>)
               = Some (1, shelf_level\<lparr>rand_gen := g, gen_maze := m'\<rparr>)
          \<and> cell m' 31 3 = COIN_OBJ1 \<and> cell m' 30 3 = SPACE \<and> cell m' 32 3 = SPACE
          \<and> cell m' 31 4 = SPACE \<and> cell m' 30 2 = WALL_SURFACE \<and> cell m' 31 2 = WALL_SURFACE
          \<and> cell m' 32 2 = WALL_SURFACE)"
proof -
  have c: "cell (gen_maze shelf_level) 31 3 = SPACE" "cell (gen_maze shelf_level) 30 3 = SPACE"
    "cell (gen_maze shelf_level) 32 3 = SPACE" "cell (gen_maze shelf_level) 31 4 = SPACE"
    "cell (gen_maze shelf_level) 30 2 = WALL_SURFACE" "cell (gen_maze shelf_level) 31 2 = WALL_SURFACE"
    "cell (gen_maze shelf_level) 32 2 = WALL_SURFACE"
    "cell (gen_maze shelf_level) 5 1 = SPACE" "cell (gen_maze shelf_level) 4 1 = SPACE"
    "cell (gen_maze shelf_level) 6 1 = SPACE" "cell (gen_maze shelf_level) 5 2 = SPACE"
    "cell (gen_maze shelf_level) 4 0 = WALL_SURFACE" "cell (gen_maze shelf_level) 5 0 = WALL_SURFACE"
    "cell (gen_maze shelf_level) 6 0 = WALL_SURFACE"
    by (simp_all add: shelf_level_cell init_tile_def)
  have p1: "placement_ok (gen_maze shelf_level) 31 3" and p2: "placement_ok (gen_maze shelf_level) 5 1"
    unfolding placement_ok_def
    by (simp_all add: c open_cell_def is_wall_def)
  have z: "uint (stdgen (rand_gen shelf_level) 0) mod 10 = 0"
    by (simp add: shelf_level_def loop_entry_def rng0_def)
  have ig: "in_grid (gen_maze shelf_level) 31 3"
    using shelf_level_inv by (simp add: place_inv_def minv_in_grid)
  have sub: "set [(31, 3), (5, 1)] \<subseteq> {0..63::int} \<times> {1..11::int}"
    "set [(5, 1)] \<subseteq> {0..63::int} \<times> {1..11::int}"
    by simp_all
  note t = coin_placed_where_predicate_holds[OF shelf_level_inv sub(1), of 0]
  from t p1 z obtain g m' where
    r: "randn shelf_level 10 = Some (0, shelf_level\<lparr>rand_gen := g\<rparr>)"
       "set_elem (gen_maze shelf_level) 31 3 COIN_OBJ1 = Some m'"
       "\<forall>x' y'. in_grid (gen_maze shelf_level) x' y' \<longrightarrow>
           cell m' x' y' = (if x' = 31 \<and> y' = 3 then COIN_OBJ1 else cell (gen_maze shelf_level) x' y')"
       "place_inv (shelf_level\<lparr>rand_gen := g, gen_maze := m'\<rparr>)"
       "place_coins_loop [(31, 3), (5, 1)] 0 shelf_level
               = place_coins_loop [(5, 1)] 1 (shelf_level\<lparr>rand_gen := g, gen_maze := m'\<rparr>)"
    by auto
  define gs1 where "gs1 = shelf_level\<lparr>rand_gen := g, gen_maze := m'\<rparr>"
  have l2: "place_coins_loop [(5, 1)] 1 gs1 = Some (1, gs1)"
    using coin_placed_where_predicate_holds[OF r(4) sub(2), of 1, folded gs1_def]
    by (simp add: place_coins_loop.simps)
  have m31: "cell m' 31 3 = COIN_OBJ1" using r(3) ig by simp
  from t r(5) l2 have
    "\<forall>a b. in_grid (gen_maze shelf_level) a b \<and> cell m' a b \<noteq> cell (gen_maze shelf_level) a b \<longrightarrow>
         cell m' (a - 1) b = cell (gen_maze shelf_level) (a - 1) b
       \<and> cell m' (a + 1) b = cell (gen_maze shelf_level) (a + 1) b
       \<and> cell m' a (b + 1) = cell (gen_maze shelf_level) a (b + 1)
       \<and> cell m' (a - 1) (b - 1) = cell (gen_maze shelf_level) (a - 1) (b - 1)
       \<and> cell m' a (b - 1) = cell (gen_maze shelf_level) a (b - 1)
       \<and> cell m' (a + 1) (b - 1) = cell (gen_maze shelf_level) (a + 1) (b - 1)"
    by (simp add: gs1_def)
  from this[rule_format, of 31 3] ig m31 c
  have nb: "cell m' 30 3 = SPACE" "cell m' 32 3 = SPACE" "cell m' 31 4 = SPACE"
    "cell m' 30 2 = WALL_SURFACE" "cell m' 31 2 = WALL_SURFACE" "cell m' 32 2 = WALL_SURFACE"
    by simp_all
  show ?thesis using p1 p2 r(1,2,5) l2 m31 nb unfolding gs1_def by blast
qed

end
